(* ===== verification/Etcd_Prelude.thy ===== *)
theory Etcd_Prelude
  imports Main "HOL-Library.Word" "HOL-Library.List_Lexorder" "HOL-Library.Product_Lexorder"
begin

text \<open>
  Shared vocabulary of the development: the Rust integer and byte types, the two ways a Rust
  function can end (it returns, or its thread panics), the standard-library searches on sorted
  vectors, and the generic list lemmas that several components use.
\<close>

section \<open>Types\<close>

text \<open>
  \<open>u8\<close> keeps its width. \<open>i64\<close> and \<open>usize\<close> are read as integers and natural numbers: the
  counters of the program (revisions, lengths, watcher ids) grow by one per write, and 64 bits are
  not exhausted. Where a number comes from a client or from a file, the width matters, and the
  casts \<open>as_usize\<close>, \<open>as_i64\<close> and \<open>rev_index\<close> below write it out.
\<close>

type_synonym u8 = "8 word"
type_synonym byte_array = "u8 list"
type_synonym i64 = int
type_synonym usize = nat

definition usize_MAX :: usize where
  "usize_MAX = 2 ^ 64 - 1"

definition as_usize :: "i64 \<Rightarrow> usize" where
  "as_usize i = nat (i mod 2 ^ 64)"

definition as_i64 :: "usize \<Rightarrow> i64" where
  "as_i64 n = (int n + 2 ^ 63) mod 2 ^ 64 - 2 ^ 63"

text \<open>
  \<open>r as usize - 1\<close>, the slot of revision \<open>r\<close>. A revision that is not positive wraps around to a
  huge index (release arithmetic).
\<close>

definition rev_index :: "i64 \<Rightarrow> usize" where
  "rev_index r = (if 1 \<le> r then nat (r - 1) else nat ((r - 1) mod 2 ^ 64))"

text \<open>How a call ends: it returns a value, or the thread panics.\<close>

datatype 'a run = Returns 'a | Panics

definition bind_run :: "'a run \<Rightarrow> ('a \<Rightarrow> 'b run) \<Rightarrow> 'b run" where
  "bind_run m f = (case m of Returns x \<Rightarrow> f x | Panics \<Rightarrow> Panics)"

fun returned :: "'a run \<Rightarrow> 'a option" where
  "returned (Returns x) = Some x"
| "returned Panics = None"

fun_cases returned_SomeE: "returned r = Some x"

text \<open>\<open>slice::partition_point\<close> and \<open>slice::binary_search\<close> on an ascending vector.\<close>

definition partition_point :: "('a \<Rightarrow> bool) \<Rightarrow> 'a list \<Rightarrow> nat" where
  "partition_point p xs = length (takeWhile p xs)"

definition binary_search :: "'a::linorder list \<Rightarrow> 'a \<Rightarrow> nat + nat" where
  "binary_search xs x =
     (let i = partition_point (\<lambda>y. y < x) xs
      in if i < length xs \<and> xs ! i = x then Inr i else Inl i)"

named_theorems run_simps \<open>evaluation of calls that return\<close>
named_theorems casts \<open>the Rust integer casts\<close>

section \<open>Casts\<close>

lemma as_usize_nonneg [casts]: "0 \<le> i \<Longrightarrow> i < 2 ^ 64 \<Longrightarrow> as_usize i = nat i"
  by (simp add: as_usize_def)

lemma as_i64_small [casts]: "n < 2 ^ 63 \<Longrightarrow> as_i64 n = int n"
  by (simp add: as_i64_def)

lemma as_i64_as_usize: "- (2 ^ 63) \<le> i \<Longrightarrow> i < 2 ^ 63 \<Longrightarrow> as_i64 (as_usize i) = i"
  by (simp add: as_usize_def as_i64_def mod_add_left_eq)

lemma rev_index_pos [casts]: "1 \<le> r \<Longrightarrow> rev_index r = nat (r - 1)"
  by (simp add: rev_index_def)

lemma rev_index_wraps: "r < 2 ^ 63 \<Longrightarrow> rev_index r = nat ((r - 1) mod 2 ^ 64)"
  by (auto simp: rev_index_def)

lemma rev_index_of_slot [casts]: "rev_index (int n + 1) = n"
  by (simp add: rev_index_def)

section \<open>Calls\<close>

lemma bind_run_simps [simp, run_simps]:
  "bind_run (Returns x) f = f x" "bind_run Panics f = Panics"
  by (simp_all add: bind_run_def)

lemma bind_run_eq_Returns:
  "bind_run m f = Returns y \<longleftrightarrow> (\<exists>x. m = Returns x \<and> f x = Returns y)"
  by (cases m) auto

section \<open>Searching ascending lists\<close>

lemma takeWhile_less_sorted:
  fixes xs :: "'a::linorder list"
  assumes "sorted xs"
  shows "takeWhile (\<lambda>y. y < x) xs = filter (\<lambda>y. y < x) xs"
  using assms by (induction xs) (auto simp: empty_filter_conv not_less)

lemma partition_point_sorted:
  fixes xs :: "'a::linorder list"
  shows "sorted xs \<Longrightarrow> partition_point (\<lambda>y. y < x) xs = length (filter (\<lambda>y. y < x) xs)"
  by (simp add: partition_point_def takeWhile_less_sorted)

lemma drop_partition_point:
  fixes xs :: "'a::linorder list"
  assumes "sorted xs"
  shows "drop (partition_point (\<lambda>y. y < x) xs) xs = filter (\<lambda>y. x \<le> y) xs"
  using assms
  by (induction xs) (auto simp: partition_point_def not_less intro!: filter_True[symmetric])

lemma partition_point_nth_ge:
  assumes "partition_point p xs < length xs"
  shows "\<not> p (xs ! partition_point p xs)"
  using assms by (simp add: partition_point_def nth_length_takeWhile)

lemma partition_point_nth_less:
  assumes "i < partition_point p xs"
  shows "p (xs ! i)"
  using assms nth_mem[of i "takeWhile p xs"]
  by (auto simp: partition_point_def takeWhile_nth dest: set_takeWhileD)

lemma partition_point_le: "partition_point p xs \<le> length xs"
  by (simp add: partition_point_def length_takeWhile_le)

lemma sorted_le_last: "sorted xs \<Longrightarrow> x \<in> set xs \<Longrightarrow> x \<le> last xs"
  by (induction xs) (auto split: if_splits)

section \<open>Lists of blocks of one size\<close>

definition uniform :: "nat \<Rightarrow> 'a list list \<Rightarrow> bool" where
  "uniform n bss = (\<forall>b\<in>set bss. length b = n)"

lemma uniform_simps [simp]:
  "uniform n []"
  "uniform n (b # bss) \<longleftrightarrow> length b = n \<and> uniform n bss"
  "uniform n (xs @ ys) \<longleftrightarrow> uniform n xs \<and> uniform n ys"
  by (auto simp: uniform_def)

lemma length_concat_uniform: "uniform n bss \<Longrightarrow> length (concat bss) = length bss * n"
  by (induction bss) auto

lemma nth_concat_uniform:
  assumes "uniform n bss" and "i < length bss" and "j < n"
  shows "concat bss ! (i * n + j) = bss ! i ! j"
  using assms
proof (induction bss arbitrary: i)
  case Nil
  then show ?case by simp
next
  case (Cons b bss)
  then show ?case by (cases i) (auto simp: nth_append add.assoc)
qed

lemma concat_update_uniform:
  assumes "uniform n bss" and "i < length bss" and "j < n"
  shows "concat (bss[i := (bss ! i)[j := v]]) = (concat bss)[i * n + j := v]"
  using assms
proof (induction bss arbitrary: i)
  case Nil
  then show ?case by simp
next
  case (Cons b bss)
  then show ?case by (cases i) (auto simp: list_update_append add.assoc)
qed

lemma uniform_update:
  "uniform n bss \<Longrightarrow> i < length bss \<Longrightarrow> length b = n \<Longrightarrow> uniform n (bss[i := b])"
  by (auto simp: uniform_def dest!: set_update_subset_insert[THEN subsetD])

lemma drop_concat_uniform:
  "uniform n bss \<Longrightarrow> concat (drop k bss) = drop (k * n) (concat bss)"
proof (induction bss arbitrary: k)
  case Nil
  then show ?case by simp
next
  case (Cons b bss)
  then show ?case by (cases k) auto
qed

lemma uniform_drop: "uniform n bss \<Longrightarrow> uniform n (drop k bss)"
  by (auto simp: uniform_def dest: in_set_dropD)

end
