(* ===== verification/BTree_Map.thy ===== *)
theory BTree_Map
  imports Etcd_Prelude
begin

text \<open>
  \<open>std::collections::BTreeMap\<close>, as the store (the keys of a prefix, the watchers) and the Raft log
  use it: an association list in ascending key order. \<open>btree_range\<close> panics on an inverted range,
  as the standard library documents. The locale \<open>ordered_map\<close> is the contract the clients rely
  on; the end of the theory interprets it on the model.
\<close>

section \<open>Operations\<close>

type_synonym ('k, 'v) btree = "('k \<times> 'v) list"

datatype 'k bound = Included 'k | Excluded 'k | Unbounded

definition btree_new :: "('k, 'v) btree" where
  "btree_new = []"

fun btree_insert :: "'k::linorder \<Rightarrow> 'v \<Rightarrow> ('k, 'v) btree \<Rightarrow> ('k, 'v) btree" where
  "btree_insert k v [] = [(k, v)]"
| "btree_insert k v ((k', v') # m) =
     (if k < k' then (k, v) # (k', v') # m
      else if k = k' then (k, v) # m
      else (k', v') # btree_insert k v m)"

definition btree_remove :: "'k \<Rightarrow> ('k, 'v) btree \<Rightarrow> ('k, 'v) btree" where
  "btree_remove k m = filter (\<lambda>(k', _). k' \<noteq> k) m"

definition btree_get :: "('k, 'v) btree \<Rightarrow> 'k \<Rightarrow> 'v option" where
  "btree_get m = map_of m"

fun above :: "'k::linorder bound \<Rightarrow> 'k \<Rightarrow> bool" where
  "above (Included s) k \<longleftrightarrow> s \<le> k"
| "above (Excluded s) k \<longleftrightarrow> s < k"
| "above Unbounded k \<longleftrightarrow> True"

fun below :: "'k::linorder bound \<Rightarrow> 'k \<Rightarrow> bool" where
  "below (Included e) k \<longleftrightarrow> k \<le> e"
| "below (Excluded e) k \<longleftrightarrow> k < e"
| "below Unbounded k \<longleftrightarrow> True"

fun inverted :: "'k::linorder bound \<Rightarrow> 'k bound \<Rightarrow> bool" where
  "inverted (Included s) (Included e) \<longleftrightarrow> e < s"
| "inverted (Included s) (Excluded e) \<longleftrightarrow> e < s"
| "inverted (Excluded s) (Included e) \<longleftrightarrow> e < s"
| "inverted (Excluded s) (Excluded e) \<longleftrightarrow> e \<le> s"
| "inverted _ _ \<longleftrightarrow> False"

definition btree_range :: "'k::linorder bound \<Rightarrow> 'k bound \<Rightarrow> ('k, 'v) btree \<Rightarrow> ('k \<times> 'v) list run" where
  "btree_range lo hi m =
     (if inverted lo hi then Panics
      else Returns (filter (\<lambda>(k, _). above lo k \<and> below hi k) m))"

definition btree_wf :: "('k::linorder, 'v) btree \<Rightarrow> bool" where
  "btree_wf m = sorted_wrt (<) (map fst m)"

section \<open>The contract\<close>

locale ordered_map =
  fixes empty :: "'m"
    and insert :: "'k::linorder \<Rightarrow> 'v \<Rightarrow> 'm \<Rightarrow> 'm"
    and remove :: "'k \<Rightarrow> 'm \<Rightarrow> 'm"
    and lookup :: "'m \<Rightarrow> 'k \<Rightarrow> 'v option"
    and entries :: "'m \<Rightarrow> ('k \<times> 'v) list"
    and wf :: "'m \<Rightarrow> bool"
  assumes wf_empty: "wf empty"
    and wf_insert: "wf m \<Longrightarrow> wf (insert k v m)"
    and wf_remove: "wf m \<Longrightarrow> wf (remove k m)"
    and lookup_empty: "lookup empty = Map.empty"
    and lookup_insert: "wf m \<Longrightarrow> lookup (insert k v m) = (lookup m)(k \<mapsto> v)"
    and lookup_remove: "wf m \<Longrightarrow> lookup (remove k m) = (lookup m)(k := None)"
    and entries_lookup: "wf m \<Longrightarrow> map_of (entries m) = lookup m"
    and entries_ascending: "wf m \<Longrightarrow> sorted_wrt (<) (map fst (entries m))"
begin

lemma entries_distinct: "wf m \<Longrightarrow> distinct (map fst (entries m))"
  using entries_ascending strict_sorted_iff by blast

lemma mem_entries_iff: "wf m \<Longrightarrow> (k, v) \<in> set (entries m) \<longleftrightarrow> lookup m k = Some v"
  using entries_distinct entries_lookup by (metis map_of_eq_Some_iff)

lemma filter_entries_ascending:
  "wf m \<Longrightarrow> sorted_wrt (<) (map fst (filter (\<lambda>(k, _). P k) (entries m)))"
  using entries_ascending[of m] by (auto simp: sorted_wrt_map intro: sorted_wrt_filter)

lemma entries_eq_lookup_eq:
  assumes "wf m" and "wf m'" and "lookup m = lookup m'"
  shows "entries m = entries m'"
proof -
  have "set (entries m) = set (entries m')"
    using assms mem_entries_iff by auto
  moreover have "inj_on fst (set (entries m) \<union> set (entries m'))"
    using calculation entries_distinct[OF assms(1)] by (simp add: distinct_map)
  ultimately show ?thesis
    using assms entries_ascending entries_distinct
    by (intro map_sorted_distinct_set_unique[of fst]) (simp_all add: strict_sorted_iff)
qed

end

section \<open>The model meets the contract\<close>

lemma set_btree_insert_keys: "set (map fst (btree_insert k v m)) = insert k (set (map fst m))"
  by (induction k v m rule: btree_insert.induct) (simp_all add: insert_commute)

lemma btree_wf_insert: "btree_wf m \<Longrightarrow> btree_wf (btree_insert k v m)"
  unfolding btree_wf_def
  by (induction k v m rule: btree_insert.induct)
    (auto simp: set_btree_insert_keys simp del: set_map)

lemma btree_get_insert: "btree_wf m \<Longrightarrow> btree_get (btree_insert k v m) = (btree_get m)(k \<mapsto> v)"
  by (induction m) (fastforce simp: btree_wf_def btree_get_def fun_upd_twist)+

lemma btree_get_remove: "btree_get (btree_remove k m) = (btree_get m)(k := None)"
  by (induction m) (auto simp: btree_get_def btree_remove_def)

lemma btree_wf_filter: "btree_wf m \<Longrightarrow> btree_wf (filter P m)"
  by (auto simp: btree_wf_def sorted_wrt_map intro: sorted_wrt_filter)

interpretation bt: ordered_map btree_new btree_insert btree_remove btree_get "\<lambda>m. m" btree_wf
proof unfold_locales
  show "btree_wf btree_new" by (simp add: btree_wf_def btree_new_def)
  show "btree_wf (btree_insert k v m)" if "btree_wf m" for k :: 'a and v :: 'b and m
    using that by (rule btree_wf_insert)
  show "btree_wf (btree_remove k m)" if "btree_wf m" for k :: 'a and m :: "('a, 'b) btree"
    using that by (simp add: btree_remove_def btree_wf_filter)
  show "btree_get btree_new = (Map.empty :: 'a \<Rightarrow> 'b option)"
    by (simp add: btree_get_def btree_new_def)
  show "btree_get (btree_insert k v m) = (btree_get m)(k \<mapsto> v)" if "btree_wf m"
    for k :: 'a and v :: 'b and m
    using that by (rule btree_get_insert)
  show "btree_get (btree_remove k m) = (btree_get m)(k := None)" if "btree_wf m"
    for k :: 'a and m :: "('a, 'b) btree"
    by (rule btree_get_remove)
  show "map_of m = btree_get m" for m :: "('a, 'b) btree" by (simp add: btree_get_def)
  show "sorted_wrt (<) (map fst m)" if "btree_wf m" for m :: "('a, 'b) btree"
    using that by (simp add: btree_wf_def)
qed

lemma btree_range_Returns:
  "btree_range lo hi m = Returns es \<longleftrightarrow>
     \<not> inverted lo hi \<and> es = filter (\<lambda>(k, _). above lo k \<and> below hi k) m"
  by (auto simp: btree_range_def)

end
