(* ===== verification/Key_Prefix.thy ===== *)
theory Key_Prefix
  imports BTree_Map
begin

text \<open>
  \<open>Store::prefix_split\<close> and \<open>Store::prefix_and_range_of_key\<close> of \<open>src/store.rs\<close>: how a key is split
  into the prefix that selects a B-tree and the suffix inside it, and how the two ends of a client
  range become one prefix and a range of suffixes. The lemmas show when the scan of one prefix
  finds exactly the keys of the client's range.
\<close>

section \<open>Definitions\<close>

definition bytes :: "string \<Rightarrow> byte_array" where
  "bytes s = map of_char s"

text \<open>\<open>tonic::Status\<close>: the code, the format string and the byte strings formatted into it.\<close>

datatype code =
  OutOfRange | InvalidArgument | Internal | FailedPrecondition | Unavailable | NotFound
| Cancelled | Unimplemented

datatype status = Status code string "byte_array list"

abbreviation slash :: u8 where "slash \<equiv> 47"
abbreviation dot :: u8 where "dot \<equiv> 46"
abbreviation digit0 :: u8 where "digit0 \<equiv> 48"

definition registry :: byte_array where
  "registry = [47, 114, 101, 103, 105, 115, 116, 114, 121, 47]"

definition starts_with :: "'a list \<Rightarrow> 'a list \<Rightarrow> bool" where
  "starts_with xs p \<longleftrightarrow> take (length p) xs = p"

text \<open>\<open>slice::splitn\<close>: at most \<open>n\<close> segments, the last one holds the rest.\<close>

fun splitn :: "nat \<Rightarrow> ('a \<Rightarrow> bool) \<Rightarrow> 'a list \<Rightarrow> 'a list list" where
  "splitn 0 p xs = []"
| "splitn (Suc 0) p xs = [xs]"
| "splitn (Suc (Suc n)) p xs =
     (case dropWhile (\<lambda>x. \<not> p x) xs of
        [] \<Rightarrow> [xs]
      | _ # rest \<Rightarrow> takeWhile (\<lambda>x. \<not> p x) xs # splitn (Suc n) p rest)"

text \<open>\<open>segments[i].as_ptr() - key.as_ptr()\<close>: each segment before it, and its separator.\<close>

definition segment_offset :: "'a list list \<Rightarrow> nat \<Rightarrow> nat" where
  "segment_offset segs i = sum_list (map (\<lambda>s. length s + 1) (take i segs))"

definition prefix_split :: "byte_array \<Rightarrow> byte_array \<times> byte_array" where
  "prefix_split key =
     (if \<not> starts_with key registry then ([], key)
      else let segments = splitn 5 (\<lambda>v. v = slash) key in
        if length segments = 1 then ([], key)
        else let last_segment =
                   min (length segments - 1)
                     (if starts_with key registry \<and> dot \<in> set (segments ! 2) then 4 else 3);
                 prefix_end = segment_offset segments last_segment
             in (take prefix_end key, drop prefix_end key))"

definition err_prefix :: "byte_array \<Rightarrow> byte_array \<Rightarrow> status" where
  "err_prefix start_prefix end_prefix =
     Status InvalidArgument ''Keys must be in the same prefix: start: {}, end: {}''
       [start_prefix, end_prefix]"

definition prefix_and_range_of_key ::
    "byte_array \<Rightarrow> byte_array \<Rightarrow> status + (byte_array \<times> byte_array bound \<times> byte_array bound)" where
  "prefix_and_range_of_key start end =
     (let (start_prefix, start_suffix) = prefix_split start in
      if end = [] then Inr (start_prefix, Included start_suffix, Included start_suffix)
      else if length end = 1 \<and> end ! 0 = 0 then Inr (start_prefix, Included start_suffix, Unbounded)
      else let (end_prefix, end_suffix) = prefix_split end in
        if start_prefix \<noteq> end_prefix then
          (if end_suffix \<noteq> [] then
             (if (last end_suffix = digit0 \<or> last end_suffix = 0) \<and>
                 start_prefix = end_prefix @ butlast end_suffix @ [slash]
              then Inr (start_prefix, Included start_suffix, Unbounded)
              else Inl (err_prefix start_prefix end_prefix))
           else Inl (err_prefix start_prefix end_prefix))
        else if end_suffix \<noteq> [] \<and> last end_suffix = 0 \<and> butlast end_suffix = start_suffix
        then Inr (start_prefix, Included start_suffix, Unbounded)
        else Inr (start_prefix, Included start_suffix, Excluded end_suffix))"

text \<open>
  A prefix is complete when it has all the segments \<open>prefix_split\<close> looks for: the resource
  (\<open>/registry/pods/\<close>), or group and resource when the group has a period.
\<close>

definition complete_prefix :: "byte_array \<Rightarrow> bool" where
  "complete_prefix p \<longleftrightarrow>
     starts_with p registry \<and>
     (let a = takeWhile (\<lambda>v. v \<noteq> slash) (drop (length registry) p);
          r = drop (length registry + length a) p
      in if dot \<in> set a
         then r \<noteq> [] \<and> dropWhile (\<lambda>v. v \<noteq> slash) (tl r) = [slash]
         else r = [slash])"

section \<open>Splitting\<close>

lemma splitn_slash_free:
  assumes "\<forall>x\<in>set a. \<not> p x" "p c" "2 \<le> n"
  shows "splitn n p (a @ c # xs) = a # splitn (n - 1) p xs"
proof -
  obtain m where "n = Suc (Suc m)" using assms(3) by (metis add_2_eq_Suc le_Suc_ex)
  with assms show ?thesis by (simp add: dropWhile_append takeWhile_append)
qed

lemma starts_with_append [simp]: "starts_with (p @ xs) p"
  by (simp add: starts_with_def)

lemma starts_withE: "starts_with xs p \<Longrightarrow> (\<And>ys. xs = p @ ys \<Longrightarrow> P) \<Longrightarrow> P"
  by (metis append_take_drop_id starts_with_def)

lemma splitn_registry:
  "splitn 5 (\<lambda>v. v = slash) (registry @ xs) =
     [] # [114, 101, 103, 105, 115, 116, 114, 121] # splitn 3 (\<lambda>v. v = slash) xs"
  using splitn_slash_free[of "[]" "\<lambda>v. v = slash" slash 5
      "[114, 101, 103, 105, 115, 116, 114, 121] @ slash # xs"]
    splitn_slash_free[of "[114, 101, 103, 105, 115, 116, 114, 121]" "\<lambda>v. v = slash" slash 4 xs]
  by (simp add: registry_def)

lemma splitn_nonempty: "0 < n \<Longrightarrow> splitn n p xs \<noteq> []"
  by (cases "(n, p, xs)" rule: splitn.cases) (simp_all split: list.split)

lemma prefix_split_append: "fst (prefix_split key) @ snd (prefix_split key) = key"
  by (simp add: prefix_split_def Let_def)

lemma prefix_split_key: "prefix_split key = (p, s) \<Longrightarrow> key = p @ s"
  using prefix_split_append[of key] by simp

lemma prefix_split_eqI: "prefix_split k = prefix_split k' \<Longrightarrow> k = k'"
  by (metis prefix_split_append)

lemma segments_registry: "starts_with key registry \<Longrightarrow> 3 \<le> length (splitn 5 (\<lambda>v. v = slash) key)"
  using splitn_nonempty[of 3 "\<lambda>v. v = slash"]
  by (auto elim!: starts_withE simp: splitn_registry numeral_3_eq_3 Suc_le_eq)

lemma segment_offset_registry:
  "segment_offset ([] # [114, 101, 103, 105, 115, 116, 114, 121] # segs) (Suc (Suc i)) =
     length registry + segment_offset segs i"
  by (simp add: segment_offset_def registry_def)

lemma prefix_split_resource:
  assumes "slash \<notin> set a" "dot \<notin> set a"
  shows "prefix_split (registry @ a @ slash # t) = (registry @ a @ [slash], t)"
proof -
  have s: "splitn 3 (\<lambda>v. v = slash) (a @ slash # t) = a # splitn 2 (\<lambda>v. v = slash) t"
    using splitn_slash_free[of a "\<lambda>v. v = slash" slash 3 t] assms(1) by auto
  obtain seg segs where t: "splitn 2 (\<lambda>v. v = slash) t = seg # segs"
    using splitn_nonempty[of 2 "\<lambda>v. v = slash" t] by (cases "splitn 2 (\<lambda>v. v = slash) t") auto
  have "segment_offset ([] # [114, 101, 103, 105, 115, 116, 114, 121] # a # seg # segs)
      (Suc (Suc (Suc 0))) = length registry + length a + 1"
    using segment_offset_registry[of "a # seg # segs" "Suc 0"]
    by (simp add: segment_offset_def)
  then show ?thesis
    using assms(2) by (simp add: prefix_split_def splitn_registry s t Let_def)
qed

lemma prefix_split_group:
  assumes "slash \<notin> set a" "dot \<in> set a" "slash \<notin> set b"
  shows "prefix_split (registry @ a @ slash # b @ slash # t) = (registry @ a @ slash # b @ [slash], t)"
proof -
  have "splitn 3 (\<lambda>v. v = slash) (a @ slash # b @ slash # t) = a # splitn 2 (\<lambda>v. v = slash) (b @ slash # t)"
    using splitn_slash_free[of a "\<lambda>v. v = slash" slash 3 "b @ slash # t"] assms(1) by auto
  also have "splitn 2 (\<lambda>v. v = slash) (b @ slash # t) = [b, t]"
    using splitn_slash_free[of b "\<lambda>v. v = slash" slash 2 t] assms(3) by auto
  finally have s: "splitn 3 (\<lambda>v. v = slash) (a @ slash # b @ slash # t) = [a, b, t]" .
  have "segment_offset ([] # [114, 101, 103, 105, 115, 116, 114, 121] # [a, b, t])
      (Suc (Suc (Suc (Suc 0)))) = length registry + length a + 1 + length b + 1"
    using segment_offset_registry[of "[a, b, t]" "Suc (Suc 0)"]
    by (simp add: segment_offset_def)
  then show ?thesis
    using assms(2) by (simp add: prefix_split_def splitn_registry s Let_def)
qed

lemma prefix_split_other: "\<not> starts_with key registry \<Longrightarrow> prefix_split key = ([], key)"
  by (simp add: prefix_split_def)

lemma complete_prefix_cases:
  assumes "complete_prefix p"
  obtains (resource) a where "p = registry @ a @ [slash]" "slash \<notin> set a" "dot \<notin> set a"
  | (group) a b where "p = registry @ a @ slash # b @ [slash]" "slash \<notin> set a" "dot \<in> set a"
      "slash \<notin> set b"
proof -
  from assms obtain q where p: "p = registry @ q"
    by (auto simp: complete_prefix_def elim: starts_withE)
  define a r where "a = takeWhile (\<lambda>v. v \<noteq> slash) q" and "r = dropWhile (\<lambda>v. v \<noteq> slash) q"
  have q: "q = a @ r" and a: "slash \<notin> set a" by (auto simp: a_def r_def dest: set_takeWhileD)
  have dr: "drop (length registry + length a) p = r" using p q by simp
  show thesis
  proof (cases "dot \<in> set a")
    case False
    with assms dr have "r = [slash]" by (simp add: complete_prefix_def p a_def)
    with False a q show thesis by (intro resource[of a]) (simp_all add: p)
  next
    case True
    with assms dr have r: "r \<noteq> []" "dropWhile (\<lambda>v. v \<noteq> slash) (tl r) = [slash]"
      by (simp_all add: complete_prefix_def p a_def)
    then obtain r' where r': "r = slash # r'"
      by (cases r) (auto simp: r_def dropWhile_eq_Cons_conv)
    define b where "b = takeWhile (\<lambda>v. v \<noteq> slash) r'"
    have "r' = b @ [slash]" using r(2) takeWhile_dropWhile_id[of "\<lambda>v. v \<noteq> slash" r'] by (simp add: b_def r')
    moreover have "slash \<notin> set b" by (auto simp: b_def dest: set_takeWhileD)
    ultimately show thesis
      using True a q r' by (intro group[of a b]) (simp_all add: p)
  qed
qed

lemma prefix_split_complete: "complete_prefix p \<Longrightarrow> prefix_split (p @ t) = (p, t)"
  by (erule complete_prefix_cases) (simp_all add: prefix_split_resource prefix_split_group)

section \<open>Ranges\<close>

lemma append_le_append [simp]:
  fixes a b :: "'a::linorder list"
  shows "p @ a \<le> p @ b \<longleftrightarrow> a \<le> b"
  by (induction p) simp_all

lemma append_less_append [simp]:
  fixes a b :: "'a::linorder list"
  shows "p @ a < p @ b \<longleftrightarrow> a < b"
  by (induction p) simp_all

lemma between_append:
  fixes k :: "'a::linorder list"
  assumes "p @ a \<le> k" "k < p @ b"
  obtains s where "k = p @ s" "a \<le> s" "s < b"
proof -
  have "\<exists>s. k = p @ s \<and> a \<le> s \<and> s < b"
    using assms
  proof (induction p arbitrary: k)
    case Nil
    then show ?case by simp
  next
    case (Cons x p)
    then obtain y k' where k: "k = y # k'" by (cases k) auto
    with Cons.prems have "y = x" "p @ a \<le> k'" "k' < p @ b" by auto
    with Cons.IH[of k'] k show ?case by auto
  qed
  with that show thesis by blast
qed

lemma between_append_iff:
  fixes k :: "'a::linorder list"
  shows "(\<exists>s. k = p @ s \<and> a \<le> s \<and> s < b) \<longleftrightarrow> p @ a \<le> k \<and> k < p @ b"
  by (rule iffI, force, metis between_append)

lemma between_slash_zero:
  fixes s :: byte_array
  assumes "slash # a \<le> s" "s < [digit0]"
  obtains t where "s = slash # t" "a \<le> t"
proof -
  obtain c t where s: "s = c # t" using assms(1) by (cases s) auto
  with assms have "slash \<le> c" "c < digit0" by auto
  then have "c = slash" by unat_arith
  with s assms(1) show thesis by (intro that[of t]) simp_all
qed

lemma range_of_key_prefix:
  assumes "prefix_and_range_of_key start end = Inr (p, lo, hi)"
  shows "prefix_split start = (p, snd (prefix_split start))" "lo = Included (snd (prefix_split start))"
proof -
  obtain p' ss ep es where "prefix_split start = (p', ss)" "prefix_split end = (ep, es)" by fastforce
  with assms have "p' = p \<and> lo = Included ss"
    unfolding prefix_and_range_of_key_def by (simp split: if_split_asm)
  with \<open>prefix_split start = (p', ss)\<close>
  show "prefix_split start = (p, snd (prefix_split start))" "lo = Included (snd (prefix_split start))"
    by simp_all
qed

text \<open>
  The scan of one prefix is exact: for a complete prefix, and an end that does not use one of the
  NUL conventions, a key lies in the B-tree range that \<open>prefix_and_range_of_key\<close> selects just when
  it lies between the client's two ends.
\<close>

lemma range_of_key_exact:
  assumes "prefix_and_range_of_key start end = Inr (p, lo, hi)" "complete_prefix p"
    "end \<noteq> []" "last end \<noteq> 0"
  shows "(\<exists>s. prefix_split k = (p, s) \<and> above lo s \<and> below hi s) \<longleftrightarrow> start \<le> k \<and> k < end"
proof -
  obtain ss where ps: "prefix_split start = (p, ss)"
    using range_of_key_prefix(1)[OF assms(1)] by blast
  obtain ep es where pe: "prefix_split end = (ep, es)" by fastforce
  have start: "start = p @ ss" and ende: "end = ep @ es" using ps pe prefix_split_key by auto
  have in_p: "prefix_split k = (p, s) \<longleftrightarrow> k = p @ s" for s
    using prefix_split_complete[OF assms(2)] prefix_split_key by auto
  have nul: "\<not> (length end = 1 \<and> end ! 0 = 0)" "es \<noteq> [] \<Longrightarrow> last es \<noteq> 0"
    using last_conv_nth[OF assms(3)] assms(4) by (auto simp: ende)
  have range: "prefix_and_range_of_key start end = (if p \<noteq> ep then
        (if es \<noteq> [] then
          (if (last es = digit0 \<or> last es = 0) \<and> p = ep @ butlast es @ [slash]
           then Inr (p, Included ss, Unbounded) else Inl (err_prefix p ep))
         else Inl (err_prefix p ep))
      else Inr (p, Included ss, Excluded es))"
    by (cases "es = []"; simp add: prefix_and_range_of_key_def ps pe assms(3) nul del: One_nat_def)
  note range = range[unfolded assms(1), symmetric]
  show ?thesis
  proof (cases "p = ep")
    case True
    then have "lo = Included ss" "hi = Excluded es"
      using range by simp_all
    with True show ?thesis
      unfolding in_p start ende by (simp add: between_append_iff)
  next
    case False
    then have es: "es \<noteq> []" "last es = digit0" and p: "p = ep @ butlast es @ [slash]"
      and b: "lo = Included ss" "hi = Unbounded"
      using range nul(2) by (auto split: if_splits)
    have e: "end = (ep @ butlast es) @ [digit0]" using es ende by (metis append.assoc append_butlast_last_id)
    have "\<exists>s. k = p @ s \<and> ss \<le> s" if "start \<le> k" "k < end"
    proof -
      from that obtain s where s: "k = (ep @ butlast es) @ s" "slash # ss \<le> s" "s < [digit0]"
        using between_append[of "ep @ butlast es" "slash # ss" k "[digit0]"] start p e by auto
      with between_slash_zero[of ss s] p show ?thesis by auto
    qed
    moreover have "p @ s < end" for s by (simp add: e p)
    ultimately show ?thesis unfolding in_p b start by auto
  qed
qed

lemma range_of_key_single:
  assumes "prefix_and_range_of_key start [] = Inr (p, lo, hi)"
  shows "(\<exists>s. prefix_split k = (p, s) \<and> above lo s \<and> below hi s) \<longleftrightarrow> k = start"
  using assms prefix_split_key
  by (auto simp: prefix_and_range_of_key_def Let_def split: prod.splits intro: prefix_split_eqI)

section \<open>Properties\<close>

text \<open>
  Splitting a key loses nothing: the two parts concatenate to the key, so two keys with the same
  parts are the same key; and a complete prefix owns every key that begins with it, so all keys of
  a resource live in one B-tree.
\<close>

lemma prefix_split_partition:
  "fst (prefix_split k) @ snd (prefix_split k) = k \<and>
   (prefix_split k = prefix_split k' \<longleftrightarrow> k = k') \<and>
   (complete_prefix p \<longrightarrow> (prefix_split k = (p, t) \<longleftrightarrow> k = p @ t))"
  using prefix_split_append[of k] prefix_split_eqI[of k k'] prefix_split_complete[of p t]
    prefix_split_key[of k p t] by auto

lemma prefix_split_partition_witness:
  "complete_prefix (bytes ''/registry/apps.k8s.io/deployments/'') \<and>
   prefix_split (bytes ''/registry/apps.k8s.io/deployments/default/web'') =
     (bytes ''/registry/apps.k8s.io/deployments/'', bytes ''default/web'')"
proof -
  have "complete_prefix (bytes ''/registry/apps.k8s.io/deployments/'')"
    "bytes ''/registry/apps.k8s.io/deployments/default/web'' =
       bytes ''/registry/apps.k8s.io/deployments/'' @ bytes ''default/web''" by code_simp+
  with prefix_split_partition[of "bytes ''/registry/apps.k8s.io/deployments/default/web''"
      "[]" "bytes ''/registry/apps.k8s.io/deployments/''" "bytes ''default/web''"]
  show ?thesis by simp
qed

text \<open>
  Scanning one B-tree is enough. When the prefix is complete and the end of the range does not
  use a NUL convention, the keys selected by the prefix and the suffix bounds are exactly those
  from \<open>start\<close> on and before \<open>end\<close>, in every B-tree.
\<close>

lemma range_of_key_selects:
  assumes "prefix_and_range_of_key start end = Inr (p, lo, hi)" "complete_prefix p"
    "end \<noteq> []" "last end \<noteq> 0"
  shows "(fst (prefix_split k) = p \<and> above lo (snd (prefix_split k)) \<and> below hi (snd (prefix_split k)))
    \<longleftrightarrow> start \<le> k \<and> k < end"
  using range_of_key_exact[OF assms, of k] by (cases "prefix_split k") auto

lemma range_of_key_selects_witness:
  "below (Unbounded :: byte_array bound) (bytes ''kube-system/dns'') \<and>
   bytes ''/registry/pods/'' \<le> bytes ''/registry/pods/kube-system/dns'' \<and>
   bytes ''/registry/pods/kube-system/dns'' < bytes ''/registry/pods0''"
proof -
  have pr: "prefix_and_range_of_key (bytes ''/registry/pods/'') (bytes ''/registry/pods0'') =
      Inr (bytes ''/registry/pods/'', Included [], Unbounded)"
    "complete_prefix (bytes ''/registry/pods/'')" "bytes ''/registry/pods0'' \<noteq> []"
    "last (bytes ''/registry/pods0'') \<noteq> 0" by code_simp+
  have "prefix_split (bytes ''/registry/pods/kube-system/dns'') = (bytes ''/registry/pods/'', bytes ''kube-system/dns'')"
    by code_simp
  with range_of_key_selects[OF pr, of "bytes ''/registry/pods/kube-system/dns''"] show ?thesis by simp
qed

end
