(* ===== verification/Block_Deque.thy ===== *)
theory Block_Deque
  imports Etcd_Prelude
begin

text \<open>
  \<open>src/block_deque.rs\<close>: the append-only array of fixed-size blocks that holds the value of every
  revision. The const generic \<open>BLOCK_SIZE\<close> is the field \<open>block_size\<close>. \<open>bd_push\<close> is composed of its
  two critical sections, \<open>push_read\<close> (under the read lock) and \<open>push_write\<close> (under the write lock,
  when a new block is needed). Indexing out of range and \<open>Vec::remove\<close> on an empty vector are
  \<open>Panics\<close>. The deque refines a list with an offset (\<open>bd_repr\<close>), and meets the contract
  \<open>revision_log\<close> on which the store's proofs rest.
\<close>

section \<open>The structure\<close>

record 'a block_deque =
  block_size :: usize
  blocks :: "'a option list list"
  start_offset :: usize
  deque_length :: usize

definition bd_new :: "usize \<Rightarrow> 'a block_deque" where
  "bd_new bs = \<lparr>block_size = bs, blocks = [], start_offset = 0, deque_length = 0\<rparr>"

definition bd_len :: "'a block_deque \<Rightarrow> usize" where
  "bd_len d = deque_length d"

definition earliest_revision :: "'a block_deque \<Rightarrow> usize" where
  "earliest_revision d = start_offset d"

definition latest_revision :: "'a block_deque \<Rightarrow> usize" where
  "latest_revision d = deque_length d + start_offset d"

definition block_index :: "'a block_deque \<Rightarrow> usize \<Rightarrow> usize" where
  "block_index d index = index div block_size d - start_offset d div block_size d"

text \<open>\<open>blocks[i][j] = v\<close> and \<open>blocks[i][j]\<close>, with the bounds checks of Rust's indexing.\<close>

definition slot_write :: "'a list list \<Rightarrow> usize \<Rightarrow> usize \<Rightarrow> 'a \<Rightarrow> 'a list list run" where
  "slot_write bss i j v =
     (if i < length bss \<and> j < length (bss ! i) then Returns (bss[i := (bss ! i)[j := v]])
      else Panics)"

definition slot_read :: "'a list list \<Rightarrow> usize \<Rightarrow> usize \<Rightarrow> 'a run" where
  "slot_read bss i j =
     (if i < length bss \<and> j < length (bss ! i) then Returns (bss ! i ! j) else Panics)"

section \<open>Operations\<close>

definition push_read :: "'a block_deque \<Rightarrow> 'a \<Rightarrow> (usize \<times> bool \<times> 'a block_deque) run" where
  "push_read d v =
     (let index = deque_length d + start_offset d;
          d1 = d\<lparr>deque_length := deque_length d + 1\<rparr>;
          bi = block_index d index;
          offset = index mod block_size d
      in if bi < length (blocks d)
         then bind_run (slot_write (blocks d) bi offset (Some v))
                (\<lambda>bss. Returns (index, True, d1\<lparr>blocks := bss\<rparr>))
         else Returns (index, False, d1))"

function grow_blocks :: "usize \<Rightarrow> usize \<Rightarrow> 'a option list list \<Rightarrow> 'a option list list" where
  "grow_blocks bs bi bss =
     (if length bss \<le> bi then grow_blocks bs bi (bss @ [replicate bs None]) else bss)"
  by pat_completeness auto
termination
  by (relation "measure (\<lambda>(bs, bi, bss). Suc bi - length bss)") auto

declare grow_blocks.simps [simp del]

text \<open>
  The second section computes its block anew. If the blocks up to its index were removed meanwhile the
  subtraction of \<open>usize\<close> overflows. With overflow checks that is a panic; without them the result
  wraps to an index that no number of blocks reaches, and the loop allocates until memory is used up.
  Both are \<open>Panics\<close> here.
\<close>

definition push_write :: "'a block_deque \<Rightarrow> usize \<Rightarrow> 'a \<Rightarrow> 'a block_deque run" where
  "push_write d index v =
     (if index div block_size d < start_offset d div block_size d then Panics
      else let bi = block_index d index;
               bss = grow_blocks (block_size d) bi (blocks d)
           in bind_run (slot_write bss bi (index mod block_size d) (Some v))
                (\<lambda>bss'. Returns (d\<lparr>blocks := bss'\<rparr>)))"

definition bd_push :: "'a block_deque \<Rightarrow> 'a \<Rightarrow> (usize \<times> 'a block_deque) run" where
  "bd_push d v =
     bind_run (push_read d v)
       (\<lambda>(index, placed, d1).
          if placed then Returns (index, d1)
          else bind_run (push_write d1 index v) (\<lambda>d2. Returns (index, d2)))"

definition bd_set :: "'a block_deque \<Rightarrow> usize \<Rightarrow> 'a \<Rightarrow> (bool \<times> 'a block_deque) run" where
  "bd_set d index v =
     (if deque_length d + start_offset d \<le> index then Returns (False, d)
      else if index < start_offset d then Returns (False, d)
      else bind_run (slot_write (blocks d) (block_index d index) (index mod block_size d) (Some v))
             (\<lambda>bss. Returns (True, d\<lparr>blocks := bss\<rparr>)))"

definition bd_get_with :: "'a block_deque \<Rightarrow> usize \<Rightarrow> ('a option \<Rightarrow> 'r) \<Rightarrow> 'r run" where
  "bd_get_with d index f =
     (if deque_length d + start_offset d \<le> index then Returns (f None)
      else if index < start_offset d then Returns (f None)
      else bind_run (slot_read (blocks d) (block_index d index) (index mod block_size d))
             (\<lambda>x. Returns (f x)))"

text \<open>\<open>Result<T, ()>\<close> is an option: \<open>None\<close> is \<open>Err(())\<close>.\<close>

definition bd_get :: "'a block_deque \<Rightarrow> usize \<Rightarrow> 'a option run" where
  "bd_get d index = bd_get_with d index (\<lambda>x. x)"

text \<open>The loop of \<open>remove_before\<close>: \<open>blocks_write.remove(0)\<close> while the distance spans a block.\<close>

fun drop_blocks :: "usize \<Rightarrow> 'a list \<Rightarrow> usize \<Rightarrow> usize \<Rightarrow> ('a list \<times> usize \<times> usize) run" where
  "drop_blocks bs [] i so = (if bs \<le> i then Panics else Returns ([], i, so))"
| "drop_blocks bs (b # bss) i so =
     (if bs \<le> i then drop_blocks bs bss (i - bs) 0 else Returns (b # bss, i, so))"

definition fill_none :: "usize \<Rightarrow> usize \<Rightarrow> 'a option list \<Rightarrow> 'a option list run" where
  "fill_none lo hi b =
     (if lo \<le> hi \<and> hi \<le> length b then Returns (take lo b @ replicate (hi - lo) None @ drop hi b)
      else Panics)"

fun clear_first :: "usize \<Rightarrow> usize \<Rightarrow> 'a option list list \<Rightarrow> 'a option list list run" where
  "clear_first lo hi [] = Panics"
| "clear_first lo hi (b # bss) = bind_run (fill_none lo hi b) (\<lambda>b'. Returns (b' # bss))"

definition bd_remove_before :: "'a block_deque \<Rightarrow> usize \<Rightarrow> ((unit + unit) \<times> 'a block_deque) run" where
  "bd_remove_before d idx =
     (let so = start_offset d in
      if so + deque_length d < idx then Returns (Inl (), d)
      else if idx < so then Returns (Inl (), d)
      else bind_run
             (drop_blocks (block_size d) (blocks d) (idx - (so - so mod block_size d)) so)
             (\<lambda>(bss, i, so').
                bind_run (if 0 < i then clear_first (so' mod block_size d) i bss else Returns bss)
                  (\<lambda>bss'. Returns (Inr (),
                     d\<lparr>blocks := bss', start_offset := idx,
                       deque_length := deque_length d - (idx - so)\<rparr>))))"

definition bd_clear :: "'a block_deque \<Rightarrow> 'a block_deque" where
  "bd_clear d = d\<lparr>blocks := [], start_offset := 0, deque_length := 0\<rparr>"

section \<open>Abstraction: a list of values behind an offset\<close>

definition slack :: "'a block_deque \<Rightarrow> nat" where
  "slack d = length (concat (blocks d)) - (start_offset d mod block_size d + deque_length d)"

definition bd_repr :: "'a block_deque \<Rightarrow> 'a list \<Rightarrow> bool" where
  "bd_repr d vs \<longleftrightarrow>
     0 < block_size d \<and> uniform (block_size d) (blocks d) \<and> deque_length d = length vs \<and>
     slack d < block_size d \<and>
     concat (blocks d) =
       replicate (start_offset d mod block_size d) None @ map Some vs @ replicate (slack d) None"

definition bd_values :: "'a block_deque \<Rightarrow> 'a list" where
  "bd_values d =
     map the (take (deque_length d)
       (drop (start_offset d mod block_size d) (concat (blocks d))))"

definition bd_invar :: "'a block_deque \<Rightarrow> bool" where
  "bd_invar d \<longleftrightarrow> bd_repr d (bd_values d)"

lemma bd_repr_values: "bd_repr d vs \<Longrightarrow> bd_values d = vs"
  by (simp add: bd_repr_def bd_values_def map_idI)

lemma bd_repr_iff: "bd_repr d vs \<longleftrightarrow> bd_invar d \<and> bd_values d = vs"
  using bd_repr_values by (auto simp: bd_invar_def)

lemma bd_reprI:
  assumes "0 < block_size d" "uniform (block_size d) (blocks d)" "deque_length d = length vs"
    "concat (blocks d) = replicate (start_offset d mod block_size d) None @ map Some vs @ replicate k None"
    "k < block_size d"
  shows "bd_repr d vs"
proof -
  have "slack d = k" using assms(3,4) by (simp add: slack_def)
  with assms show ?thesis by (simp add: bd_repr_def)
qed

section \<open>Where a slot lies\<close>

lemma block_index_eq:
  assumes "0 < block_size d" "start_offset d \<le> i"
  shows "block_index d i = (start_offset d mod block_size d + (i - start_offset d)) div block_size d"
    and "i mod block_size d =
      (start_offset d mod block_size d + (i - start_offset d)) mod block_size d"
proof -
  define q s j where "q = start_offset d div block_size d"
    and "s = start_offset d mod block_size d" and "j = i - start_offset d"
  have i: "i = q * block_size d + (s + j)"
    using assms(2) by (simp add: q_def s_def j_def)
  have "i div block_size d = q + (s + j) div block_size d"
    unfolding i using assms(1) by simp
  then show "block_index d i = (start_offset d mod block_size d + (i - start_offset d)) div block_size d"
    by (simp add: block_index_def q_def s_def j_def)
  show "i mod block_size d = (start_offset d mod block_size d + (i - start_offset d)) mod block_size d"
    using i by (metis mod_mult_self3 s_def j_def)
qed

lemma slot_in_blocks:
  assumes "0 < n" "uniform n bss" "p < length (concat bss)"
  shows "p div n < length bss" "p mod n < length (bss ! (p div n))"
    "bss ! (p div n) ! (p mod n) = concat bss ! p"
proof -
  show "p div n < length bss"
    using assms by (simp add: length_concat_uniform less_mult_imp_div_less)
  then show "p mod n < length (bss ! (p div n))"
    using assms(1,2) by (auto simp: uniform_def)
  show "bss ! (p div n) ! (p mod n) = concat bss ! p"
    using nth_concat_uniform[OF assms(2) \<open>p div n < length bss\<close>, of "p mod n"] assms(1) by simp
qed

lemma slot_write_flat:
  assumes "0 < n" "uniform n bss" "p < length (concat bss)"
  obtains bss' where "slot_write bss (p div n) (p mod n) v = Returns bss'"
    "uniform n bss'" "concat bss' = (concat bss)[p := v]"
proof
  note slot = slot_in_blocks[OF assms]
  show "slot_write bss (p div n) (p mod n) v =
      Returns (bss[p div n := (bss ! (p div n))[p mod n := v]])"
    using slot by (simp add: slot_write_def)
  have "length (bss ! (p div n)) = n"
    using slot(1) assms(2) by (auto simp: uniform_def)
  then show "uniform n (bss[p div n := (bss ! (p div n))[p mod n := v]])"
    using slot(1) assms(2) by (intro uniform_update) auto
  show "concat (bss[p div n := (bss ! (p div n))[p mod n := v]]) = (concat bss)[p := v]"
    using concat_update_uniform[OF assms(2) slot(1), of "p mod n" v] assms(1) by simp
qed

section \<open>Each operation refines the list operation\<close>

lemma bd_repr_new: "0 < bs \<Longrightarrow> bd_repr (bd_new bs) []"
  by (rule bd_reprI[where k = 0]) (simp_all add: bd_new_def)

lemma bd_repr_clear: "bd_repr d vs \<Longrightarrow> bd_repr (bd_clear d) []"
  by (rule bd_reprI[where k = 0]) (simp_all add: bd_clear_def bd_repr_def)

lemma bd_repr_latest: "bd_repr d vs \<Longrightarrow> latest_revision d = earliest_revision d + length vs"
  by (simp add: bd_repr_def latest_revision_def earliest_revision_def)

lemma bd_repr_slot:
  assumes "bd_repr d vs" "j < length vs"
  defines "p \<equiv> start_offset d mod block_size d + j"
  shows "block_index d (start_offset d + j) = p div block_size d"
    "(start_offset d + j) mod block_size d = p mod block_size d"
    "p < length (concat (blocks d))" "concat (blocks d) ! p = Some (vs ! j)"
proof -
  have "0 < block_size d" using assms(1) by (simp add: bd_repr_def)
  from block_index_eq[OF this, of "start_offset d + j"]
  show "block_index d (start_offset d + j) = p div block_size d"
    "(start_offset d + j) mod block_size d = p mod block_size d"
    by (simp_all add: p_def)
  show "p < length (concat (blocks d))"
    using assms by (simp add: bd_repr_def p_def)
  show "concat (blocks d) ! p = Some (vs ! j)"
    using assms by (simp add: bd_repr_def p_def nth_append)
qed

lemma bd_get_with_slot:
  assumes "bd_repr d vs" "j < length vs"
  shows "bd_get_with d (start_offset d + j) f = Returns (f (Some (vs ! j)))"
proof -
  note slot = bd_repr_slot[OF assms]
  have "0 < block_size d" "uniform (block_size d) (blocks d)" "deque_length d = length vs"
    using assms(1) by (simp_all add: bd_repr_def)
  with slot slot_in_blocks[OF this(1,2) slot(3)] assms(2) show ?thesis
    by (simp add: bd_get_with_def slot_read_def)
qed

lemma bd_get_with_refines:
  assumes "bd_repr d vs"
  shows "bd_get_with d i f =
    Returns (f (if start_offset d \<le> i \<and> i < start_offset d + length vs
                then Some (vs ! (i - start_offset d)) else None))"
proof (cases "start_offset d \<le> i \<and> i < start_offset d + length vs")
  case True
  then have "i - start_offset d < length vs" by linarith
  with True bd_get_with_slot[OF assms this, of f] show ?thesis by simp
next
  case False
  with assms show ?thesis by (auto simp: bd_get_with_def bd_repr_def)
qed

lemma bd_set_refines:
  assumes r: "bd_repr d vs" and j: "j < length vs"
  obtains d' where "bd_set d (start_offset d + j) v = Returns (True, d')" "bd_repr d' (vs[j := v])"
    "start_offset d' = start_offset d"
proof -
  note slot = bd_repr_slot[OF r j]
  have wf: "0 < block_size d" "uniform (block_size d) (blocks d)" "deque_length d = length vs"
    and flat: "concat (blocks d) = replicate (start_offset d mod block_size d) None
        @ map Some vs @ replicate (slack d) None" and sl: "slack d < block_size d"
    using r by (simp_all add: bd_repr_def)
  obtain bss' where w: "slot_write (blocks d) (block_index d (start_offset d + j))
      ((start_offset d + j) mod block_size d) (Some v) = Returns bss'"
    "uniform (block_size d) bss'"
    "concat bss' = (concat (blocks d))[start_offset d mod block_size d + j := Some v]"
    using slot_write_flat[OF wf(1,2) slot(3), where v = "Some v"] unfolding slot(1,2) by blast
  have "bd_repr (d\<lparr>blocks := bss'\<rparr>) (vs[j := v])"
    by (rule bd_reprI[where k = "slack d"])
      (use w wf sl j in \<open>simp_all add: flat list_update_append map_update\<close>)
  with w(1) j wf(3) that[of "d\<lparr>blocks := bss'\<rparr>"] show thesis
    by (simp add: bd_set_def)
qed

lemma bd_set_out_of_range:
  assumes "bd_repr d vs" "i < start_offset d \<or> start_offset d + length vs \<le> i"
  shows "bd_set d i v = Returns (False, d)"
  using assms by (auto simp: bd_set_def bd_repr_def)

lemma grow_blocks_one: "grow_blocks bs (length bss) bss = bss @ [replicate bs None]"
  by (simp add: grow_blocks.simps[of bs "length bss" bss]
      grow_blocks.simps[of bs "length bss" "bss @ [replicate bs None]"])

lemma grow_blocks_id: "bi < length bss \<Longrightarrow> grow_blocks bs bi bss = bss"
  by (simp add: grow_blocks.simps)

lemma push_write_ahead:
  "start_offset d \<le> index \<Longrightarrow> push_write d index v =
     bind_run (slot_write (grow_blocks (block_size d) (block_index d index) (blocks d)) (block_index d index)
         (index mod block_size d) (Some v))
       (\<lambda>bss'. Returns (d\<lparr>blocks := bss'\<rparr>))"
  using div_le_mono[of "start_offset d" index "block_size d"] by (auto simp: push_write_def Let_def)

lemma push_slot:
  assumes "bd_repr d vs"
  shows "block_index d (start_offset d + length vs) =
      (start_offset d mod block_size d + length vs) div block_size d"
    and "(start_offset d + length vs) mod block_size d =
      (start_offset d mod block_size d + length vs) mod block_size d"
  using block_index_eq[of d "start_offset d + length vs"] assms by (simp_all add: bd_repr_def)

lemma bd_push_in_block:
  assumes r: "bd_repr d vs" and "0 < slack d"
  obtains d' where "push_read d v = Returns (start_offset d + length vs, True, d')"
    "bd_repr d' (vs @ [v])" "start_offset d' = start_offset d"
proof -
  have wf: "0 < block_size d" "uniform (block_size d) (blocks d)" "deque_length d = length vs"
    and flat: "concat (blocks d) = replicate (start_offset d mod block_size d) None
        @ map Some vs @ replicate (slack d) None" and sl: "slack d < block_size d"
    using r by (simp_all add: bd_repr_def)
  let ?p = "start_offset d mod block_size d + length vs"
  have p: "?p < length (concat (blocks d))" using \<open>0 < slack d\<close> by (simp add: flat)
  obtain bss' where w: "slot_write (blocks d) (?p div block_size d) (?p mod block_size d) (Some v) = Returns bss'"
    "uniform (block_size d) bss'" "concat bss' = (concat (blocks d))[?p := Some v]"
    using slot_write_flat[OF wf(1,2) p] by blast
  let ?d = "d\<lparr>deque_length := length vs + 1, blocks := bss'\<rparr>"
  have "bd_repr ?d (vs @ [v])"
  proof (rule bd_reprI[where k = "slack d - 1"])
    show "concat (blocks ?d) = replicate (start_offset ?d mod block_size ?d) None
        @ map Some (vs @ [v]) @ replicate (slack d - 1) None"
      using w(3) \<open>0 < slack d\<close> by (cases "slack d") (simp_all add: flat list_update_append)
  qed (use w wf sl in simp_all)
  moreover have "push_read d v = Returns (start_offset d + length vs, True, ?d)"
    using w(1) wf(3) slot_in_blocks(1)[OF wf(1,2) p] push_slot[OF r]
    by (simp add: push_read_def add.commute)
  ultimately show thesis using that[of ?d] by simp
qed

lemma bd_push_new_block:
  assumes r: "bd_repr d vs" and "slack d = 0"
  defines "d1 \<equiv> d\<lparr>deque_length := length vs + 1\<rparr>"
  obtains d' where "push_read d v = Returns (start_offset d + length vs, False, d1)"
    "push_write d1 (start_offset d + length vs) v = Returns d'"
    "bd_repr d' (vs @ [v])" "start_offset d' = start_offset d"
proof -
  have wf: "0 < block_size d" "uniform (block_size d) (blocks d)" "deque_length d = length vs"
    and flat: "concat (blocks d) = replicate (start_offset d mod block_size d) None @ map Some vs"
    using r \<open>slack d = 0\<close> by (simp_all add: bd_repr_def)
  let ?p = "start_offset d mod block_size d + length vs"
  let ?bss = "blocks d @ [replicate (block_size d) None]"
  have "?p = length (blocks d) * block_size d"
    using length_concat_uniform[OF wf(2)] by (simp add: flat)
  then have pd: "?p div block_size d = length (blocks d)" using wf(1) by simp
  have u: "uniform (block_size d) ?bss" and pf: "?p < length (concat ?bss)"
    using wf by (simp_all add: flat)
  obtain bss' where w: "slot_write ?bss (?p div block_size d) (?p mod block_size d) (Some v) = Returns bss'"
    "uniform (block_size d) bss'" "concat bss' = (concat ?bss)[?p := Some v]"
    using slot_write_flat[OF wf(1) u pf] by blast
  let ?d = "d1\<lparr>blocks := bss'\<rparr>"
  have "push_read d v = Returns (start_offset d + length vs, False, d1)"
    using wf(3) push_slot(1)[OF r] pd by (simp add: push_read_def d1_def add.commute)
  moreover have "push_write d1 (start_offset d + length vs) v = Returns ?d"
    using w(1) push_slot[OF r] pd grow_blocks_one[of "block_size d" "blocks d"]
    by (simp add: push_write_ahead d1_def block_index_def)
  moreover have "bd_repr ?d (vs @ [v])"
  proof (rule bd_reprI[where k = "block_size d - 1"])
    show "concat (blocks ?d) = replicate (start_offset ?d mod block_size ?d) None
        @ map Some (vs @ [v]) @ replicate (block_size d - 1) None"
      using w(3) wf(1) by (cases "block_size d") (simp_all add: d1_def flat list_update_append)
  qed (use w wf in \<open>simp_all add: d1_def\<close>)
  ultimately show thesis using that[of ?d] by (simp add: d1_def)
qed

lemma bd_push_refines:
  assumes "bd_repr d vs"
  obtains d' where "bd_push d v = Returns (start_offset d + length vs, d')"
    "bd_repr d' (vs @ [v])" "start_offset d' = start_offset d"
proof (cases "slack d = 0")
  case True
  obtain d' where "push_read d v = Returns (start_offset d + length vs, False, d\<lparr>deque_length := length vs + 1\<rparr>)"
    "push_write (d\<lparr>deque_length := length vs + 1\<rparr>) (start_offset d + length vs) v = Returns d'"
    "bd_repr d' (vs @ [v])" "start_offset d' = start_offset d"
    by (rule bd_push_new_block[OF assms True])
  with that[of d'] show thesis by (simp add: bd_push_def)
next
  case False
  then obtain d' where "push_read d v = Returns (start_offset d + length vs, True, d')"
    "bd_repr d' (vs @ [v])" "start_offset d' = start_offset d"
    using bd_push_in_block[OF assms] by blast
  with that[of d'] show thesis by (simp add: bd_push_def)
qed

section \<open>Dropping compacted values\<close>

lemma drop_blocks_Returns:
  assumes "0 < bs" "i div bs \<le> length bss"
  shows "drop_blocks bs bss i so =
    Returns (drop (i div bs) bss, i mod bs, if i < bs then so else 0)"
  using assms(2)
proof (induction bss arbitrary: i so)
  case Nil
  with assms(1) show ?case by (simp add: div_eq_0_iff)
next
  case (Cons b bss)
  show ?case
  proof (cases "bs \<le> i")
    case True
    with assms(1) have "i div bs = Suc ((i - bs) div bs)" "i mod bs = (i - bs) mod bs"
      by (simp_all add: le_div_geq le_mod_geq)
    with Cons True show ?thesis by simp
  next
    case False
    then show ?thesis by simp
  qed
qed

lemma drop_blocks_Panics:
  assumes "0 < bs" "length bss < i div bs"
  shows "drop_blocks bs bss i so = Panics"
  using assms(2)
proof (induction bss arbitrary: i so)
  case Nil
  with assms(1) show ?case by (auto simp: div_greater_zero_iff)
next
  case (Cons b bss)
  then have "bs \<le> i" using div_greater_zero_iff[of i bs] by simp
  with assms(1) Cons show ?case by (simp add: le_div_geq)
qed

lemma clear_first_flat:
  assumes "0 < n" "uniform n bss" "lo \<le> hi" "hi < n" "hi < length (concat bss) \<or> 0 < hi \<and> hi \<le> length (concat bss)"
    "take lo (concat bss) = replicate lo None"
  obtains bss' where "clear_first lo hi bss = Returns bss'" "uniform n bss'"
    "concat bss' = replicate hi None @ drop hi (concat bss)"
proof -
  obtain b rest where bss: "bss = b # rest"
    using assms(5) by (cases bss) auto
  with assms have len: "length b = n" by simp
  let ?b = "take lo b @ replicate (hi - lo) None @ drop hi b"
  have "take lo b = replicate lo None" using assms(3,4,6) len by (simp add: bss)
  then have b: "?b = replicate hi None @ drop hi b"
    using assms(3) by (metis append.assoc le_add_diff_inverse replicate_add)
  show thesis
  proof (rule that[of "?b # rest"])
    show "clear_first lo hi bss = Returns (?b # rest)"
      using assms(3,4) len by (simp add: bss fill_none_def)
    show "uniform n (?b # rest)" using assms(2,3,4) len by (simp add: bss)
    show "concat (?b # rest) = replicate hi None @ drop hi (concat bss)"
      using assms(4) len b by (simp add: bss)
  qed
qed

text \<open>Removing \<open>j\<close> values when the blocks reach that far: the cells before the new offset are empty.\<close>

lemma bd_remove_before_flat:
  fixes d :: "'a block_deque"
  assumes wf: "0 < block_size d" "uniform (block_size d) (blocks d)" and j: "j \<le> deque_length d"
    and i: "start_offset d mod block_size d + j \<le> length (concat (blocks d))"
    and empty: "take (start_offset d mod block_size d) (concat (blocks d)) = replicate (start_offset d mod block_size d) None"
  obtains bss where "bd_remove_before d (start_offset d + j) =
      Returns (Inr (), d\<lparr>blocks := bss, start_offset := start_offset d + j, deque_length := deque_length d - j\<rparr>)"
    "uniform (block_size d) bss"
    "concat bss = replicate ((start_offset d + j) mod block_size d) None @
       drop (start_offset d mod block_size d + j) (concat (blocks d))"
proof -
  define n s i where "n = block_size d" and "s = start_offset d mod n" and "i = s + j"
  let ?bss = "drop (i div n) (blocks d)" and ?so = "if i < n then start_offset d else 0"
  have dist: "start_offset d + j - (start_offset d - start_offset d mod block_size d) = i"
    using mod_less_eq_dividend[of "start_offset d" n] by (simp add: i_def s_def n_def)
  have mod: "(start_offset d + j) mod n = i mod n" by (simp add: i_def s_def mod_add_left_eq)
  have il: "i \<le> length (concat (blocks d))" using i by (simp add: i_def s_def n_def)
  then have "i \<le> length (blocks d) * n" using length_concat_uniform[OF wf(2)] by (simp add: n_def)
  then have dl: "i div n \<le> length (blocks d)"
    using wf(1) div_le_mono[of i "length (blocks d) * n" n] by (simp add: n_def)
  have u: "uniform n ?bss" using wf(2) by (simp add: n_def uniform_drop)
  have cc: "concat ?bss = drop (i - i mod n) (concat (blocks d))"
    using drop_concat_uniform[OF wf(2), of "i div n"] by (simp add: n_def minus_mod_eq_div_mult)
  have lo: "take (?so mod n) (concat ?bss) = replicate (?so mod n) None" "?so mod n \<le> i mod n"
    using empty by (auto simp: cc i_def s_def n_def)
  obtain bss where c: "(if 0 < i mod n then clear_first (?so mod n) (i mod n) ?bss else Returns ?bss) = Returns bss"
    "uniform n bss" "concat bss = replicate (i mod n) None @ drop (i mod n) (concat ?bss)"
  proof (cases "0 < i mod n")
    case True
    have "i mod n \<le> length (concat ?bss)" using il by (simp add: cc)
    with True lo u wf(1) clear_first_flat[of n ?bss "?so mod n" "i mod n"] that show thesis
      by (auto simp: n_def)
  qed (use u that in simp)
  have "bd_remove_before d (start_offset d + j) =
      Returns (Inr (), d\<lparr>blocks := bss, start_offset := start_offset d + j, deque_length := deque_length d - j\<rparr>)"
    using j c(1)[unfolded n_def] drop_blocks_Returns[OF wf(1) dl[unfolded n_def], of "start_offset d"]
    by (simp add: bd_remove_before_def Let_def dist del: if_split)
  moreover have "drop (i mod n) (concat ?bss) = drop i (concat (blocks d))" unfolding cc by (simp add: add.commute)
  ultimately show thesis using that[of bss] c(2,3) mod by (simp add: n_def i_def s_def)
qed

text \<open>A removal up to an index whose block is missing panics, on \<open>remove(0)\<close> or on \<open>first_mut\<close>.\<close>

lemma bd_remove_before_Panics:
  assumes wf: "0 < block_size d" "uniform (block_size d) (blocks d)" and j: "j \<le> deque_length d"
    and i: "length (concat (blocks d)) < start_offset d mod block_size d + j"
  shows "bd_remove_before d (start_offset d + j) = Panics"
proof -
  define n where "n = block_size d"
  define i where "i = start_offset d mod n + j"
  have dist: "start_offset d + j - (start_offset d - start_offset d mod block_size d) = i"
    using mod_less_eq_dividend[of "start_offset d" n] by (simp add: i_def n_def)
  have "length (blocks d) * n < i" using i length_concat_uniform[OF wf(2)] by (simp add: i_def n_def)
  then have le: "length (blocks d) < i div n \<or> length (blocks d) = i div n \<and> 0 < i mod n"
    using wf(1) div_mult_mod_eq[of i n] less_mult_imp_div_less[of i "length (blocks d)" n]
    by (metis add.right_neutral n_def nat_neq_iff neq0_conv less_or_eq_imp_le div_le_mono div_mult_self_is_m order_le_less)
  show ?thesis
  proof (cases "length (blocks d) < i div n")
    case True
    with wf(1) drop_blocks_Panics[of n "blocks d" i] j show ?thesis by (simp add: bd_remove_before_def Let_def dist n_def)
  next
    case False
    with le have "i div n = length (blocks d)" "0 < i mod n" by simp_all
    with wf(1) drop_blocks_Returns[of n i "blocks d"] j show ?thesis by (simp add: bd_remove_before_def Let_def dist n_def)
  qed
qed

lemma bd_remove_before_refines:
  assumes r: "bd_repr d vs" and j: "j \<le> length vs"
  obtains d' where "bd_remove_before d (start_offset d + j) = Returns (Inr (), d')"
    "bd_repr d' (drop j vs)" "start_offset d' = start_offset d + j"
proof -
  have wf: "0 < block_size d" "uniform (block_size d) (blocks d)" "deque_length d = length vs"
    and flat: "concat (blocks d) = replicate (start_offset d mod block_size d) None
        @ map Some vs @ replicate (slack d) None" and sl: "slack d < block_size d"
    using r by (simp_all add: bd_repr_def)
  obtain bss where b: "bd_remove_before d (start_offset d + j) =
      Returns (Inr (), d\<lparr>blocks := bss, start_offset := start_offset d + j, deque_length := deque_length d - j\<rparr>)"
    "uniform (block_size d) bss"
    "concat bss = replicate ((start_offset d + j) mod block_size d) None @
       drop (start_offset d mod block_size d + j) (concat (blocks d))"
    by (rule bd_remove_before_flat[OF wf(1,2), of j]) (use wf(3) j in \<open>simp_all add: flat\<close>)
  let ?d = "d\<lparr>blocks := bss, start_offset := start_offset d + j, deque_length := deque_length d - j\<rparr>"
  have "bd_repr ?d (drop j vs)"
    by (rule bd_reprI[where k = "slack d"]) (use wf b(2,3) sl j in \<open>simp_all add: flat drop_map\<close>)
  with b(1) show thesis using that[of ?d] by simp
qed

lemma bd_remove_before_out_of_range:
  assumes "bd_repr d vs" "idx < start_offset d \<or> start_offset d + length vs < idx"
  shows "bd_remove_before d idx = Returns (Inl (), d)"
  using assms by (auto simp: bd_remove_before_def bd_repr_def)

section \<open>The contract the store relies on\<close>

text \<open>
  A log of values indexed by consecutive numbers. The client appends, reads and overwrites a value
  by its index, and drops the values before an index; no call on a well-formed log panics.
\<close>

locale revision_log =
  fixes invar :: "'d \<Rightarrow> bool"
    and first :: "'d \<Rightarrow> nat"
    and vals :: "'d \<Rightarrow> 'a list"
    and next_index :: "'d \<Rightarrow> nat"
    and push :: "'d \<Rightarrow> 'a \<Rightarrow> (nat \<times> 'd) run"
    and get :: "'d \<Rightarrow> nat \<Rightarrow> 'a option run"
    and put :: "'d \<Rightarrow> nat \<Rightarrow> 'a \<Rightarrow> (bool \<times> 'd) run"
    and drop_before :: "'d \<Rightarrow> nat \<Rightarrow> ((unit + unit) \<times> 'd) run"
  assumes next_index: "invar d \<Longrightarrow> next_index d = first d + length (vals d)"
    and push_law: "invar d \<Longrightarrow> \<exists>d'. push d v = Returns (next_index d, d') \<and> invar d' \<and>
          first d' = first d \<and> vals d' = vals d @ [v]"
    and get_law: "invar d \<Longrightarrow> get d i =
          Returns (if first d \<le> i \<and> i < next_index d then Some (vals d ! (i - first d)) else None)"
    and put_law: "invar d \<Longrightarrow> first d \<le> i \<Longrightarrow> i < next_index d \<Longrightarrow>
          \<exists>d'. put d i v = Returns (True, d') \<and> invar d' \<and> first d' = first d \<and>
            vals d' = (vals d)[i - first d := v]"
    and drop_law: "invar d \<Longrightarrow> first d \<le> i \<Longrightarrow> i \<le> next_index d \<Longrightarrow>
          \<exists>d'. drop_before d i = Returns (Inr (), d') \<and> invar d' \<and> first d' = i \<and>
            vals d' = drop (i - first d) (vals d)"
begin

text \<open>Reserve an index with a placeholder, then store the value under it: the store's write.\<close>

lemma push_then_put:
  assumes "invar d"
  shows "\<exists>d1 d2. push d p = Returns (next_index d, d1) \<and> put d1 (next_index d) v = Returns (True, d2) \<and>
    invar d2 \<and> first d2 = first d \<and> vals d2 = vals d @ [v] \<and> next_index d2 = next_index d + 1"
proof -
  from push_law[OF assms, of p] obtain d1 where p: "push d p = Returns (next_index d, d1)" "invar d1"
    "first d1 = first d" "vals d1 = vals d @ [p]"
    by blast
  have i: "first d1 \<le> next_index d" "next_index d < next_index d1" "next_index d - first d1 = length (vals d)"
    using p next_index assms by simp_all
  from put_law[OF p(2) i(1,2), of v] obtain d2 where "put d1 (next_index d) v = Returns (True, d2)"
    "invar d2" "first d2 = first d1" "vals d2 = (vals d1)[next_index d - first d1 := v]"
    by blast
  with p i(3) show ?thesis using next_index assms by auto
qed

lemma get_returns: "invar d \<Longrightarrow> \<exists>x. get d i = Returns x"
  by (simp add: get_law)

lemma get_kept:
  assumes "invar d" "invar d'" "first d \<le> first d'" "vals d' = drop (first d' - first d) (vals d)"
    "first d' \<le> next_index d" "first d' \<le> i"
  shows "get d' i = get d i"
  using assms by (auto simp: get_law next_index nth_drop le_diff_iff)

end

lemma bd_repr_self: "bd_invar d \<Longrightarrow> bd_repr d (bd_values d)"
  by (simp add: bd_invar_def)

interpretation vlog: revision_log bd_invar earliest_revision bd_values latest_revision
  bd_push bd_get bd_set bd_remove_before
proof unfold_locales
  fix d :: "'a block_deque" and v :: 'a and i :: nat
  assume d: "bd_invar d"
  note r = bd_repr_self[OF d]
  show ni: "latest_revision d = earliest_revision d + length (bd_values d)"
    using bd_repr_latest[OF r] .
  show "\<exists>d'. bd_push d v = Returns (latest_revision d, d') \<and> bd_invar d' \<and>
      earliest_revision d' = earliest_revision d \<and> bd_values d' = bd_values d @ [v]"
    using bd_push_refines[OF r, of v] ni
    by (metis bd_repr_iff earliest_revision_def)
  show "bd_get d i = Returns (if earliest_revision d \<le> i \<and> i < latest_revision d
      then Some (bd_values d ! (i - earliest_revision d)) else None)"
    using bd_get_with_refines[OF r, of i "\<lambda>x. x"] ni by (simp add: bd_get_def earliest_revision_def)
  show "\<exists>d'. bd_set d i v = Returns (True, d') \<and> bd_invar d' \<and>
      earliest_revision d' = earliest_revision d \<and>
      bd_values d' = (bd_values d)[i - earliest_revision d := v]"
    if "earliest_revision d \<le> i" "i < latest_revision d"
    using bd_set_refines[OF r, of "i - start_offset d" v] that ni
    by (metis bd_repr_iff earliest_revision_def le_add_diff_inverse nat_add_left_cancel_less)
  show "\<exists>d'. bd_remove_before d i = Returns (Inr (), d') \<and> bd_invar d' \<and>
      earliest_revision d' = i \<and> bd_values d' = drop (i - earliest_revision d) (bd_values d)"
    if "earliest_revision d \<le> i" "i \<le> latest_revision d"
    using bd_remove_before_refines[OF r, of "i - start_offset d"] that ni
    by (metis bd_repr_iff earliest_revision_def le_add_diff_inverse nat_add_left_cancel_le)
qed

section \<open>Any sequence of calls\<close>

text \<open>
  The calls on a deque as values, what they answer, and the two runs: on the blocks, and on the
  abstract pair of an offset and a list.
\<close>

datatype 'a deque_op = Push 'a | Put usize 'a | Get usize | RemoveBefore usize | Clear | Bounds

datatype 'a deque_out = Index usize | Stored bool | Found "'a option" | Removed bool | Cleared | Range usize usize

fun bd_step :: "'a deque_op \<Rightarrow> 'a block_deque \<Rightarrow> ('a deque_out \<times> 'a block_deque) run" where
  "bd_step (Push v) d = bind_run (bd_push d v) (\<lambda>(i, d'). Returns (Index i, d'))"
| "bd_step (Put i v) d = bind_run (bd_set d i v) (\<lambda>(b, d'). Returns (Stored b, d'))"
| "bd_step (Get i) d = bind_run (bd_get d i) (\<lambda>x. Returns (Found x, d))"
| "bd_step (RemoveBefore i) d =
     bind_run (bd_remove_before d i) (\<lambda>(res, d'). Returns (Removed (res = Inr ()), d'))"
| "bd_step Clear d = Returns (Cleared, bd_clear d)"
| "bd_step Bounds d = Returns (Range (earliest_revision d) (latest_revision d), d)"

fun list_step :: "'a deque_op \<Rightarrow> usize \<times> 'a list \<Rightarrow> 'a deque_out \<times> usize \<times> 'a list" where
  "list_step (Push v) (n, vs) = (Index (n + length vs), n, vs @ [v])"
| "list_step (Put i v) (n, vs) =
     (if n \<le> i \<and> i < n + length vs then (Stored True, n, vs[i - n := v]) else (Stored False, n, vs))"
| "list_step (Get i) (n, vs) =
     (Found (if n \<le> i \<and> i < n + length vs then Some (vs ! (i - n)) else None), n, vs)"
| "list_step (RemoveBefore i) (n, vs) =
     (if n \<le> i \<and> i \<le> n + length vs then (Removed True, i, drop (i - n) vs) else (Removed False, n, vs))"
| "list_step Clear (n, vs) = (Cleared, 0, [])"
| "list_step Bounds (n, vs) = (Range n (n + length vs), n, vs)"

fun bd_run :: "'a deque_op list \<Rightarrow> 'a block_deque \<Rightarrow> ('a deque_out list \<times> 'a block_deque) run" where
  "bd_run [] d = Returns ([], d)"
| "bd_run (c # cs) d =
     bind_run (bd_step c d) (\<lambda>(a, d'). bind_run (bd_run cs d') (\<lambda>(as, d''). Returns (a # as, d'')))"

fun list_run :: "'a deque_op list \<Rightarrow> usize \<times> 'a list \<Rightarrow> 'a deque_out list \<times> usize \<times> 'a list" where
  "list_run [] a = ([], a)"
| "list_run (c # cs) a = (case list_step c a of (x, a') \<Rightarrow> case list_run cs a' of (xs, a'') \<Rightarrow> (x # xs, a''))"

lemma bd_step_refines:
  assumes "bd_repr d vs"
  shows "\<exists>out d' vs'. bd_step c d = Returns (out, d') \<and> bd_repr d' vs' \<and>
    list_step c (start_offset d, vs) = (out, start_offset d', vs')"
proof (cases c)
  case (Push v)
  with bd_push_refines[OF assms, of v] show ?thesis by (metis bd_step.simps(1) bind_run_simps(1) case_prod_conv list_step.simps(1))
next
  case (Put i v)
  show ?thesis
  proof (cases "start_offset d \<le> i \<and> i < start_offset d + length vs")
    case True
    then have "i - start_offset d < length vs" "start_offset d + (i - start_offset d) = i" by linarith+
    with bd_set_refines[OF assms this(1), of v] True Put show ?thesis by fastforce
  next
    case False
    then have "bd_set d i v = Returns (False, d)" by (intro bd_set_out_of_range[OF assms]) auto
    with False Put assms show ?thesis by auto
  qed
next
  case (Get i)
  with bd_get_with_refines[OF assms, of i "\<lambda>x. x"] assms show ?thesis by (simp add: bd_get_def)
next
  case (RemoveBefore i)
  show ?thesis
  proof (cases "start_offset d \<le> i \<and> i \<le> start_offset d + length vs")
    case True
    then have "i - start_offset d \<le> length vs" "start_offset d + (i - start_offset d) = i" by linarith+
    with bd_remove_before_refines[OF assms this(1)] True RemoveBefore show ?thesis by fastforce
  next
    case False
    then have "bd_remove_before d i = Returns (Inl (), d)"
      by (intro bd_remove_before_out_of_range[OF assms]) auto
    with False RemoveBefore assms show ?thesis by auto
  qed
next
  case Clear
  with bd_repr_clear[OF assms] show ?thesis by (simp add: bd_clear_def)
next
  case Bounds
  with bd_repr_latest[OF assms] assms show ?thesis by (simp add: earliest_revision_def)
qed

lemma bd_run_refines:
  assumes "bd_repr d vs"
  shows "\<exists>outs d' vs'. bd_run cs d = Returns (outs, d') \<and> bd_repr d' vs' \<and>
    list_run cs (start_offset d, vs) = (outs, start_offset d', vs')"
  using assms
proof (induction cs arbitrary: d vs)
  case (Cons c cs)
  from bd_step_refines[OF Cons.prems, of c] obtain out d1 vs1 where
    1: "bd_step c d = Returns (out, d1)" "bd_repr d1 vs1"
      "list_step c (start_offset d, vs) = (out, start_offset d1, vs1)" by blast
  from Cons.IH[OF 1(2)] obtain outs d2 vs2 where
    "bd_run cs d1 = Returns (outs, d2)" "bd_repr d2 vs2"
    "list_run cs (start_offset d1, vs1) = (outs, start_offset d2, vs2)" by blast
  with 1 show ?case by auto
qed auto

section \<open>Properties\<close>

text \<open>
  C7: the block deque is a list behind an offset. Any sequence of pushes, overwrites, reads,
  compactions, clears and bound queries on a new deque returns, whatever the block size: no index
  is ever out of range and no block is missing. Every answer is the one the list gives, and the
  blocks at the end hold the list.
\<close>

theorem deque_refines_list:
  assumes "0 < bs"
  shows "\<exists>d vs. bd_run cs (bd_new bs) = Returns (fst (list_run cs (0, [])), d) \<and>
    bd_repr d vs \<and> snd (list_run cs (0, [])) = (start_offset d, vs)"
  using bd_run_refines[OF bd_repr_new[OF assms], of cs] by (auto simp: bd_new_def)

theorem deque_refines_list_witness:
  "\<exists>d vs. bd_run [Push (7::nat), Push 8, Push 9, RemoveBefore 1, Get 0, Get 2, Put 1 5, Get 1, Bounds] (bd_new 2) =
      Returns ([Index 0, Index 1, Index 2, Removed True, Found None, Found (Some 9), Stored True,
        Found (Some 5), Range 1 3], d) \<and>
    bd_repr d vs \<and> (1, [5, 9]) = (start_offset d, vs)"
proof -
  have "list_run [Push (7::nat), Push 8, Push 9, RemoveBefore 1, Get 0, Get 2, Put 1 5, Get 1, Bounds] (0, []) =
      ([Index 0, Index 1, Index 2, Removed True, Found None, Found (Some 9), Stored True,
        Found (Some 5), Range 1 3], 1, [5, 9])" by simp
  from deque_refines_list[of 2 "[Push (7::nat), Push 8, Push 9, RemoveBefore 1, Get 0, Get 2, Put 1 5, Get 1, Bounds]",
    unfolded this fst_conv snd_conv] show ?thesis by (simp del: bd_run.simps)
qed

end
