(* ===== verification/Mvcc_History.thy ===== *)
theory Mvcc_History
  imports Etcd_Prelude
begin

text \<open>
  The abstract specification of the multi-version store: a history of writes, newest first. The
  write at position \<open>r\<close> (counted from the oldest, from 1) has revision \<open>r\<close>. From the history alone
  the create revision, the modification revision and the version of a key at any revision follow.
  \<open>Value\<close> is the struct of \<open>src/store.rs\<close>.
\<close>

section \<open>Definitions\<close>

record Value =
  create_revision :: i64
  mod_revision :: i64
  version :: i64
  val :: "byte_array option"

type_synonym history = "(byte_array \<times> byte_array option) list"

definition write_value :: "Value option \<Rightarrow> i64 \<Rightarrow> byte_array option \<Rightarrow> Value" where
  "write_value old r v =
     (case old of
        Some o' \<Rightarrow>
          if val o' \<noteq> None
          then \<lparr>create_revision = create_revision o', mod_revision = r, version = version o' + 1, val = v\<rparr>
          else \<lparr>create_revision = r, mod_revision = r, version = 1, val = v\<rparr>
      | None \<Rightarrow> \<lparr>create_revision = r, mod_revision = r, version = 1, val = v\<rparr>)"

fun hist_latest :: "history \<Rightarrow> byte_array \<Rightarrow> Value option" where
  "hist_latest [] k = None"
| "hist_latest ((k', v) # h) k =
     (if k = k' then Some (write_value (hist_latest h k) (int (length h) + 1) v) else hist_latest h k)"

fun hist_revs :: "history \<Rightarrow> byte_array \<Rightarrow> i64 list" where
  "hist_revs [] k = []"
| "hist_revs ((k', v) # h) k = hist_revs h k @ (if k = k' then [int (length h) + 1] else [])"

fun hist_values :: "history \<Rightarrow> Value list" where
  "hist_values [] = []"
| "hist_values ((k, v) # h) = hist_values h @ [write_value (hist_latest h k) (int (length h) + 1) v]"

definition hist_at :: "history \<Rightarrow> nat \<Rightarrow> history" where
  "hist_at h n = drop (length h - n) h"

section \<open>Histories\<close>

lemma length_hist_values [simp]: "length (hist_values h) = length h"
  by (induction h) auto

lemma write_value_mod [simp]: "mod_revision (write_value old r v) = r"
  by (simp add: write_value_def split: option.split)

lemma write_value_val [simp]: "val (write_value old r v) = v"
  by (simp add: write_value_def split: option.split)

lemma hist_at_all [simp]: "length h \<le> n \<Longrightarrow> hist_at h n = h"
  by (simp add: hist_at_def)

lemma hist_at_Cons [simp]: "n \<le> length h \<Longrightarrow> hist_at (w # h) n = hist_at h n"
  by (simp add: hist_at_def Suc_diff_le)

lemma length_hist_at [simp]: "n \<le> length h \<Longrightarrow> length (hist_at h n) = n"
  by (simp add: hist_at_def)

lemma hist_revs_bounds: "r \<in> set (hist_revs h k) \<Longrightarrow> 1 \<le> r \<and> r \<le> int (length h)"
  by (induction h) (fastforce split: if_splits)+

lemma hist_revs_ascending: "sorted_wrt (<) (hist_revs h k)"
  by (induction h) (auto simp: sorted_wrt_append dest: hist_revs_bounds)

lemma hist_revs_sorted: "sorted (hist_revs h k)"
  using hist_revs_ascending strict_sorted_iff by blast

lemma hist_latest_None_iff: "hist_latest h k = None \<longleftrightarrow> hist_revs h k = []"
  by (induction h) (auto split: if_splits)

lemma hist_latest_mod:
  "hist_latest h k = Some v \<Longrightarrow> hist_revs h k \<noteq> [] \<and> mod_revision v = last (hist_revs h k)"
  by (induction h) (auto split: if_splits)

lemma hist_latest_mod_le: "hist_latest h k = Some v \<Longrightarrow> 1 \<le> mod_revision v \<and> mod_revision v \<le> int (length h)"
  using hist_latest_mod hist_revs_bounds last_in_set by metis

text \<open>The version of a live key counts the writes since it was created, and all its revisions are ordered.\<close>

lemma hist_latest_wf:
  "hist_latest h k = Some v \<Longrightarrow>
     1 \<le> create_revision v \<and> create_revision v \<le> mod_revision v \<and> 1 \<le> version v \<and>
     version v \<le> mod_revision v - create_revision v + 1"
proof (induction h arbitrary: v)
  case Nil
  then show ?case by simp
next
  case (Cons w h)
  obtain k' x where w: "w = (k', x)" by fastforce
  show ?case
  proof (cases "k = k' \<and> hist_latest h k \<noteq> None")
    case True
    then obtain v0 where v0: "hist_latest h k = Some v0" by blast
    with Cons hist_latest_mod_le[OF v0] True show ?thesis
      by (fastforce simp: w write_value_def split: if_splits)
  next
    case False
    with Cons show ?thesis by (auto simp: w write_value_def split: if_splits)
  qed
qed

text \<open>Reading at a revision: the value written at the greatest revision of the key not above it.\<close>

lemma hist_values_latest:
  "hist_latest h k = Some v \<Longrightarrow> hist_values h ! nat (last (hist_revs h k) - 1) = v"
proof (induction h)
  case Nil
  then show ?case by simp
next
  case (Cons w h)
  obtain k' x where w: "w = (k', x)" by fastforce
  show ?case
  proof (cases "k = k'")
    case True
    with Cons.prems show ?thesis by (simp add: w nth_append)
  next
    case False
    with Cons.prems have "hist_latest h k = Some v" by (simp add: w)
    moreover have "nat (last (hist_revs h k) - 1) < length h"
      using hist_latest_mod[OF calculation] hist_latest_mod_le[OF calculation] by auto
    ultimately show ?thesis using Cons.IH False by (simp add: w nth_append)
  qed
qed

lemma hist_revs_at: "n \<le> length h \<Longrightarrow> hist_revs (hist_at h n) k = filter (\<lambda>r. r \<le> int n) (hist_revs h k)"
proof (induction h)
  case Nil
  then show ?case by simp
next
  case (Cons w h)
  show ?case
  proof (cases "n \<le> length h")
    case True
    with Cons.IH show ?thesis by (cases w) auto
  next
    case False
    with Cons.prems have "n = length (w # h)" by simp
    then show ?thesis using hist_revs_bounds[of _ "w # h" k] by (simp add: filter_id_conv)
  qed
qed

lemma hist_values_at: "n \<le> length h \<Longrightarrow> hist_values (hist_at h n) = take n (hist_values h)"
proof (induction h)
  case Nil
  then show ?case by simp
next
  case (Cons w h)
  show ?case
  proof (cases "n \<le> length h")
    case True
    with Cons.IH show ?thesis by (cases w) auto
  next
    case False
    with Cons.prems show ?thesis by (simp add: hist_at_def)
  qed
qed

lemma hist_latest_at:
  assumes "n \<le> length h"
  shows "hist_latest (hist_at h n) k =
    (let rs = filter (\<lambda>r. r \<le> int n) (hist_revs h k)
     in if rs = [] then None else Some (hist_values h ! nat (last rs - 1)))"
proof (cases "hist_latest (hist_at h n) k")
  case None
  then show ?thesis using hist_latest_None_iff[of "hist_at h n" k] hist_revs_at[OF assms, of k] by simp
next
  case (Some v)
  note m = hist_latest_mod[OF Some] hist_latest_mod_le[OF Some]
  have "hist_values (hist_at h n) ! nat (last (hist_revs (hist_at h n) k) - 1) = v"
    by (rule hist_values_latest[OF Some])
  moreover have "nat (last (hist_revs (hist_at h n) k) - 1) < n" using m assms by auto
  ultimately show ?thesis
    using m assms Some by (simp add: hist_values_at hist_revs_at Let_def)
qed

lemma hist_latest_at_latest:
  assumes "hist_latest h k = Some v" "mod_revision v \<le> int n" "n \<le> length h"
  shows "hist_latest (hist_at h n) k = Some v"
proof -
  have "\<forall>r\<in>set (hist_revs h k). r \<le> int n"
    using hist_latest_mod[OF assms(1)] assms(2) sorted_le_last[OF hist_revs_sorted, of _ h k]
    by fastforce
  then have "filter (\<lambda>r. r \<le> int n) (hist_revs h k) = hist_revs h k" by (simp add: filter_id_conv)
  then show ?thesis
    using hist_latest_at[OF assms(3), of k] hist_latest_mod[OF assms(1)] hist_values_latest[OF assms(1)]
    by simp
qed

end
