(* ===== verification/Utf8_Lossy.thy ===== *)
theory Utf8_Lossy
  imports Etcd_Prelude
begin

text \<open>
  \<open>String::from_utf8_lossy\<close> of the Rust standard library, on bytes: every maximal invalid run of a
  UTF-8 sequence is replaced by the three bytes of U+FFFD. The store names the WAL file of a write
  by the lossy text of its key prefix.
\<close>

definition cont :: "u8 \<Rightarrow> u8 \<Rightarrow> byte_array \<Rightarrow> bool" where
  "cont lo hi bs \<longleftrightarrow> (case bs of [] \<Rightarrow> False | b # _ \<Rightarrow> lo \<le> b \<and> b \<le> hi)"

definition second_byte :: "u8 \<Rightarrow> u8 \<times> u8" where
  "second_byte b =
     (if b = 0xE0 then (0xA0, 0xBF) else if b = 0xED then (0x80, 0x9F)
      else if b = 0xF0 then (0x90, 0xBF) else if b = 0xF4 then (0x80, 0x8F) else (0x80, 0xBF))"

text \<open>The first character of a byte string: is it well formed, and how many bytes does it take?\<close>

definition utf8_char :: "u8 \<Rightarrow> byte_array \<Rightarrow> bool \<times> nat" where
  "utf8_char b bs =
     (if b < 0x80 then (True, 1)
      else if 0xC2 \<le> b \<and> b \<le> 0xDF then (if cont 0x80 0xBF bs then (True, 2) else (False, 1))
      else if 0xE0 \<le> b \<and> b \<le> 0xF4 then
        (if \<not> cont (fst (second_byte b)) (snd (second_byte b)) bs then (False, 1)
         else if \<not> cont 0x80 0xBF (drop 1 bs) then (False, 2)
         else if b \<le> 0xEF then (True, 3)
         else if \<not> cont 0x80 0xBF (drop 2 bs) then (False, 3)
         else (True, 4))
      else (False, 1))"

function from_utf8_lossy :: "byte_array \<Rightarrow> byte_array" where
  "from_utf8_lossy [] = []"
| "from_utf8_lossy (b # bs) =
     (let (ok, n) = utf8_char b bs
      in (if ok then take n (b # bs) else [0xEF, 0xBF, 0xBD]) @ from_utf8_lossy (drop n (b # bs)))"
  by pat_completeness auto
termination
  by (relation "measure length") (auto simp: utf8_char_def split: if_splits)

text \<open>An ASCII string, such as every Kubernetes key, is its own lossy text.\<close>

lemma from_utf8_lossy_ascii: "\<forall>b\<in>set bs. b < 0x80 \<Longrightarrow> from_utf8_lossy bs = bs"
  by (induction bs) (simp_all add: utf8_char_def)

end
