(* ===== verification/Wal_Record.thy ===== *)
theory Wal_Record
  imports Etcd_Prelude
begin

text \<open>
  The records of \<open>src/wal.rs\<close>: the mode, the record, the byte layout that \<open>write_locked\<close> produces
  and \<open>WalRecord::read_from\<close> reads. A reader is the list of the bytes left in the file; the errors
  of the operating system while reading are not modelled, the end of the file is.
\<close>

section \<open>Types\<close>

datatype wal_mode = WalNone | WalAsync | WalSync

type_synonym notify_ref = nat

record WalRecord =
  wr_rev :: i64
  wr_key :: byte_array
  wr_value :: "byte_array option"
  written_notify :: "notify_ref option"

definition DELETE_MARKER :: nat where
  "DELETE_MARKER = 2 ^ 32 - 1"

datatype io_error = UnexpectedEof

section \<open>Little-endian integers\<close>

fun to_le_bytes :: "nat \<Rightarrow> nat \<Rightarrow> byte_array" where
  "to_le_bytes 0 n = []"
| "to_le_bytes (Suc w) n = of_nat (n mod 256) # to_le_bytes w (n div 256)"

fun from_le_bytes :: "byte_array \<Rightarrow> nat" where
  "from_le_bytes [] = 0"
| "from_le_bytes (b # bs) = unat b + 256 * from_le_bytes bs"

lemma length_to_le_bytes [simp]: "length (to_le_bytes w n) = w"
  by (induction w arbitrary: n) auto

lemma from_to_le_bytes: "from_le_bytes (to_le_bytes w n) = n mod 256 ^ w"
proof (induction w arbitrary: n)
  case (Suc w)
  have "unat (of_nat (n mod 256) :: u8) = n mod 256"
    by (simp add: unat_of_nat)
  with Suc show ?case by (simp add: mod_mult2_eq)
qed simp

section \<open>Encoding\<close>

definition encode_header :: "WalRecord \<Rightarrow> byte_array" where
  "encode_header rec =
     (let key_len = length (wr_key rec) mod 2 ^ 32;
          value_len = (case wr_value rec of Some v \<Rightarrow> length v mod 2 ^ 32 | None \<Rightarrow> DELETE_MARKER)
      in to_le_bytes 8 (as_usize (wr_rev rec)) @ to_le_bytes 4 key_len @ to_le_bytes 4 value_len)"

definition encode_record :: "WalRecord \<Rightarrow> byte_array" where
  "encode_record rec =
     encode_header rec @ wr_key rec @ (case wr_value rec of Some v \<Rightarrow> v | None \<Rightarrow> [])"

section \<open>Decoding\<close>

definition read_exact :: "nat \<Rightarrow> byte_array \<Rightarrow> io_error + byte_array \<times> byte_array" where
  "read_exact n bs = (if length bs < n then Inl UnexpectedEof else Inr (take n bs, drop n bs))"

definition read_from :: "byte_array \<Rightarrow> io_error + (WalRecord \<times> byte_array) option" where
  "read_from reader =
     (case read_exact 16 reader of
        Inl UnexpectedEof \<Rightarrow> Inr None
      | Inr (header, r1) \<Rightarrow>
          (let rv = as_i64 (from_le_bytes (take 8 header));
               key_len = from_le_bytes (take 4 (drop 8 header));
               value_len_raw = from_le_bytes (take 4 (drop 12 header))
           in case read_exact key_len r1 of
                Inl e \<Rightarrow> Inl e
              | Inr (key, r2) \<Rightarrow>
                  if value_len_raw = DELETE_MARKER
                  then Inr (Some (\<lparr>wr_rev = rv, wr_key = key, wr_value = None, written_notify = None\<rparr>, r2))
                  else (case read_exact value_len_raw r2 of
                          Inl e \<Rightarrow> Inl e
                        | Inr (v, r3) \<Rightarrow>
                            Inr (Some (\<lparr>wr_rev = rv, wr_key = key, wr_value = Some v, written_notify = None\<rparr>, r3)))))"

text \<open>A record the layout can hold: lengths of 32 bits, and not the marker as the length of a value.\<close>

definition encodable :: "WalRecord \<Rightarrow> bool" where
  "encodable rec \<longleftrightarrow>
     - (2 ^ 63) \<le> wr_rev rec \<and> wr_rev rec < 2 ^ 63 \<and> length (wr_key rec) < 2 ^ 32 \<and>
     (case wr_value rec of Some v \<Rightarrow> length v < DELETE_MARKER | None \<Rightarrow> True)"

text \<open>What is read back: the record without the waiter it carried.\<close>

definition stored :: "WalRecord \<Rightarrow> WalRecord" where
  "stored rec = rec\<lparr>written_notify := None\<rparr>"

text \<open>All records of a file, up to its end or a torn record.\<close>

lemma read_from_shorter: "read_from bs = Inr (Some (rec, rest)) \<Longrightarrow> length rest < length bs"
  by (auto simp: read_from_def read_exact_def Let_def split: if_splits sum.splits io_error.splits)

function read_all :: "byte_array \<Rightarrow> WalRecord list \<times> (io_error + unit)" where
  "read_all bs =
     (case read_from bs of
        Inl e \<Rightarrow> ([], Inl e)
      | Inr None \<Rightarrow> ([], Inr ())
      | Inr (Some (rec, rest)) \<Rightarrow> (case read_all rest of (rs, res) \<Rightarrow> (rec # rs, res)))"
  by pat_completeness auto
termination
  by (relation "measure length") (auto dest: read_from_shorter)

declare read_all.simps [simp del]

section \<open>Lemmas\<close>

lemma length_encode_header [simp]: "length (encode_header rec) = 16"
  by (simp add: encode_header_def Let_def)

lemma header_fields:
  assumes "encodable rec"
  shows "as_i64 (from_le_bytes (take 8 (encode_header rec))) = wr_rev rec"
    "from_le_bytes (take 4 (drop 8 (encode_header rec))) = length (wr_key rec)"
    "from_le_bytes (take 4 (drop 12 (encode_header rec))) =
       (case wr_value rec of Some v \<Rightarrow> length v | None \<Rightarrow> DELETE_MARKER)"
proof -
  have "as_usize (wr_rev rec) < 2 ^ 64" by (simp add: as_usize_def nat_less_iff)
  then have "as_usize (wr_rev rec) mod 256 ^ 8 = as_usize (wr_rev rec)" by simp
  then show "as_i64 (from_le_bytes (take 8 (encode_header rec))) = wr_rev rec"
    using assms by (simp add: encode_header_def Let_def from_to_le_bytes as_i64_as_usize encodable_def)
  show "from_le_bytes (take 4 (drop 8 (encode_header rec))) = length (wr_key rec)"
    using assms by (simp add: encode_header_def Let_def from_to_le_bytes encodable_def)
  show "from_le_bytes (take 4 (drop 12 (encode_header rec))) =
      (case wr_value rec of Some v \<Rightarrow> length v | None \<Rightarrow> DELETE_MARKER)"
    using assms
    by (auto simp: encode_header_def Let_def from_to_le_bytes encodable_def DELETE_MARKER_def split: option.splits)
qed

lemma read_exact_append: "n = length xs \<Longrightarrow> read_exact n (xs @ ys) = Inr (xs, ys)"
  by (simp add: read_exact_def)

lemma read_encode:
  assumes "encodable rec"
  shows "read_from (encode_record rec @ rest) = Inr (Some (stored rec, rest))"
proof -
  have "read_exact 16 (encode_record rec @ rest) =
      Inr (encode_header rec, wr_key rec @ (case wr_value rec of Some v \<Rightarrow> v | None \<Rightarrow> []) @ rest)"
    by (simp add: read_exact_def encode_record_def)
  moreover have "wr_value rec = Some v \<Longrightarrow> length v \<noteq> DELETE_MARKER" for v
    using assms by (simp add: encodable_def)
  ultimately show ?thesis
    using header_fields[OF assms]
    by (cases "wr_value rec") (simp_all add: read_from_def Let_def read_exact_append stored_def)
qed

lemma read_torn:
  assumes "encodable rec" "n < length (encode_record rec)"
  shows "read_from (take n (encode_record rec)) = (if n < 16 then Inr None else Inl UnexpectedEof)"
proof (cases "n < 16")
  case True
  with assms(2) show ?thesis by (simp add: read_from_def read_exact_def)
next
  case False
  then have "read_exact 16 (take n (encode_record rec)) =
      Inr (encode_header rec, take (n - 16) (wr_key rec @ (case wr_value rec of Some v \<Rightarrow> v | None \<Rightarrow> [])))"
    using assms(2) by (simp add: read_exact_def encode_record_def drop_take)
  with False header_fields[OF assms(1)] assms(2) show ?thesis
    by (auto simp: read_from_def Let_def read_exact_def encode_record_def split: option.splits)
       (use assms(1) in \<open>auto simp: encodable_def DELETE_MARKER_def\<close>)
qed

lemma read_all_encoded:
  assumes "\<forall>rec\<in>set recs. encodable rec"
  shows "read_all (concat (map encode_record recs) @ rest) =
    (map stored recs @ fst (read_all rest), snd (read_all rest))"
  using assms
proof (induction recs)
  case (Cons rec recs)
  then show ?case
    using read_all.simps[of "encode_record rec @ concat (map encode_record recs) @ rest"]
    by (simp add: read_encode split: prod.split)
qed simp

lemma read_all_empty: "read_all [] = ([], Inr ())"
  by (simp add: read_all.simps[of "[]"] read_from_def read_exact_def)

section \<open>Properties\<close>

text \<open>
  C28: a file of records is read back. The bytes of any sequence of records, written one after the
  other, are read as the same sequence of revisions, keys and values, deletions included, and the
  reader ends cleanly at the end of the file.
\<close>

theorem wal_file_roundtrip:
  assumes "\<forall>rec\<in>set recs. encodable rec"
  shows "read_all (concat (map encode_record recs)) = (map stored recs, Inr ())"
  using read_all_encoded[OF assms, of "[]"] by (simp add: read_all_empty)

theorem wal_file_roundtrip_witness:
  "read_all (concat (map encode_record
      [\<lparr>wr_rev = 300, wr_key = [97], wr_value = Some [1, 2], written_notify = Some 7\<rparr>,
       \<lparr>wr_rev = 301, wr_key = [97], wr_value = None, written_notify = None\<rparr>])) =
    ([\<lparr>wr_rev = 300, wr_key = [97], wr_value = Some [1, 2], written_notify = None\<rparr>,
      \<lparr>wr_rev = 301, wr_key = [97], wr_value = None, written_notify = None\<rparr>], Inr ())"
  using wal_file_roundtrip[of "[\<lparr>wr_rev = 300, wr_key = [97], wr_value = Some [1, 2], written_notify = Some 7\<rparr>,
       \<lparr>wr_rev = 301, wr_key = [97], wr_value = None, written_notify = None\<rparr>]"]
  by (simp add: encodable_def DELETE_MARKER_def stored_def)

text \<open>
  A torn last record. If a crash cut the last record short, the records before it are all read;
  a cut inside the 16-byte header is taken for the end of the file, a cut after it is an error.
\<close>

lemma wal_torn_tail:
  assumes "\<forall>rec\<in>set recs. encodable rec" "encodable last_rec" "n < length (encode_record last_rec)"
  shows "read_all (concat (map encode_record recs) @ take n (encode_record last_rec)) =
    (map stored recs, if n < 16 then Inr () else Inl UnexpectedEof)"
  using read_all_encoded[OF assms(1), of "take n (encode_record last_rec)"] read_torn[OF assms(2,3)]
  by (simp add: read_all.simps[of "take n (encode_record last_rec)"])

lemma wal_torn_tail_witness:
  "read_all (concat (map encode_record [\<lparr>wr_rev = 1, wr_key = [97], wr_value = Some [1], written_notify = None\<rparr>]) @
      take 17 (encode_record \<lparr>wr_rev = 2, wr_key = [97], wr_value = Some [5], written_notify = None\<rparr>)) =
    ([\<lparr>wr_rev = 1, wr_key = [97], wr_value = Some [1], written_notify = None\<rparr>], Inl UnexpectedEof)"
  using wal_torn_tail[of "[\<lparr>wr_rev = 1, wr_key = [97], wr_value = Some [1], written_notify = None\<rparr>]"
      "\<lparr>wr_rev = 2, wr_key = [97], wr_value = Some [5], written_notify = None\<rparr>" 17]
  by (simp add: encodable_def DELETE_MARKER_def stored_def encode_record_def)

end
