(* ===== verification/Store_State.thy ===== *)
theory Store_State
  imports Key_Prefix Block_Deque Mvcc_History Utf8_Lossy Wal_Record
begin

text \<open>
  The state of \<open>src/store.rs\<close> and its relation to the abstract history of \<open>Mvcc_History\<close>.
  \<open>tree_map\<close> and the B-trees of \<open>prefix_map\<close> share their items through \<open>Arc<RwLock<TreeItem>>\<close>, so
  the items live in an explicit heap \<open>tree_items\<close>, indexed by references: an update through one map
  is seen through the other. The channel to the notification thread is the list \<open>notify_tx\<close> of the
  jobs sent and not yet received. A call is one atomic step here.
\<close>

section \<open>The structs\<close>

type_synonym item_ref = nat
type_synonym channel_ref = nat

record TreeItem =
  item_key :: byte_array
  revisions :: "i64 list"
  latest_value :: Value

record KeyValue =
  kv_key :: byte_array
  kv_value :: byte_array
  kv_create_revision :: i64
  kv_mod_revision :: i64
  kv_version :: i64
  kv_lease :: i64

record KeyValueWithPrev =
  prev_kv :: "KeyValue option"
  kv :: KeyValue

record Watcher =
  start_revision :: i64
  key_range_start :: byte_array
  key_range_end :: byte_array
  ch :: channel_ref

record SetRequired =
  required_last_revision :: "i64 option"
  required_version :: "i64 option"
  compare_result :: int

record RangeResult =
  kvs :: "KeyValue list"
  latest_rev :: i64
  count :: i64

record NotifyJob =
  job_rev :: i64
  job_watchers :: "channel_ref list"
  job_msg :: KeyValueWithPrev
  prefix_str :: byte_array
  watch_result_size :: nat
  wal_handled :: "notify_ref option"

text \<open>
  \<open>wal\<close> appears as the default mode of the shared WAL manager, which is all the store reads of it.
  \<open>next_item\<close>, \<open>next_channel\<close> and \<open>next_notify\<close> supply the references of the \<open>Arc\<close>s and channels
  the code allocates.
\<close>

record Store =
  prefix_map :: "byte_array \<rightharpoonup> (byte_array, item_ref) btree"
  tree_map :: "byte_array \<rightharpoonup> item_ref"
  tree_items :: "item_ref \<Rightarrow> TreeItem"
  next_item :: item_ref
  values_by_revision :: "Value block_deque"
  watchers :: "(byte_array \<times> i64, Watcher) btree"
  watch_counter :: i64
  wal_default_mode :: "wal_mode option"
  notify_tx :: "NotifyJob list"
  next_channel :: channel_ref
  next_notify :: notify_ref

section \<open>Construction and the small readers\<close>

definition placeholder_item :: "byte_array \<Rightarrow> TreeItem" where
  "placeholder_item key =
     \<lparr>item_key = key, revisions = [],
      latest_value = \<lparr>create_revision = 0, mod_revision = 0, version = 0, val = None\<rparr>\<rparr>"

definition STORE_BLOCK_SIZE :: usize where
  "STORE_BLOCK_SIZE = 1048576"

text \<open>\<open>Store::new\<close> up to the replay of the WAL, for any block size of the deque.\<close>

definition store_init :: "usize \<Rightarrow> wal_mode option \<Rightarrow> Store" where
  "store_init bs mode =
     \<lparr>prefix_map = Map.empty, tree_map = Map.empty, tree_items = (\<lambda>_. placeholder_item []),
      next_item = 0, values_by_revision = bd_new bs, watchers = btree_new, watch_counter = 0,
      wal_default_mode = mode, notify_tx = [], next_channel = 0, next_notify = 0\<rparr>"

definition current_revision :: "Store \<Rightarrow> i64" where
  "current_revision s = int (latest_revision (values_by_revision s))"

definition compacted_revision :: "Store \<Rightarrow> i64" where
  "compacted_revision s = int (earliest_revision (values_by_revision s))"

definition watcher_count :: "Store \<Rightarrow> i64" where
  "watcher_count s = int (length (watchers s))"

definition as_mvcc_key_value :: "Value \<Rightarrow> byte_array \<Rightarrow> KeyValue" where
  "as_mvcc_key_value v key =
     (let is_deleted = val v = None in
      \<lparr>kv_key = key,
       kv_value = (case val v of Some b \<Rightarrow> b | None \<Rightarrow> []),
       kv_create_revision = (if is_deleted then 0 else create_revision v),
       kv_mod_revision = mod_revision v,
       kv_version = (if is_deleted then 0 else version v),
       kv_lease = 0\<rparr>)"

section \<open>Insertion into the two maps\<close>

text \<open>
  A new item under a fresh reference, entered in \<open>tree_map\<close> and in \<open>prefix_map\<close>, where the B-tree of
  the prefix is created if needed.
\<close>

definition tree_map_insert :: "Store \<Rightarrow> byte_array \<Rightarrow> TreeItem \<Rightarrow> Store" where
  "tree_map_insert s key item =
     s\<lparr>tree_items := (tree_items s)(next_item s := item), next_item := next_item s + 1,
       tree_map := (tree_map s)(key \<mapsto> next_item s)\<rparr>"

definition prefix_map_insert :: "Store \<Rightarrow> byte_array \<Rightarrow> item_ref \<Rightarrow> Store" where
  "prefix_map_insert s key r =
     (let (prefix, suffix) = prefix_split key;
          btree = (case prefix_map s prefix of None \<Rightarrow> btree_new | Some m \<Rightarrow> m)
      in s\<lparr>prefix_map := (prefix_map s)(prefix \<mapsto> btree_insert suffix r btree)\<rparr>)"

definition insert_item :: "Store \<Rightarrow> byte_array \<Rightarrow> TreeItem \<Rightarrow> Store" where
  "insert_item s key item =
     (let (prefix, suffix) = prefix_split key;
          r = next_item s;
          btree = (case prefix_map s prefix of None \<Rightarrow> btree_new | Some m \<Rightarrow> m)
      in s\<lparr>tree_items := (tree_items s)(r := item), next_item := r + 1,
           prefix_map := (prefix_map s)(prefix \<mapsto> btree_insert suffix r btree),
           tree_map := (tree_map s)(key \<mapsto> r)\<rparr>)"

section \<open>Invariant and abstraction\<close>

text \<open>
  The two maps index the same items, and every item knows its key; \<open>P\<close> are the keys that are not yet
  in \<open>prefix_map\<close>, of which there are none between the calls.
\<close>

definition index_but :: "byte_array set \<Rightarrow> Store \<Rightarrow> bool" where
  "index_but P s \<longleftrightarrow>
     (\<forall>p m. prefix_map s p = Some m \<longrightarrow> btree_wf m) \<and>
     (\<forall>p m sfx r. prefix_map s p = Some m \<longrightarrow> btree_get m sfx = Some r \<longrightarrow>
        prefix_split (p @ sfx) = (p, sfx) \<and> tree_map s (p @ sfx) = Some r) \<and>
     (\<forall>k r. tree_map s k = Some r \<longrightarrow> k \<notin> P \<longrightarrow>
        (\<exists>m. prefix_map s (fst (prefix_split k)) = Some m \<and>
             btree_get m (snd (prefix_split k)) = Some r)) \<and>
     (\<forall>k r. tree_map s k = Some r \<longrightarrow> r < next_item s \<and> item_key (tree_items s r) = k)"

abbreviation index_wf :: "Store \<Rightarrow> bool" where
  "index_wf \<equiv> index_but {}"

lemma index_butI:
  assumes "\<And>p m. prefix_map s p = Some m \<Longrightarrow> btree_wf m"
    and "\<And>p m sfx r. prefix_map s p = Some m \<Longrightarrow> btree_get m sfx = Some r \<Longrightarrow>
      prefix_split (p @ sfx) = (p, sfx) \<and> tree_map s (p @ sfx) = Some r"
    and "\<And>k r. tree_map s k = Some r \<Longrightarrow> k \<notin> P \<Longrightarrow>
      \<exists>m. prefix_map s (fst (prefix_split k)) = Some m \<and> btree_get m (snd (prefix_split k)) = Some r"
    and "\<And>k r. tree_map s k = Some r \<Longrightarrow> r < next_item s \<and> item_key (tree_items s r) = k"
  shows "index_but P s"
  using assms unfolding index_but_def by blast

lemma index_but_mono: "index_but P s \<Longrightarrow> P \<subseteq> Q \<Longrightarrow> index_but Q s"
  unfolding index_but_def by blast

lemma index_wf_def:
  "index_wf s \<longleftrightarrow>
     (\<forall>p m. prefix_map s p = Some m \<longrightarrow> btree_wf m) \<and>
     (\<forall>p m sfx r. prefix_map s p = Some m \<longrightarrow> btree_get m sfx = Some r \<longrightarrow>
        prefix_split (p @ sfx) = (p, sfx) \<and> tree_map s (p @ sfx) = Some r) \<and>
     (\<forall>k r. tree_map s k = Some r \<longrightarrow>
        (\<exists>m. prefix_map s (fst (prefix_split k)) = Some m \<and>
             btree_get m (snd (prefix_split k)) = Some r)) \<and>
     (\<forall>k r. tree_map s k = Some r \<longrightarrow> r < next_item s \<and> item_key (tree_items s r) = k)"
  by (simp add: index_but_def)

text \<open>The item of key \<open>k\<close> after history \<open>h\<close>, when the values before index \<open>e\<close> are dropped.\<close>

definition item_repr :: "history \<Rightarrow> nat \<Rightarrow> byte_array \<Rightarrow> TreeItem \<Rightarrow> bool" where
  "item_repr h e k it \<longleftrightarrow>
     latest_value it =
       (case hist_latest h k of Some v \<Rightarrow> v | None \<Rightarrow> latest_value (placeholder_item k)) \<and>
     (\<exists>c \<le> int e. revisions it = filter (\<lambda>r. c \<le> r) (hist_revs h k))"

definition store_repr :: "Store \<Rightarrow> history \<Rightarrow> bool" where
  "store_repr s h \<longleftrightarrow>
     index_wf s \<and>
     bd_invar (values_by_revision s) \<and>
     latest_revision (values_by_revision s) = length h \<and>
     bd_values (values_by_revision s) =
       drop (earliest_revision (values_by_revision s)) (hist_values h) \<and>
     (\<forall>k. tree_map s k = None \<longrightarrow> hist_latest h k = None) \<and>
     (\<forall>k r. tree_map s k = Some r \<longrightarrow>
        item_repr h (earliest_revision (values_by_revision s)) k (tree_items s r))"

text \<open>The current value of a key: what its item holds, if it has one.\<close>

definition current :: "Store \<Rightarrow> byte_array \<Rightarrow> Value option" where
  "current s k = map_option (\<lambda>r. latest_value (tree_items s r)) (tree_map s k)"

section \<open>Lemmas\<close>

lemma index_wf_init: "index_wf (store_init bs mode)"
  by (simp add: index_wf_def store_init_def)

lemma store_repr_init: "0 < bs \<Longrightarrow> store_repr (store_init bs mode) []"
  using bd_repr_new[of bs]
  by (simp add: store_repr_def index_wf_init)
    (simp add: store_init_def bd_repr_iff bd_new_def latest_revision_def)

lemma index_wf_prefix_btree: "index_wf s \<Longrightarrow> prefix_map s p = Some m \<Longrightarrow> btree_wf m"
  by (simp add: index_wf_def)

lemma index_wf_tree_map:
  assumes "index_wf s" "tree_map s k = Some r"
  shows "r < next_item s" "item_key (tree_items s r) = k"
  using assms by (simp_all add: index_wf_def)

lemma index_wf_inj: "index_wf s \<Longrightarrow> tree_map s k = Some r \<Longrightarrow> tree_map s k' = Some r \<Longrightarrow> k = k'"
  using index_wf_tree_map(2) by metis

lemma index_wf_lookup:
  assumes "index_wf s"
  shows "tree_map s k = Some r \<longleftrightarrow>
    (\<exists>m. prefix_map s (fst (prefix_split k)) = Some m \<and> btree_get m (snd (prefix_split k)) = Some r)"
  using assms prefix_split_append[of k] unfolding index_wf_def by metis

lemma insert_item_split: "insert_item s key item = prefix_map_insert (tree_map_insert s key item) key (next_item s)"
  by (simp add: insert_item_def prefix_map_insert_def tree_map_insert_def Let_def split: prod.split)

lemma index_but_tree_map_insert:
  assumes "index_but P s" "tree_map s key = None" "item_key item = key"
  shows "index_but (insert key P) (tree_map_insert s key item)"
proof (rule index_butI)
  let ?s = "tree_map_insert s key item"
  have pm: "prefix_map ?s = prefix_map s" by (simp add: tree_map_insert_def)
  show "btree_wf m" if "prefix_map ?s p = Some m" for p m
    using that assms(1) unfolding pm index_but_def by blast
  show "prefix_split (p @ sfx) = (p, sfx) \<and> tree_map ?s (p @ sfx) = Some r"
    if "prefix_map ?s p = Some m" "btree_get m sfx = Some r" for p m sfx r
  proof -
    have "prefix_split (p @ sfx) = (p, sfx)" "tree_map s (p @ sfx) = Some r"
      using that assms(1) unfolding pm index_but_def by blast+
    with assms(2) show ?thesis by (auto simp: tree_map_insert_def)
  qed
  show "\<exists>m. prefix_map ?s (fst (prefix_split k)) = Some m \<and> btree_get m (snd (prefix_split k)) = Some r"
    if "tree_map ?s k = Some r" "k \<notin> insert key P" for k r
  proof -
    have "tree_map s k = Some r" "k \<notin> P" using that by (simp_all add: tree_map_insert_def)
    with assms(1) show ?thesis unfolding pm index_but_def by blast
  qed
  show "r < next_item ?s \<and> item_key (tree_items ?s r) = k" if k: "tree_map ?s k = Some r" for k r
  proof (cases "k = key")
    case True
    with k assms(3) show ?thesis by (simp add: tree_map_insert_def)
  next
    case False
    then have "tree_map s k = Some r" using k by (simp add: tree_map_insert_def)
    then have "r < next_item s \<and> item_key (tree_items s r) = k" using assms(1) unfolding index_but_def by blast
    then show ?thesis by (simp add: tree_map_insert_def)
  qed
qed

lemma index_but_prefix_map_insert:
  assumes wf: "index_but P s" and key: "tree_map s key = Some ref"
  shows "index_but (P - {key}) (prefix_map_insert s key ref)"
proof -
  obtain p sfx where ps: "prefix_split key = (p, sfx)" by fastforce
  have key_split: "key = p @ sfx" using prefix_split_key[OF ps] by simp
  define m where "m = (case prefix_map s p of None \<Rightarrow> btree_new | Some m \<Rightarrow> m)"
  have m: "btree_wf m" using wf bt.wf_empty by (auto simp: m_def index_but_def split: option.split)
  have old: "\<exists>m'. prefix_map s p = Some m' \<and> btree_get m' sf = Some r" if "btree_get m sf = Some r" for sf r
    using that by (auto simp: m_def btree_get_def btree_new_def split: option.splits)
  note get = bt.lookup_insert[OF m, of sfx ref] and wfm = bt.wf_insert[OF m, of sfx ref]
  let ?pm = "(prefix_map s)(p \<mapsto> btree_insert sfx ref m)"
  have in_tree: "prefix_split (q @ sf) = (q, sf) \<and> tree_map s (q @ sf) = Some r"
    if q: "?pm q = Some m'" "btree_get m' sf = Some r" for q m' sf r
  proof (cases "q = p \<and> sf = sfx")
    case True
    with q get key key_split ps show ?thesis by auto
  next
    case False
    then have "\<exists>m0. prefix_map s q = Some m0 \<and> btree_get m0 sf = Some r"
      using q get old by (auto split: if_splits)
    with wf show ?thesis by (auto simp: index_but_def)
  qed
  have in_prefix: "\<exists>m'. ?pm (fst (prefix_split k)) = Some m' \<and> btree_get m' (snd (prefix_split k)) = Some r"
    if k: "tree_map s k = Some r" "k \<notin> P - {key}" for k r
  proof (cases "k = key")
    case True
    with k key get ps show ?thesis by simp
  next
    case False
    with k obtain m0 where "prefix_map s (fst (prefix_split k)) = Some m0" "btree_get m0 (snd (prefix_split k)) = Some r"
      using wf unfolding index_but_def by blast
    with False get ps prefix_split_eqI[of k key] show ?thesis by (cases "prefix_split k") (auto simp: m_def)
  qed
  have "prefix_map_insert s key ref = s\<lparr>prefix_map := ?pm\<rparr>" by (simp add: prefix_map_insert_def ps m_def)
  with wf wfm in_tree in_prefix show ?thesis unfolding index_but_def by (auto split: if_splits)
qed

lemma index_wf_insert_item:
  assumes "index_wf s" "tree_map s key = None" "item_key item = key"
  shows "index_wf (insert_item s key item)"
  using index_but_prefix_map_insert[OF index_but_tree_map_insert[OF assms], of key "next_item s"]
  by (simp add: insert_item_split tree_map_insert_def)

text \<open>Updating the item behind a reference, without changing its key, keeps the index.\<close>

lemma index_wf_update_item:
  assumes "index_but P s" "item_key it = item_key (tree_items s r)"
  shows "index_but P (s\<lparr>tree_items := (tree_items s)(r := it)\<rparr>)"
  using assms by (simp add: index_but_def)

lemma index_wf_cong:
  assumes "prefix_map s' = prefix_map s" "tree_map s' = tree_map s" "tree_items s' = tree_items s"
    "next_item s' = next_item s"
  shows "index_but P s' = index_but P s"
  using assms by (simp add: index_but_def)

lemma current_insert_item:
  assumes "index_wf s" "tree_map s key = None"
  shows "current (insert_item s key item) = (current s)(key \<mapsto> latest_value item)"
proof
  fix k
  show "current (insert_item s key item) k = ((current s)(key \<mapsto> latest_value item)) k"
    using index_wf_tree_map(1)[OF assms(1), of k]
    by (cases "tree_map s k")
      (auto simp: current_def insert_item_def Let_def split: prod.split)
qed

end
