(* ===== verification/Store_Write.thy ===== *)
theory Store_Write
  imports Store_State
begin

text \<open>
  The writes of \<open>src/store.rs\<close>: \<open>set\<close>, \<open>delete\<close>, \<open>set_for_replay\<close>, \<open>notify_watchers\<close> and
  \<open>compact\<close>. \<open>store_set\<close> is composed as the code is: find or create the item, check the
  preconditions under its lock, push the new value, then hand a job to the notification thread.
  Against the history: a successful write appends one entry, a refused one none.
\<close>

section \<open>Notification jobs\<close>

definition i64_MAX :: i64 where
  "i64_MAX = 2 ^ 63 - 1"

definition watcher_matches :: "byte_array \<Rightarrow> Value \<Rightarrow> Watcher \<Rightarrow> bool" where
  "watcher_matches key v w \<longleftrightarrow>
     start_revision w \<le> mod_revision v \<and>
     (if key_range_end w = [] then key = key_range_start w
      else key < key_range_end w \<and> key_range_start w \<le> key)"

definition watchers_to_notify :: "Store \<Rightarrow> byte_array \<Rightarrow> Value \<Rightarrow> channel_ref list" where
  "watchers_to_notify s key v =
     map (\<lambda>(_, w). ch w)
       (filter (\<lambda>(_, w). watcher_matches key v w)
          (filter (\<lambda>(k, _). k < (key, i64_MAX)) (watchers s)))"

definition notify_watchers ::
    "Store \<Rightarrow> byte_array \<Rightarrow> Value \<Rightarrow> Value option \<Rightarrow> byte_array \<Rightarrow> Store \<times> notify_ref option" where
  "notify_watchers s key v prev_value prefix =
     (let kv0 = as_mvcc_key_value v key;
          prev = map_option (\<lambda>p. as_mvcc_key_value p key) prev_value;
          sync = wal_default_mode s = Some WalSync;
          handled = (if sync then Some (next_notify s) else None);
          job = \<lparr>job_rev = mod_revision v, job_watchers = watchers_to_notify s key v,
                 job_msg = \<lparr>prev_kv = prev, kv = kv0\<rparr>,
                 prefix_str = from_utf8_lossy prefix,
                 watch_result_size =
                   length (kv_value kv0) + (case prev of None \<Rightarrow> 0 | Some p \<Rightarrow> length (kv_value p)),
                 wal_handled = handled\<rparr>
      in (s\<lparr>notify_tx := notify_tx s @ [job],
            next_notify := (if sync then next_notify s + 1 else next_notify s)\<rparr>, handled))"

section \<open>set and delete\<close>

text \<open>\<open>tree_map.entry(key)\<close>: the item of the key, created as a placeholder if it has none.\<close>

definition set_entry :: "Store \<Rightarrow> byte_array \<Rightarrow> Store \<times> item_ref \<times> bool" where
  "set_entry s key =
     (case tree_map s key of
        Some r \<Rightarrow> (s, r, False)
      | None \<Rightarrow> (insert_item s key (placeholder_item key), next_item s, True))"

definition cmp_satisfied :: "int \<Rightarrow> i64 \<Rightarrow> i64 \<Rightarrow> bool" where
  "cmp_satisfied cmp existing target =
     (if cmp = 1 then existing > target
      else if cmp = 2 then existing < target
      else if cmp = 3 then existing \<noteq> target
      else existing = target)"

definition required_rev :: "SetRequired option \<Rightarrow> i64" where
  "required_rev required =
     (case Option.bind required required_last_revision of None \<Rightarrow> -1 | Some r \<Rightarrow> r)"

definition required_ver :: "SetRequired option \<Rightarrow> i64" where
  "required_ver required =
     (case Option.bind required required_version of None \<Rightarrow> -1 | Some r \<Rightarrow> r)"

definition required_cmp :: "SetRequired option \<Rightarrow> int" where
  "required_cmp required = (case required of None \<Rightarrow> 0 | Some r \<Rightarrow> compare_result r)"

text \<open>The two early \<open>return Err(...)\<close> of \<open>set\<close>, under the lock of the item.\<close>

definition set_refused ::
    "i64 \<Rightarrow> TreeItem \<Rightarrow> byte_array option \<Rightarrow> SetRequired option \<Rightarrow> (i64 \<times> KeyValue option) option" where
  "set_refused latest item v required =
     (let existing = latest_value item in
      if val existing \<noteq> None then
        (if 0 \<le> required_rev required \<and>
            \<not> cmp_satisfied (required_cmp required) (mod_revision existing) (required_rev required) \<or>
            0 \<le> required_ver required \<and>
            \<not> cmp_satisfied (required_cmp required) (version existing) (required_ver required)
         then Some (latest, Some (as_mvcc_key_value existing (item_key item)))
         else None)
      else if 0 < required_rev required \<or> 0 < required_ver required then Some (latest, None)
      else if v = None then Some (latest, None)
      else None)"

text \<open>Revisions of the item that were compacted are drained before the new one is appended.\<close>

definition drain_compacted :: "i64 \<Rightarrow> i64 list \<Rightarrow> i64 list" where
  "drain_compacted earliest revs =
     (if (case revs of [] \<Rightarrow> earliest | r # _ \<Rightarrow> r) < earliest
      then drop (partition_point (\<lambda>v. v < earliest) revs) revs
      else revs)"

definition placeholder_value :: Value where
  "placeholder_value = \<lparr>create_revision = 0, mod_revision = 0, version = 1, val = None\<rparr>"

definition new_value :: "Value \<Rightarrow> i64 \<Rightarrow> byte_array option \<Rightarrow> Value" where
  "new_value existing new_rev v =
     (if val existing \<noteq> None
      then \<lparr>create_revision = create_revision existing, mod_revision = new_rev,
            version = version existing + 1, val = v\<rparr>
      else \<lparr>create_revision = new_rev, mod_revision = new_rev, version = 1, val = v\<rparr>)"

text \<open>
  The update under the item's lock: push a placeholder to obtain the revision, build the value,
  store it in the item and in \<open>values_by_revision\<close>, append the revision to the item.
\<close>

definition commit_value ::
    "Store \<Rightarrow> item_ref \<Rightarrow> i64 list \<Rightarrow> byte_array option \<Rightarrow> (i64 \<times> Value \<times> Store) run" where
  "commit_value s r revs v =
     (let item = tree_items s r in
      bind_run (bd_push (values_by_revision s) placeholder_value)
        (\<lambda>(index, d1).
           let new_rev = int index + 1;
               nv = new_value (latest_value item) new_rev v
           in bind_run (bd_set d1 (rev_index new_rev) nv)
                (\<lambda>(_, d2). Returns (new_rev, nv,
                   s\<lparr>values_by_revision := d2,
                     tree_items := (tree_items s)
                       (r := item\<lparr>latest_value := nv, revisions := revs @ [new_rev]\<rparr>)\<rparr>))))"

text \<open>
  The result carries the reference of the \<open>Notify\<close> on which the call waits in \<open>fsync\<close> mode before
  it returns to its caller.
\<close>

type_synonym set_result = "(i64 \<times> KeyValue option) + i64"

definition store_set ::
    "Store \<Rightarrow> byte_array \<Rightarrow> byte_array option \<Rightarrow> SetRequired option \<Rightarrow>
       (Store \<times> set_result \<times> notify_ref option) run" where
  "store_set s key v required =
     (let latest = current_revision s;
          (s1, r, is_new_item) = set_entry s key;
          item = tree_items s1 r
      in case set_refused latest item v required of
           Some e \<Rightarrow> Returns (s1, Inl e, None)
         | None \<Rightarrow>
             bind_run (commit_value s1 r (drain_compacted (compacted_revision s1) (revisions item)) v)
               (\<lambda>(new_rev, nv, s2).
                  let old_value = (if is_new_item then None else Some (latest_value item));
                      (s3, handled) =
                        notify_watchers s2 (item_key item) nv old_value (fst (prefix_split key))
                  in Returns (s3, Inr new_rev, handled)))"

definition store_delete ::
    "Store \<Rightarrow> byte_array \<Rightarrow> SetRequired option \<Rightarrow> (Store \<times> set_result \<times> notify_ref option) run" where
  "store_delete s key required = store_set s key None required"

section \<open>Replay of the WAL\<close>

definition set_for_replay :: "Store \<Rightarrow> byte_array \<Rightarrow> byte_array option \<Rightarrow> Store run" where
  "set_for_replay s key v =
     (case tree_map s key of
        Some r \<Rightarrow>
          (let item = tree_items s r in
           if val (latest_value item) \<noteq> None
           then bind_run (commit_value s r (revisions item) v) (\<lambda>(_, _, s'). Returns s')
           else if v = None then Returns s
           else bind_run (commit_value s r (revisions item) v) (\<lambda>(_, _, s'). Returns s'))
      | None \<Rightarrow>
          if v = None then Returns s
          else bind_run (bd_push (values_by_revision s) placeholder_value)
            (\<lambda>(index, d1).
               let new_rev = int index + 1;
                   nv = \<lparr>create_revision = new_rev, mod_revision = new_rev, version = 1, val = v\<rparr>;
                   item = \<lparr>item_key = key, revisions = [new_rev], latest_value = nv\<rparr>
               in bind_run (bd_set d1 (rev_index new_rev) nv)
                    (\<lambda>(_, d2). Returns (insert_item (s\<lparr>values_by_revision := d2\<rparr>) key item))))"

section \<open>compact\<close>

definition store_compact :: "Store \<Rightarrow> i64 \<Rightarrow> (Store \<times> (status + unit)) run" where
  "store_compact s r =
     (if r < 1 \<or> current_revision s < r
      then Returns (s, Inl (Status OutOfRange ''etcdserver: mvcc: required revision has been compacted'' []))
      else bind_run (bd_remove_before (values_by_revision s) (nat (r - 1)))
             (\<lambda>(res, d). Returns (s\<lparr>values_by_revision := d\<rparr>,
                case res of
                  Inr _ \<Rightarrow> Inr ()
                | Inl _ \<Rightarrow> Inl (Status Internal ''etcdserver: mvcc: compact failed'' []))))"

section \<open>Specification over the history\<close>

text \<open>The value of a key that exists: written, and not deleted by its last write.\<close>

definition hist_live :: "history \<Rightarrow> byte_array \<Rightarrow> Value option" where
  "hist_live h k = Option.bind (hist_latest h k) (\<lambda>v. if val v = None then None else Some v)"

text \<open>
  When a write is admitted: on an existing key every stated requirement holds under the chosen
  comparison; on an absent key no positive revision or version is required, and there is nothing to
  delete.
\<close>

definition admits :: "Value option \<Rightarrow> byte_array option \<Rightarrow> SetRequired option \<Rightarrow> bool" where
  "admits live v required =
     (case live of
        Some x \<Rightarrow>
          (required_rev required < 0 \<or>
             cmp_satisfied (required_cmp required) (mod_revision x) (required_rev required)) \<and>
          (required_ver required < 0 \<or>
             cmp_satisfied (required_cmp required) (version x) (required_ver required))
      | None \<Rightarrow> required_rev required \<le> 0 \<and> required_ver required \<le> 0 \<and> v \<noteq> None)"

section \<open>Lemmas on the representation\<close>

lemma store_repr_cong:
  assumes "prefix_map s' = prefix_map s" "tree_map s' = tree_map s" "tree_items s' = tree_items s"
    "next_item s' = next_item s" "values_by_revision s' = values_by_revision s"
  shows "store_repr s' h = store_repr s h"
  using assms index_wf_cong[OF assms(1-4)] by (simp add: store_repr_def)

lemma store_reprD:
  assumes "store_repr s h"
  shows "index_wf s" "bd_invar (values_by_revision s)"
    "latest_revision (values_by_revision s) = length h"
    "bd_values (values_by_revision s) = drop (earliest_revision (values_by_revision s)) (hist_values h)"
    "earliest_revision (values_by_revision s) \<le> length h"
    "current_revision s = int (length h)"
  using assms vlog.next_index[of "values_by_revision s"]
  by (auto simp: store_repr_def current_revision_def)

text \<open>
  The log holds the value of every revision that is still kept, except at the indices \<open>F\<close>, which are
  reserved and not yet filled; between the calls there are none.
\<close>

definition log_ok :: "nat set \<Rightarrow> history \<Rightarrow> Value block_deque \<Rightarrow> bool" where
  "log_ok F h d \<longleftrightarrow>
     bd_invar d \<and> latest_revision d = length h \<and>
     (\<forall>i. earliest_revision d \<le> i \<longrightarrow> i < length h \<longrightarrow> i \<notin> F \<longrightarrow>
        bd_values d ! (i - earliest_revision d) = hist_values h ! i)"

lemma log_okD:
  assumes "log_ok F h d"
  shows "bd_invar d" "latest_revision d = length h" "earliest_revision d \<le> length h"
    "length h = earliest_revision d + length (bd_values d)"
  using assms vlog.next_index[of d] by (auto simp: log_ok_def)

lemma log_ok_mono: "log_ok F h d \<Longrightarrow> F \<subseteq> G \<Longrightarrow> log_ok G h d"
  by (auto simp: log_ok_def)

lemma log_ok_complete:
  assumes "log_ok {} h d"
  shows "bd_values d = drop (earliest_revision d) (hist_values h)"
proof (rule nth_equalityI)
  show "length (bd_values d) = length (drop (earliest_revision d) (hist_values h))"
    using log_okD(4)[OF assms] by simp
  show "bd_values d ! i = drop (earliest_revision d) (hist_values h) ! i" if "i < length (bd_values d)" for i
    using that assms log_okD(4)[OF assms] unfolding log_ok_def
    by (auto dest!: spec[of _ "earliest_revision d + i"])
qed

lemma store_repr_log: "store_repr s h \<Longrightarrow> log_ok {} h (values_by_revision s)"
  using store_reprD[of s h] by (auto simp: log_ok_def)

lemma store_repr_item:
  assumes "store_repr s h" "tree_map s k = Some r"
  shows "item_repr h (earliest_revision (values_by_revision s)) k (tree_items s r)"
  using assms by (simp add: store_repr_def)

lemma item_repr_latest:
  assumes "item_repr h e k it"
  shows "hist_live h k = (if val (latest_value it) = None then None else Some (latest_value it))"
  using assms
  by (auto simp: item_repr_def hist_live_def placeholder_item_def split: option.splits)

lemma new_value_repr: "item_repr h e k it \<Longrightarrow> new_value (latest_value it) r v = write_value (hist_latest h k) r v"
  by (auto simp: item_repr_def new_value_def write_value_def placeholder_item_def split: option.splits)

lemma drain_compacted_repr:
  assumes "revs = filter (\<lambda>r. c \<le> r) (hist_revs h k)" "c \<le> e"
  shows "\<exists>c' \<le> e. drain_compacted e revs = filter (\<lambda>r. c' \<le> r) (hist_revs h k)"
proof -
  have "sorted revs" using assms(1) hist_revs_sorted by (simp add: sorted_wrt_filter)
  then have "drop (partition_point (\<lambda>v. v < e) revs) revs = filter (\<lambda>r. e \<le> r) (hist_revs h k)"
    using assms by (auto simp: drop_partition_point intro!: filter_cong)
  with assms show ?thesis by (auto simp: drain_compacted_def)
qed

lemma item_repr_revs: "item_repr h e k it \<Longrightarrow> \<exists>c \<le> int e. revisions it = filter (\<lambda>r. c \<le> r) (hist_revs h k)"
  by (simp add: item_repr_def)

lemma store_repr_insert_placeholder:
  assumes "store_repr s h" "tree_map s k = None"
  shows "store_repr (insert_item s k (placeholder_item k)) h"
proof -
  let ?s = "insert_item s k (placeholder_item k)"
  have eqs: "values_by_revision ?s = values_by_revision s"
    "tree_map ?s = (tree_map s)(k \<mapsto> next_item s)"
    "tree_items ?s = (tree_items s)(next_item s := placeholder_item k)"
    by (simp_all add: insert_item_def Let_def split: prod.split)
  have none: "hist_latest h k = None" using assms by (simp add: store_repr_def)
  then have "item_repr h e k (placeholder_item k)" for e
    using hist_latest_None_iff[of h k] by (auto simp: item_repr_def placeholder_item_def)
  moreover have "index_wf ?s"
    using store_reprD(1)[OF assms(1)] assms(2) by (intro index_wf_insert_item) (simp_all add: placeholder_item_def)
  moreover have "r \<noteq> next_item s" if "tree_map s k' = Some r" for k' r
    using index_wf_tree_map(1)[OF store_reprD(1)[OF assms(1)] that] by simp
  ultimately show ?thesis
    using assms unfolding store_repr_def eqs by auto
qed

lemma set_entry_repr:
  assumes "store_repr s h" "set_entry s k = (s1, r, is_new)"
  shows "store_repr s1 h" "tree_map s1 k = Some r" "item_key (tree_items s1 r) = k"
    "values_by_revision s1 = values_by_revision s" "notify_tx s1 = notify_tx s"
    "watchers s1 = watchers s" "wal_default_mode s1 = wal_default_mode s"
    "next_notify s1 = next_notify s" "is_new = (tree_map s k = None)"
proof -
  have "store_repr s1 h \<and> tree_map s1 k = Some r \<and> values_by_revision s1 = values_by_revision s \<and>
      notify_tx s1 = notify_tx s \<and> watchers s1 = watchers s \<and>
      wal_default_mode s1 = wal_default_mode s \<and> next_notify s1 = next_notify s \<and>
      is_new = (tree_map s k = None)"
    using assms store_repr_insert_placeholder[OF assms(1), of k]
    by (auto simp: set_entry_def insert_item_def Let_def split: option.splits prod.splits)
  then show "store_repr s1 h" "tree_map s1 k = Some r" "item_key (tree_items s1 r) = k"
    "values_by_revision s1 = values_by_revision s" "notify_tx s1 = notify_tx s"
    "watchers s1 = watchers s" "wal_default_mode s1 = wal_default_mode s"
    "next_notify s1 = next_notify s" "is_new = (tree_map s k = None)"
    using index_wf_tree_map(2) store_reprD(1) by blast+
qed

text \<open>Storing a value under the next revision: the common core of \<open>set\<close> and \<open>set_for_replay\<close>.\<close>

lemma log_append:
  assumes "store_repr s h" "nv = write_value (hist_latest h k) (int (length h) + 1) v"
  shows "\<exists>d1 d2. bd_push (values_by_revision s) placeholder_value = Returns (length h, d1) \<and>
    bd_set d1 (rev_index (int (length h) + 1)) nv = Returns (True, d2) \<and> bd_invar d2 \<and>
    earliest_revision d2 = earliest_revision (values_by_revision s) \<and>
    latest_revision d2 = length ((k, v) # h) \<and>
    bd_values d2 = drop (earliest_revision d2) (hist_values ((k, v) # h))"
  using vlog.push_then_put[OF store_reprD(2)[OF assms(1)], of placeholder_value nv]
    store_reprD[OF assms(1)] assms(2)
  by (auto simp: rev_index_of_slot)

lemma item_repr_mono: "item_repr h e k it \<Longrightarrow> e \<le> e' \<Longrightarrow> item_repr h e' k it"
  unfolding item_repr_def by (meson of_nat_le_iff order_trans)

lemma item_repr_other: "k' \<noteq> k \<Longrightarrow> item_repr ((k, v) # h) e k' it = item_repr h e k' it"
  by (simp add: item_repr_def)

lemma item_repr_written:
  assumes "latest_value it = write_value (hist_latest h k) (int (length h) + 1) v"
    "revisions it = filter (\<lambda>r. c \<le> r) (hist_revs h k) @ [int (length h) + 1]"
    "c \<le> int e" "e \<le> length h"
  shows "item_repr ((k, v) # h) e k it"
  using assms by (auto simp: item_repr_def intro!: exI[of _ c])

lemma commit_value_repr:
  fixes v :: "byte_array option"
  assumes r: "store_repr s h" and k: "tree_map s k = Some r"
    and revs: "\<exists>c \<le> compacted_revision s. revs = filter (\<lambda>x. c \<le> x) (hist_revs h k)"
  defines "n \<equiv> int (length h) + 1" and "nv \<equiv> write_value (hist_latest h k) (int (length h) + 1) v"
  shows "\<exists>d it. commit_value s r revs v =
      Returns (n, nv, s\<lparr>values_by_revision := d, tree_items := (tree_items s)(r := it)\<rparr>) \<and>
    store_repr (s\<lparr>values_by_revision := d, tree_items := (tree_items s)(r := it)\<rparr>) ((k, v) # h)"
proof -
  let ?e = "earliest_revision (values_by_revision s)"
  let ?it = "(tree_items s r)\<lparr>latest_value := nv, revisions := revs @ [n]\<rparr>"
  have nv: "new_value (latest_value (tree_items s r)) n v = nv"
    using new_value_repr[OF store_repr_item[OF r k]] by (simp add: nv_def n_def)
  obtain d1 d2 where d: "bd_push (values_by_revision s) placeholder_value = Returns (length h, d1)"
    "bd_set d1 (rev_index n) nv = Returns (True, d2)" "bd_invar d2" "earliest_revision d2 = ?e"
    "latest_revision d2 = length ((k, v) # h)" "bd_values d2 = drop ?e (hist_values ((k, v) # h))"
    using log_append[OF r, of nv k v] by (auto simp: nv_def n_def)
  let ?s = "s\<lparr>values_by_revision := d2, tree_items := (tree_items s)(r := ?it)\<rparr>"
  have it: "item_repr ((k, v) # h) ?e k ?it"
    using revs store_reprD(5)[OF r] by (auto simp: n_def nv_def compacted_revision_def intro!: item_repr_written)
  have other: "item_repr ((k, v) # h) ?e k' (tree_items ?s r')" if "tree_map s k' = Some r'" for k' r'
  proof (cases "k' = k")
    case True
    with that k it show ?thesis by simp
  next
    case False
    with that k store_reprD(1)[OF r] have "r' \<noteq> r" using index_wf_inj by metis
    with False store_repr_item[OF r that] show ?thesis by (simp add: item_repr_other)
  qed
  have "index_wf ?s"
    using index_wf_update_item[OF store_reprD(1)[OF r], of ?it r]
      index_wf_cong[of ?s "s\<lparr>tree_items := (tree_items s)(r := ?it)\<rparr>"] by simp
  moreover have "hist_latest ((k, v) # h) k' = None" if "tree_map s k' = None" for k'
    using r that k by (auto simp: store_repr_def)
  ultimately have "store_repr ?s ((k, v) # h)"
    using d(3-6) other unfolding store_repr_def by (auto simp del: hist_latest.simps)
  moreover have "commit_value s r revs v = Returns (n, nv, ?s)"
    using d(1,2) nv by (simp add: commit_value_def n_def Let_def)
  ultimately show ?thesis by blast
qed

section \<open>The writes refine the history\<close>

lemma set_refused_iff:
  assumes "item_repr h e k it" "item_key it = k"
  shows "set_refused n it v required =
    (if admits (hist_live h k) v required then None
     else Some (n, map_option (\<lambda>x. as_mvcc_key_value x k) (hist_live h k)))"
  unfolding item_repr_latest[OF assms(1)] using assms(2)
  by (auto simp: set_refused_def admits_def Let_def not_le not_less)

lemma notify_watchers_frame:
  assumes "notify_watchers s k v old p = (s', w)"
  shows "store_repr s' h = store_repr s h"
    "w = (if wal_default_mode s = Some WalSync then Some (next_notify s) else None)"
    "\<exists>job. notify_tx s' = notify_tx s @ [job] \<and> job_rev job = mod_revision v \<and>
       job_watchers job = watchers_to_notify s k v \<and> wal_handled job = w \<and>
       prefix_str job = from_utf8_lossy p \<and>
       job_msg job = \<lparr>prev_kv = map_option (\<lambda>x. as_mvcc_key_value x k) old, kv = as_mvcc_key_value v k\<rparr>"
  by (rule store_repr_cong; use assms in \<open>auto simp: notify_watchers_def Let_def\<close>)
    (use assms in \<open>auto simp: notify_watchers_def Let_def\<close>)

lemma store_set_refused:
  assumes "store_repr s h" "\<not> admits (hist_live h k) v required"
  shows "\<exists>s'. store_set s k v required =
      Returns (s', Inl (int (length h), map_option (\<lambda>x. as_mvcc_key_value x k) (hist_live h k)), None) \<and>
    store_repr s' h \<and> notify_tx s' = notify_tx s"
proof -
  obtain s1 r is_new where e: "set_entry s k = (s1, r, is_new)" by (metis prod_cases3)
  note e' = set_entry_repr[OF assms(1) e]
  have "set_refused (int (length h)) (tree_items s1 r) v required =
      Some (int (length h), map_option (\<lambda>x. as_mvcc_key_value x k) (hist_live h k))"
    using set_refused_iff[OF store_repr_item[OF e'(1,2)] e'(3)] assms(2) by simp
  with e e' store_reprD(6)[OF assms(1)] show ?thesis
    by (auto simp: store_set_def)
qed

lemma store_set_admitted:
  assumes r: "store_repr s h" and adm: "admits (hist_live h k) v required"
  defines "nv \<equiv> write_value (hist_latest h k) (int (length h) + 1) v"
    and "old \<equiv> map_option (\<lambda>r. latest_value (tree_items s r)) (tree_map s k)"
    and "w \<equiv> (if wal_default_mode s = Some WalSync then Some (next_notify s) else None)"
  shows "\<exists>s' job. store_set s k v required = Returns (s', Inr (int (length h) + 1), w) \<and>
    store_repr s' ((k, v) # h) \<and> notify_tx s' = notify_tx s @ [job] \<and>
    job_rev job = int (length h) + 1 \<and> job_watchers job = watchers_to_notify s k nv \<and>
    wal_handled job = w \<and> prefix_str job = from_utf8_lossy (fst (prefix_split k)) \<and>
    job_msg job = \<lparr>prev_kv = map_option (\<lambda>x. as_mvcc_key_value x k) old, kv = as_mvcc_key_value nv k\<rparr>"
proof -
  obtain s1 ref is_new where e: "set_entry s k = (s1, ref, is_new)" by (metis prod_cases3)
  note e' = set_entry_repr[OF r e]
  let ?it = "tree_items s1 ref"
  have nr: "set_refused (int (length h)) ?it v required = None"
    using set_refused_iff[OF store_repr_item[OF e'(1,2)] e'(3)] adm by simp
  have "\<exists>c \<le> compacted_revision s1. drain_compacted (compacted_revision s1) (revisions ?it) =
      filter (\<lambda>x. c \<le> x) (hist_revs h k)"
    using item_repr_revs[OF store_repr_item[OF e'(1,2)]] drain_compacted_repr
    by (auto simp: compacted_revision_def)
  from commit_value_repr[OF e'(1,2) this, of v] obtain d it where
    c: "commit_value s1 ref (drain_compacted (compacted_revision s1) (revisions ?it)) v =
        Returns (int (length h) + 1, nv, s1\<lparr>values_by_revision := d, tree_items := (tree_items s1)(ref := it)\<rparr>)"
    and c': "store_repr (s1\<lparr>values_by_revision := d, tree_items := (tree_items s1)(ref := it)\<rparr>) ((k, v) # h)"
    unfolding nv_def by blast
  let ?s2 = "s1\<lparr>values_by_revision := d, tree_items := (tree_items s1)(ref := it)\<rparr>"
  have old: "(if is_new then None else Some (latest_value ?it)) = old"
    using e e'(9) by (auto simp: old_def set_entry_def split: option.splits)
  obtain s3 w' where nw: "notify_watchers ?s2 k nv old (fst (prefix_split k)) = (s3, w')" by fastforce
  note n = notify_watchers_frame[OF nw]
  have wt: "watchers_to_notify ?s2 k nv = watchers_to_notify s k nv"
    by (simp add: watchers_to_notify_def e'(6))
  have "w' = w" using n(2) e'(7,8) by (simp add: w_def)
  moreover have "store_set s k v required = Returns (s3, Inr (int (length h) + 1), w')"
    using e e'(3) nr c nw old store_reprD(6)[OF r] by (simp add: store_set_def)
  moreover have "mod_revision nv = int (length h) + 1" by (simp add: nv_def)
  ultimately show ?thesis using n c' wt e'(5) by auto
qed

lemma store_delete_eq: "store_delete s k required = store_set s k None required"
  by (simp add: store_delete_def)

lemma set_for_replay_repr:
  assumes r: "store_repr s h"
  shows "\<exists>s'. set_for_replay s k v = Returns s' \<and>
    store_repr s' (if v = None \<and> hist_live h k = None then h else (k, v) # h) \<and>
    notify_tx s' = notify_tx s"
proof (cases "tree_map s k")
  case (Some ref)
  note it = store_repr_item[OF r Some]
  have revs: "\<exists>c \<le> compacted_revision s. revisions (tree_items s ref) = filter (\<lambda>x. c \<le> x) (hist_revs h k)"
    using item_repr_revs[OF it] by (simp add: compacted_revision_def)
  show ?thesis
    using commit_value_repr[OF r Some revs, of v] item_repr_latest[OF it] r Some
    by (auto simp: set_for_replay_def Let_def)
next
  case None
  then have fresh: "hist_latest h k = None" "hist_revs h k = []" "hist_live h k = None"
    using r hist_latest_None_iff[of h k] by (auto simp: store_repr_def hist_live_def)
  show ?thesis
  proof (cases "v = None")
    case True
    with None r fresh show ?thesis by (simp add: set_for_replay_def)
  next
    case False
    let ?n = "int (length h) + 1"
    let ?nv = "\<lparr>create_revision = ?n, mod_revision = ?n, version = 1, val = v\<rparr>"
    let ?item = "\<lparr>item_key = k, revisions = [?n], latest_value = ?nv\<rparr>"
    have nv: "?nv = write_value (hist_latest h k) ?n v" by (simp add: fresh write_value_def)
    obtain d1 d2 where d: "bd_push (values_by_revision s) placeholder_value = Returns (length h, d1)"
      "bd_set d1 (rev_index ?n) ?nv = Returns (True, d2)" "bd_invar d2"
      "earliest_revision d2 = earliest_revision (values_by_revision s)"
      "latest_revision d2 = length ((k, v) # h)"
      "bd_values d2 = drop (earliest_revision d2) (hist_values ((k, v) # h))"
      using log_append[OF r nv] by blast
    let ?s1 = "s\<lparr>values_by_revision := d2\<rparr>" and ?s2 = "insert_item (s\<lparr>values_by_revision := d2\<rparr>) k ?item"
    have eqs: "values_by_revision ?s2 = d2" "tree_map ?s2 = (tree_map s)(k \<mapsto> next_item s)"
      "tree_items ?s2 = (tree_items s)(next_item s := ?item)" "notify_tx ?s2 = notify_tx s"
      by (simp_all add: insert_item_def Let_def split: prod.split)
    have wf1: "index_wf ?s1" using store_reprD(1)[OF r] index_wf_cong[of ?s1 s] by simp
    have "index_wf ?s2" by (rule index_wf_insert_item[OF wf1]) (simp_all add: None)
    moreover have "item_repr ((k, v) # h) (earliest_revision d2) k ?item"
      using store_reprD(5)[OF r] d(4) fresh nv
      by (intro item_repr_written[where c = "int (earliest_revision d2)"]) simp_all
    moreover have "r \<noteq> next_item s" if "tree_map s k' = Some r" for k' r
      using index_wf_tree_map(1)[OF store_reprD(1)[OF r] that] by simp
    ultimately have "store_repr ?s2 ((k, v) # h)"
      using r d(3-6) unfolding store_repr_def eqs
      by (auto simp: item_repr_other simp del: hist_latest.simps) (simp add: store_repr_def)
    with d(1,2) False None eqs(4) fresh show ?thesis
      by (auto simp: set_for_replay_def Let_def)
  qed
qed

section \<open>Compaction\<close>

lemma store_compact_repr:
  assumes r: "store_repr s h" and n: "compacted_revision s < n" "n \<le> int (length h)"
  shows "\<exists>d. store_compact s n = Returns (s\<lparr>values_by_revision := d\<rparr>, Inr ()) \<and>
    store_repr (s\<lparr>values_by_revision := d\<rparr>) h \<and> compacted_revision (s\<lparr>values_by_revision := d\<rparr>) = n - 1"
proof -
  let ?e = "earliest_revision (values_by_revision s)"
  have n': "1 \<le> n" "?e \<le> nat (n - 1)" "nat (n - 1) \<le> length h"
    using n by (auto simp: compacted_revision_def)
  from vlog.drop_law[OF store_reprD(2)[OF r] n'(2)] n'(3) store_reprD(3)[OF r] obtain d where
    d: "bd_remove_before (values_by_revision s) (nat (n - 1)) = Returns (Inr (), d)" "bd_invar d"
      "earliest_revision d = nat (n - 1)"
      "bd_values d = drop (nat (n - 1) - ?e) (bd_values (values_by_revision s))"
    by auto
  let ?s = "s\<lparr>values_by_revision := d\<rparr>"
  have "bd_values d = drop (nat (n - 1)) (hist_values h)"
    using d(4) store_reprD(4)[OF r] n'(2) by simp
  moreover have "latest_revision d = length h"
    using vlog.next_index[OF d(2)] d(3) calculation n'(3) by simp
  moreover have "item_repr h (nat (n - 1)) k (tree_items s q)" if "tree_map s k = Some q" for k q
    using store_repr_item[OF r that] n'(2) by (rule item_repr_mono)
  moreover have "index_wf ?s" using store_reprD(1)[OF r] index_wf_cong[of ?s s] by simp
  ultimately have "store_repr ?s h"
    using r d(2,3) by (simp add: store_repr_def)
  with d(1,3) n(2) n'(1) store_reprD(6)[OF r] show ?thesis
    by (auto simp: store_compact_def compacted_revision_def)
qed

lemma store_compact_already:
  assumes "store_repr s h" "1 \<le> n" "n \<le> compacted_revision s"
  shows "store_compact s n = Returns (s, Inl (Status Internal ''etcdserver: mvcc: compact failed'' []))"
proof -
  have "nat (n - 1) < start_offset (values_by_revision s)"
    using assms(2,3) by (simp add: compacted_revision_def earliest_revision_def)
  then have "bd_remove_before (values_by_revision s) (nat (n - 1)) = Returns (Inl (), values_by_revision s)"
    using bd_remove_before_out_of_range[OF bd_repr_self[OF store_reprD(2)[OF assms(1)]]] by blast
  with assms store_reprD(5,6)[OF assms(1)] show ?thesis
    by (simp add: store_compact_def compacted_revision_def)
qed

section \<open>Sequences of writes\<close>

text \<open>
  A client that issues unconditional puts and deletes one after the other, and the history this
  leaves: a delete of an absent key is refused and leaves no entry.
\<close>

fun store_writes :: "Store \<Rightarrow> (byte_array \<times> byte_array option) list \<Rightarrow> Store run" where
  "store_writes s [] = Returns s"
| "store_writes s ((k, v) # ws) = bind_run (store_set s k v None) (\<lambda>(s', _, _). store_writes s' ws)"

fun replay_writes :: "Store \<Rightarrow> (byte_array \<times> byte_array option) list \<Rightarrow> Store run" where
  "replay_writes s [] = Returns s"
| "replay_writes s ((k, v) # ws) = bind_run (set_for_replay s k v) (\<lambda>s'. replay_writes s' ws)"

fun hist_writes :: "history \<Rightarrow> (byte_array \<times> byte_array option) list \<Rightarrow> history" where
  "hist_writes h [] = h"
| "hist_writes h ((k, v) # ws) =
     hist_writes (if v = None \<and> hist_live h k = None then h else (k, v) # h) ws"

lemma admits_unconditional: "admits live v None \<longleftrightarrow> \<not> (v = None \<and> live = None)"
  by (auto simp: admits_def required_rev_def required_ver_def split: option.split)

lemma store_set_unconditional:
  assumes "store_repr s h"
  shows "\<exists>s' res w. store_set s k v None = Returns (s', res, w) \<and>
    store_repr s' (if v = None \<and> hist_live h k = None then h else (k, v) # h)"
  using store_set_admitted[OF assms, of k v None] store_set_refused[OF assms, of k v None]
  by (auto simp: admits_unconditional)

lemma store_writes_repr:
  "store_repr s h \<Longrightarrow> \<exists>s'. store_writes s ws = Returns s' \<and> store_repr s' (hist_writes h ws)"
proof (induction ws arbitrary: s h)
  case (Cons w ws)
  obtain k v where w: "w = (k, v)" by fastforce
  from store_set_unconditional[OF Cons.prems, of k v] obtain s' res x where
    "store_set s k v None = Returns (s', res, x)"
    "store_repr s' (if v = None \<and> hist_live h k = None then h else (k, v) # h)" by blast
  with Cons.IH[OF this(2)] show ?case by (simp add: w)
qed simp

lemma replay_writes_repr:
  "store_repr s h \<Longrightarrow> \<exists>s'. replay_writes s ws = Returns s' \<and> store_repr s' (hist_writes h ws) \<and>
     notify_tx s' = notify_tx s"
proof (induction ws arbitrary: s h)
  case (Cons w ws)
  obtain k v where w: "w = (k, v)" by fastforce
  from set_for_replay_repr[OF Cons.prems, of k v] obtain s' where
    "set_for_replay s k v = Returns s'" "notify_tx s' = notify_tx s"
    "store_repr s' (if v = None \<and> hist_live h k = None then h else (k, v) # h)" by blast
  with Cons.IH[OF this(3)] show ?case by (auto simp: w)
qed simp

text \<open>Every entry of a history made this way is a write that was admitted, so replaying it keeps it whole.\<close>

lemma hist_writes_snoc:
  "hist_writes h (ws @ [(k, v)]) =
     (let h' = hist_writes h ws in if v = None \<and> hist_live h' k = None then h' else (k, v) # h')"
  by (induction h ws rule: hist_writes.induct) (simp_all add: Let_def)

fun admitted_history :: "history \<Rightarrow> bool" where
  "admitted_history [] = True"
| "admitted_history ((k, v) # h) = (\<not> (v = None \<and> hist_live h k = None) \<and> admitted_history h)"

lemma hist_writes_admitted: "admitted_history h \<Longrightarrow> admitted_history (hist_writes h ws)"
  by (induction h ws rule: hist_writes.induct) auto

lemma replay_admitted: "admitted_history h \<Longrightarrow> hist_writes [] (rev h) = h"
  by (induction h rule: admitted_history.induct) (auto simp: hist_writes_snoc Let_def)

section \<open>An example store\<close>

text \<open>A store with blocks of two values, after five writes; the fifth deletes the second key.\<close>

definition key_a :: byte_array where "key_a = bytes ''/registry/pods/a''"
definition key_b :: byte_array where "key_b = bytes ''/registry/pods/b''"

definition example_writes :: "(byte_array \<times> byte_array option) list" where
  "example_writes = [(key_a, Some [1]), (key_b, Some [2]), (key_a, Some [3]), (key_a, Some [4]), (key_b, None)]"

definition example_store :: Store where
  "example_store = the (returned (store_writes (store_init 2 None) example_writes))"

definition example_history :: history where
  "example_history = hist_writes [] example_writes"

lemma example_repr: "store_repr example_store example_history"
  using store_writes_repr[OF store_repr_init[of 2 None], of example_writes]
  by (auto simp: example_store_def example_history_def)

lemma example_facts:
  "length example_history = 5" "hist_live example_history key_b = None"
  "hist_live example_history key_a =
     Some \<lparr>create_revision = 1, mod_revision = 4, version = 3, val = Some [4]\<rparr>"
  "hist_latest example_history key_a =
     Some \<lparr>create_revision = 1, mod_revision = 4, version = 3, val = Some [4]\<rparr>"
  "compacted_revision example_store = 0" "wal_default_mode example_store = None"
  "prefix_split key_a = (bytes ''/registry/pods/'', [97])"
  by code_simp+

section \<open>Properties\<close>

text \<open>
  C1: \<open>set\<close> against the history. A write whose requirements hold for the live value of the key is
  given the next revision and extends the history by exactly that write; any other write returns
  the current revision and the live value of the key, and leaves the history as it was. No call
  panics.
\<close>

theorem store_set_refines_history:
  assumes "store_repr s h"
  shows "\<exists>s' w. if admits (hist_live h k) v required
    then store_set s k v required = Returns (s', Inr (int (length h) + 1), w) \<and> store_repr s' ((k, v) # h)
    else store_set s k v required =
        Returns (s', Inl (int (length h), map_option (\<lambda>x. as_mvcc_key_value x k) (hist_live h k)), w) \<and>
      store_repr s' h"
  using store_set_admitted[OF assms, of k v required] store_set_refused[OF assms, of k v required] by auto

theorem store_set_refines_history_witness:
  "(\<exists>s' w. store_set example_store key_b None None = Returns (s', Inl (5, None), w) \<and>
     store_repr s' example_history) \<and>
   (\<exists>s' w. store_set example_store key_a (Some [9])
       (Some \<lparr>required_last_revision = Some 4, required_version = None, compare_result = 0\<rparr>) =
       Returns (s', Inr 6, w) \<and>
     store_repr s' ((key_a, Some [9]) # example_history))"
  using store_set_refines_history[OF example_repr, of key_b None None]
    store_set_refines_history[OF example_repr, of key_a "Some [9]"
      "Some \<lparr>required_last_revision = Some 4, required_version = None, compare_result = 0\<rparr>"]
  by (simp add: example_facts admits_def required_rev_def required_ver_def required_cmp_def cmp_satisfied_def)

text \<open>
  The notification job of a write. An admitted write queues exactly one job, after those already
  queued; it carries the write's revision, the new key-value, the prefix of the key, and the
  previous value that the item held. A refused write queues none.
\<close>

lemma store_set_job:
  assumes "store_repr s h"
  shows "\<exists>s' res w. store_set s k v required = Returns (s', res, w) \<and>
    (if admits (hist_live h k) v required
     then \<exists>job. notify_tx s' = notify_tx s @ [job] \<and> job_rev job = int (length h) + 1 \<and>
        prefix_str job = from_utf8_lossy (fst (prefix_split k)) \<and> wal_handled job = w \<and>
        (w = None \<longleftrightarrow> wal_default_mode s \<noteq> Some WalSync) \<and>
        kv (job_msg job) = as_mvcc_key_value (write_value (hist_latest h k) (int (length h) + 1) v) k \<and>
        (hist_latest h k \<noteq> None \<longrightarrow>
           prev_kv (job_msg job) = map_option (\<lambda>x. as_mvcc_key_value x k) (hist_latest h k))
     else notify_tx s' = notify_tx s)"
proof (cases "admits (hist_live h k) v required")
  case True
  have "map_option (\<lambda>r. latest_value (tree_items s r)) (tree_map s k) = hist_latest h k" if "hist_latest h k \<noteq> None"
    using that assms store_repr_item[OF assms, of k]
    by (cases "tree_map s k") (auto simp: store_repr_def item_repr_def)
  with store_set_admitted[OF assms True] True show ?thesis
    by (auto simp del: map_option_eq_Some split del: if_split)
next
  case False
  with store_set_refused[OF assms False] show ?thesis by auto
qed

lemma store_set_job_witness:
  "\<exists>s' res job. store_set example_store key_a (Some [9]) None = Returns (s', res, None) \<and>
     notify_tx s' = notify_tx example_store @ [job] \<and> job_rev job = 6 \<and>
     prefix_str job = from_utf8_lossy (bytes ''/registry/pods/'') \<and>
     kv (job_msg job) = as_mvcc_key_value
       \<lparr>create_revision = 1, mod_revision = 6, version = 4, val = Some [9]\<rparr> key_a"
  using store_set_job[OF example_repr, of key_a "Some [9]" None]
  by (auto simp: example_facts admits_unconditional write_value_def)

text \<open>
  Replay equals execution. From a new store, any sequence of unconditional puts and deletes run
  through \<open>set\<close>, and the same sequence run through \<open>set_for_replay\<close>, both return, and the two
  stores hold the same history of revisions, values and versions; the replay queues no job.
\<close>

lemma replay_equals_execution:
  assumes "0 < bs"
  shows "\<exists>s t h. store_writes (store_init bs mode) ws = Returns s \<and>
    replay_writes (store_init bs mode) ws = Returns t \<and>
    store_repr s h \<and> store_repr t h \<and> notify_tx t = []"
  using store_writes_repr[OF store_repr_init[OF assms, of mode], of ws]
    replay_writes_repr[OF store_repr_init[OF assms, of mode], of ws]
  by (auto simp: store_init_def)

lemma replay_equals_execution_witness:
  "\<exists>s t h. store_writes (store_init 2 (Some WalSync)) example_writes = Returns s \<and>
    replay_writes (store_init 2 (Some WalSync)) example_writes = Returns t \<and>
    store_repr s h \<and> store_repr t h \<and> notify_tx t = []"
  by (rule replay_equals_execution) simp

text \<open>
  C31: \<open>compact\<close> on every branch. A revision below 1 or in the future, and one that is already
  compacted, are errors that leave the store as it was; otherwise the revisions before it are
  dropped from the value log, the compacted revision becomes the one before it, and the history,
  hence every current value, is untouched.
\<close>

lemma store_compact_cases:
  assumes "store_repr s h"
  shows "if r < 1 \<or> int (length h) < r
    then store_compact s r =
      Returns (s, Inl (Status OutOfRange ''etcdserver: mvcc: required revision has been compacted'' []))
    else if r \<le> compacted_revision s
    then store_compact s r = Returns (s, Inl (Status Internal ''etcdserver: mvcc: compact failed'' []))
    else \<exists>s'. store_compact s r = Returns (s', Inr ()) \<and> store_repr s' h \<and>
      compacted_revision s' = r - 1 \<and> current s' = current s"
proof -
  have "current (s\<lparr>values_by_revision := d\<rparr>) = current s" for d by (simp add: current_def fun_eq_iff)
  then show ?thesis
    using store_compact_repr[OF assms, of r] store_compact_already[OF assms, of r] store_reprD(6)[OF assms]
    by (auto simp: store_compact_def)
qed

lemma store_compact_cases_witness:
  "\<exists>s'. store_compact example_store 3 = Returns (s', Inr ()) \<and> store_repr s' example_history \<and>
     compacted_revision s' = 2 \<and> current s' = current example_store"
  using store_compact_cases[OF example_repr, of 3] by (simp add: example_facts)

end
