(* ===== verification/Store_Read.thy ===== *)
theory Store_Read
  imports Store_Write
begin

text \<open>
  \<open>Store::range\<close> of \<open>src/store.rs\<close> with \<open>find_value_for_revision\<close> and \<open>has_value_for_revision\<close>.
  The two \<open>assert!(rev > 0)\<close> are \<open>Panics\<close>. The lemmas compute a range from the history: which keys
  it returns, in which order, with which values, and how many it counts.
\<close>

section \<open>Reading one item\<close>

definition find_value_for_revision :: "Store \<Rightarrow> TreeItem \<Rightarrow> i64 \<Rightarrow> Value option run" where
  "find_value_for_revision s item r =
     (if \<not> 0 < r then Panics
      else if mod_revision (latest_value item) \<le> r then Returns (Some (latest_value item))
      else case binary_search (revisions item) r of
             Inr i \<Rightarrow> bd_get (values_by_revision s) (rev_index (revisions item ! i))
           | Inl i \<Rightarrow>
               if 0 < i then bd_get (values_by_revision s) (rev_index (revisions item ! (i - 1)))
               else Returns None)"

definition has_value_for_revision :: "Store \<Rightarrow> TreeItem \<Rightarrow> i64 \<Rightarrow> bool run" where
  "has_value_for_revision s item r =
     (if \<not> 0 < r then Panics
      else if mod_revision (latest_value item) \<le> r then Returns (val (latest_value item) \<noteq> None)
      else case binary_search (revisions item) r of
             Inr i \<Rightarrow> bd_get_with (values_by_revision s) (rev_index (revisions item ! i))
                      (\<lambda>x. case x of None \<Rightarrow> False | Some v \<Rightarrow> val v \<noteq> None)
           | Inl i \<Rightarrow>
               if 0 < i then bd_get_with (values_by_revision s) (rev_index (revisions item ! (i - 1)))
                      (\<lambda>x. case x of None \<Rightarrow> False | Some v \<Rightarrow> val v \<noteq> None)
               else Returns False)"

section \<open>range\<close>

fun range_loop ::
    "Store \<Rightarrow> byte_array \<Rightarrow> i64 \<Rightarrow> usize \<Rightarrow> (byte_array \<times> item_ref) list \<Rightarrow> usize \<Rightarrow> KeyValue list \<Rightarrow>
       (KeyValue list \<times> usize) run" where
  "range_loop s prefix r limit [] n results = Returns (results, n)"
| "range_loop s prefix r limit ((key, ref) # es) n results =
     (let item = tree_items s ref in
      if limit < n then
        bind_run (has_value_for_revision s item r)
          (\<lambda>b. range_loop s prefix r limit es (if b then n + 1 else n) results)
      else if n = limit then
        bind_run (has_value_for_revision s item r)
          (\<lambda>b. range_loop s prefix r limit es (if b then n + 1 else n) results)
      else
        bind_run (find_value_for_revision s item r)
          (\<lambda>found. case found of
              Some v \<Rightarrow>
                if val v \<noteq> None
                then range_loop s prefix r limit es (n + 1)
                       (if length results < limit
                        then results @ [as_mvcc_key_value v (prefix @ key)] else results)
                else range_loop s prefix r limit es n results
            | None \<Rightarrow> range_loop s prefix r limit es n results))"

definition ErrFutureRev :: status where
  "ErrFutureRev = Status OutOfRange ''etcdserver: mvcc: required revision is a future revision'' []"

definition ErrCompacted :: status where
  "ErrCompacted = Status OutOfRange ''etcdserver: mvcc: required revision has been compacted'' []"

definition store_range ::
    "Store \<Rightarrow> byte_array \<Rightarrow> byte_array \<Rightarrow> i64 \<Rightarrow> usize option \<Rightarrow> (status + RangeResult) run" where
  "store_range s start end r limit_opt =
     (let limit = (case limit_opt of None \<Rightarrow> usize_MAX | Some l \<Rightarrow> l);
          latest = current_revision s
      in if latest < r then Returns (Inl ErrFutureRev)
         else if 0 < r \<and> r \<le> compacted_revision s then Returns (Inl ErrCompacted)
         else let r' = (if r = 0 then latest else r) in
           case prefix_and_range_of_key start end of
             Inl e \<Rightarrow> Returns (Inl e)
           | Inr (prefix, lo, hi) \<Rightarrow>
               (case prefix_map s prefix of
                  Some btree \<Rightarrow>
                    bind_run (btree_range lo hi btree)
                      (\<lambda>es. bind_run (range_loop s prefix r' limit es 0 [])
                         (\<lambda>(results, n).
                            Returns (Inr \<lparr>kvs = results, latest_rev = latest, count = int n\<rparr>)))
                | None \<Rightarrow> Returns (Inr \<lparr>kvs = [], latest_rev = latest, count = 0\<rparr>)))"

section \<open>What can still be read\<close>

text \<open>
  What a read of key \<open>k\<close> at revision \<open>n\<close> finds after history \<open>h\<close>, when the values before index
  \<open>e\<close> were dropped by compaction: the value of the key at that revision, if its slot is still
  there or it is the latest value of the key, which the item keeps.
\<close>

definition readable :: "history \<Rightarrow> nat \<Rightarrow> nat \<Rightarrow> byte_array \<Rightarrow> Value option" where
  "readable h e n k =
     Option.bind (hist_live (hist_at h n) k)
       (\<lambda>v. if int e < mod_revision v \<or> hist_latest h k = Some v then Some v else None)"

lemma hist_live_SomeD: "hist_live h k = Some v \<Longrightarrow> hist_latest h k = Some v \<and> val v \<noteq> None"
  by (auto simp: hist_live_def bind_eq_Some_conv split: if_splits)

lemma readable_uncompacted: "readable h 0 n k = hist_live (hist_at h n) k"
  using hist_latest_mod_le by (fastforce simp: readable_def dest: hist_live_SomeD split: bind_split)

lemma readable_now: "length h \<le> n \<Longrightarrow> readable h e n k = hist_live h k"
  by (auto simp: readable_def dest: hist_live_SomeD split: bind_split)

section \<open>Searching the revisions of an item\<close>

lemma binary_search_Cons:
  "binary_search (y # ys) x =
     (if y < x then (case binary_search ys x of Inr i \<Rightarrow> Inr (Suc i) | Inl i \<Rightarrow> Inl (Suc i))
      else if y = x then Inr 0 else Inl 0)"
  by (auto simp: binary_search_def partition_point_def Let_def)

lemma binary_search_floor:
  fixes x :: "'a::linorder"
  assumes "sorted_wrt (<) xs"
  defines "fs \<equiv> filter (\<lambda>y. y \<le> x) xs"
  shows "case binary_search xs x of
      Inr i \<Rightarrow> fs \<noteq> [] \<and> xs ! i = last fs
    | Inl 0 \<Rightarrow> fs = []
    | Inl (Suc i) \<Rightarrow> fs \<noteq> [] \<and> xs ! i = last fs"
  using assms(1) unfolding fs_def
proof (induction xs)
  case Nil
  then show ?case by (simp add: binary_search_def partition_point_def)
next
  case (Cons y ys)
  then have *: "y = x \<Longrightarrow> filter (\<lambda>z. z \<le> x) ys = []" "x < y \<Longrightarrow> filter (\<lambda>z. z \<le> x) ys = []"
    by (fastforce simp: filter_empty_conv)+
  from Cons have "case binary_search ys x of
      Inr i \<Rightarrow> filter (\<lambda>z. z \<le> x) ys \<noteq> [] \<and> ys ! i = last (filter (\<lambda>z. z \<le> x) ys)
    | Inl 0 \<Rightarrow> filter (\<lambda>z. z \<le> x) ys = []
    | Inl (Suc i) \<Rightarrow> filter (\<lambda>z. z \<le> x) ys \<noteq> [] \<and> ys ! i = last (filter (\<lambda>z. z \<le> x) ys)"
    by simp
  with * show ?case
    by (auto simp: binary_search_Cons not_less_iff_gr_or_eq split: sum.splits nat.splits)
qed

text \<open>The slot both readers look up: that of the greatest kept revision not above the requested one.\<close>

definition floor_slot :: "i64 list \<Rightarrow> i64 \<Rightarrow> usize option" where
  "floor_slot revs r =
     (let fs = filter (\<lambda>x. x \<le> r) revs in if fs = [] then None else Some (rev_index (last fs)))"

lemma search_slot:
  assumes "sorted_wrt (<) revs"
  shows "(case binary_search revs r of
      Inr i \<Rightarrow> f (rev_index (revs ! i))
    | Inl i \<Rightarrow> if 0 < i then f (rev_index (revs ! (i - 1))) else z) =
    (case floor_slot revs r of Some j \<Rightarrow> f j | None \<Rightarrow> z)"
  using binary_search_floor[OF assms, of r]
  by (auto simp: floor_slot_def Let_def split: sum.splits nat.splits)

lemma sorted_item_revs: "item_repr h e k it \<Longrightarrow> sorted_wrt (<) (revisions it)"
  using sorted_wrt_filter[OF hist_revs_ascending] by (auto simp: item_repr_def)

lemma find_value_slot:
  assumes "item_repr h e k it" "0 < r"
  shows "find_value_for_revision s it r =
    (if mod_revision (latest_value it) \<le> r then Returns (Some (latest_value it))
     else case floor_slot (revisions it) r of
            Some j \<Rightarrow> bd_get (values_by_revision s) j | None \<Rightarrow> Returns None)"
  using assms(2) search_slot[OF sorted_item_revs[OF assms(1)], where r = r and z = "Returns None"
      and f = "bd_get (values_by_revision s)"]
  by (simp add: find_value_for_revision_def)

lemma has_value_slot:
  assumes "item_repr h e k it" "0 < r"
  shows "has_value_for_revision s it r =
    (if mod_revision (latest_value it) \<le> r then Returns (val (latest_value it) \<noteq> None)
     else case floor_slot (revisions it) r of
            Some j \<Rightarrow> bd_get_with (values_by_revision s) j
              (\<lambda>x. case x of None \<Rightarrow> False | Some v \<Rightarrow> val v \<noteq> None)
          | None \<Rightarrow> Returns False)"
  using assms(2) search_slot[OF sorted_item_revs[OF assms(1)], where r = r and z = "Returns False"
      and f = "\<lambda>j. bd_get_with (values_by_revision s) j (\<lambda>x. case x of None \<Rightarrow> False | Some v \<Rightarrow> val v \<noteq> None)"]
  by (simp add: has_value_for_revision_def)

section \<open>Reading one key\<close>

abbreviation live_part :: "Value \<Rightarrow> Value option" where
  "live_part v \<equiv> if val v = None then None else Some v"

lemma hist_live_alt: "hist_live h k = Option.bind (hist_latest h k) live_part"
  by (simp add: hist_live_def)

lemma last_filter_ge:
  fixes xs :: "int list"
  assumes "sorted xs"
  shows "filter (\<lambda>x. c \<le> x) xs = [] \<and> (xs = [] \<or> last xs < c) \<or>
    filter (\<lambda>x. c \<le> x) xs \<noteq> [] \<and> xs \<noteq> [] \<and> c \<le> last xs \<and> last (filter (\<lambda>x. c \<le> x) xs) = last xs"
proof (cases xs rule: rev_cases)
  case (snoc ys y)
  then have "\<forall>x\<in>set ys. x \<le> y" using assms by (simp add: sorted_append)
  then have "y < c \<Longrightarrow> filter (\<lambda>x. c \<le> x) ys = []" by (auto simp: filter_empty_conv)
  with snoc show ?thesis by (cases "c \<le> y") auto
qed simp

lemma floor_slot_repr:
  assumes "revs = filter (\<lambda>x. c \<le> x) (hist_revs h k)" "n \<le> length h"
  shows "floor_slot revs (int n) =
    (case hist_latest (hist_at h n) k of
       None \<Rightarrow> None
     | Some v \<Rightarrow> if c \<le> mod_revision v then Some (nat (mod_revision v - 1)) else None)"
proof -
  let ?rs = "hist_revs (hist_at h n) k"
  have fs: "filter (\<lambda>x. x \<le> int n) revs = filter (\<lambda>x. c \<le> x) ?rs"
    using assms by (simp add: hist_revs_at conj_commute)
  note l = last_filter_ge[OF hist_revs_sorted, of c "hist_at h n" k]
  show ?thesis
  proof (cases "hist_latest (hist_at h n) k")
    case None
    then have "?rs = []" by (simp add: hist_latest_None_iff)
    with None fs show ?thesis by (simp add: floor_slot_def)
  next
    case (Some v)
    with hist_latest_mod[OF Some] hist_latest_mod_le[OF Some] l fs show ?thesis
      by (auto simp: floor_slot_def rev_index_def Let_def)
  qed
qed

lemma log_get:
  assumes "log_ok F h d" "1 \<le> g" "g \<le> int (length h)" "nat (g - 1) \<notin> F"
  shows "bd_get_with d (nat (g - 1)) f =
    Returns (f (if int (earliest_revision d) < g then Some (hist_values h ! nat (g - 1)) else None))"
proof -
  note d = log_okD[OF assms(1)]
  have "int (earliest_revision d) < g \<longleftrightarrow> earliest_revision d \<le> nat (g - 1)" using assms(2) by auto
  moreover have "earliest_revision d \<le> nat (g - 1) \<Longrightarrow> bd_values d ! (nat (g - 1) - earliest_revision d) = hist_values h ! nat (g - 1)"
    using assms by (simp add: log_ok_def)
  ultimately show ?thesis
    using bd_get_with_refines[OF bd_repr_self[OF d(1)], of "nat (g - 1)" f] d(4) assms(2,3)
    by (auto simp: earliest_revision_def)
qed

lemma log_get_version:
  assumes "log_ok F h d" "hist_latest (hist_at h n) k = Some v" "n \<le> length h" "nat (mod_revision v - 1) \<notin> F"
  shows "bd_get_with d (nat (mod_revision v - 1)) f =
    Returns (f (if int (earliest_revision d) < mod_revision v then Some v else None))"
proof -
  have "1 \<le> mod_revision v" "mod_revision v \<le> int (length h)"
    using hist_latest_mod_le[OF assms(2)] assms(3) by simp_all
  moreover have "hist_values h ! nat (mod_revision v - 1) = v"
    using hist_latest_at[OF assms(3), of k] assms(2) hist_latest_mod[OF assms(2)]
      hist_revs_at[OF assms(3), of k]
    by (auto simp: Let_def split: if_splits)
  ultimately show ?thesis using log_get[OF assms(1), of "mod_revision v" f] assms(4) by simp
qed

text \<open>An item whose latest value is not newer than the requested revision answers with that value.\<close>

lemma readable_latest:
  assumes "item_repr h e k it" "n \<le> length h" "mod_revision (latest_value it) \<le> int n"
  shows "readable h e n k = live_part (latest_value it)"
proof (cases "hist_latest h k")
  case None
  then have "hist_latest (hist_at h n) k = None"
    using hist_latest_at[OF assms(2), of k] hist_latest_None_iff[of h k] by simp
  with None assms(1) show ?thesis by (simp add: item_repr_def readable_def hist_live_alt placeholder_item_def)
next
  case (Some v)
  then have "hist_latest (hist_at h n) k = Some v"
    using hist_latest_at_latest[OF Some _ assms(2)] assms(1,3) by (simp add: item_repr_def)
  with Some assms(1) show ?thesis by (simp add: item_repr_def readable_def hist_live_alt)
qed

lemma read_newer_item:
  assumes log: "log_ok F h (values_by_revision s)" and it: "item_repr h (earliest_revision (values_by_revision s)) k it"
    and n: "1 \<le> n" "n \<le> length h" and new: "\<not> mod_revision (latest_value it) \<le> int n"
    and filled: "\<And>v. hist_latest (hist_at h n) k = Some v \<Longrightarrow> nat (mod_revision v - 1) \<notin> F"
  defines "e \<equiv> earliest_revision (values_by_revision s)"
  shows "\<exists>ov. find_value_for_revision s it (int n) = Returns ov \<and> Option.bind ov live_part = readable h e n k \<and>
      has_value_for_revision s it (int n) = Returns (readable h e n k \<noteq> None)"
proof -
  have n0: "0 < int n" using n(1) by simp
  note fv = find_value_slot[OF it n0, of s] and hv = has_value_slot[OF it n0, of s]
  obtain v0 where v0: "hist_latest h k = Some v0" "int n < mod_revision v0"
    using new it by (auto simp: item_repr_def placeholder_item_def split: option.splits)
  obtain c where c: "c \<le> int e" "revisions it = filter (\<lambda>x. c \<le> x) (hist_revs h k)"
    using item_repr_revs[OF it] by (auto simp: e_def)
  note fs = floor_slot_repr[OF c(2) n(2)]
  show ?thesis
  proof (cases "hist_latest (hist_at h n) k")
    case None
    with new fv hv fs show ?thesis by (simp add: readable_def hist_live_alt)
  next
    case (Some v)
    have "mod_revision v \<le> int n" using hist_latest_mod_le[OF Some] n(2) by simp
    with v0 have "v0 \<noteq> v" by auto
    with Some v0(1) have "readable h e n k = (if int e < mod_revision v then live_part v else None)"
      by (simp add: readable_def hist_live_alt)
    with new fv hv fs Some c(1) show ?thesis
      by (auto simp: bd_get_def e_def log_get_version[OF log Some n(2) filled[OF Some]])
  qed
qed

lemma read_item_of:
  assumes log: "log_ok F h (values_by_revision s)" and it: "item_repr h (earliest_revision (values_by_revision s)) k it"
    and n: "1 \<le> n" "n \<le> length h"
    and filled: "\<And>v. hist_latest (hist_at h n) k = Some v \<Longrightarrow> nat (mod_revision v - 1) \<notin> F"
  defines "e \<equiv> earliest_revision (values_by_revision s)"
  shows "\<exists>ov. find_value_for_revision s it (int n) = Returns ov \<and> Option.bind ov live_part = readable h e n k \<and>
      has_value_for_revision s it (int n) = Returns (readable h e n k \<noteq> None)"
proof (cases "mod_revision (latest_value it) \<le> int n")
  case True
  with readable_latest[OF it n(2)] n(1) show ?thesis
    by (auto simp: e_def find_value_for_revision_def has_value_for_revision_def)
next
  case False
  from read_newer_item[OF log it n False filled] show ?thesis by (simp add: e_def)
qed

lemma read_item:
  assumes s: "store_repr s h" and k: "tree_map s k = Some ref" and n: "1 \<le> n" "n \<le> length h"
  defines "e \<equiv> earliest_revision (values_by_revision s)"
  shows "\<exists>ov. find_value_for_revision s (tree_items s ref) (int n) = Returns ov \<and>
      Option.bind ov live_part = readable h e n k"
    and "has_value_for_revision s (tree_items s ref) (int n) = Returns (readable h e n k \<noteq> None)"
  using read_item_of[OF store_repr_log[OF s] store_repr_item[OF s k] n] by (auto simp: e_def)

section \<open>Reading a range\<close>

text \<open>The key-values that a scan of the entries \<open>es\<close> of prefix \<open>p\<close> can return, in order.\<close>

definition visible :: "history \<Rightarrow> nat \<Rightarrow> nat \<Rightarrow> byte_array \<Rightarrow> (byte_array \<times> item_ref) list \<Rightarrow> KeyValue list" where
  "visible h e n p es =
     List.map_filter (\<lambda>(sfx, _). map_option (\<lambda>v. as_mvcc_key_value v (p @ sfx)) (readable h e n (p @ sfx))) es"

text \<open>What reading an item gives.\<close>

definition reads_item :: "Store \<Rightarrow> history \<Rightarrow> nat \<Rightarrow> nat \<Rightarrow> byte_array \<Rightarrow> item_ref \<Rightarrow> bool" where
  "reads_item s h e n k ref \<longleftrightarrow>
     (\<exists>ov. find_value_for_revision s (tree_items s ref) (int n) = Returns ov \<and> Option.bind ov live_part = readable h e n k) \<and>
     has_value_for_revision s (tree_items s ref) (int n) = Returns (readable h e n k \<noteq> None)"

lemma reads_items:
  assumes "store_repr s h" "1 \<le> n" "n \<le> length h" "\<forall>(sfx, ref)\<in>set es. tree_map s (p @ sfx) = Some ref"
  shows "\<forall>(sfx, ref)\<in>set es. reads_item s h (earliest_revision (values_by_revision s)) n (p @ sfx) ref"
  using assms(4) read_item[OF assms(1) _ assms(2,3)] unfolding reads_item_def by blast

lemma range_loop_visible:
  assumes es: "\<forall>(sfx, ref)\<in>set es. reads_item s h e n (p @ sfx) ref"
    and len: "length results = min c limit"
  shows "range_loop s p (int n) limit es c results =
    Returns (results @ take (limit - c) (visible h e n p es), c + length (visible h e n p es))"
  using es len
proof (induction es arbitrary: c results)
  case Nil
  then show ?case by (simp add: visible_def)
next
  case (Cons x es)
  obtain sfx ref where x: "x = (sfx, ref)" by fastforce
  let ?rd = "readable h e n (p @ sfx)"
  have IH: "range_loop s p (int n) limit es c' rs =
      Returns (rs @ take (limit - c') (visible h e n p es), c' + length (visible h e n p es))"
    if "length rs = min c' limit" for c' rs
    using Cons.IH[OF _ that] Cons.prems(1) by simp
  from Cons.prems(1) x obtain ov where ov: "find_value_for_revision s (tree_items s ref) (int n) = Returns ov"
    "Option.bind ov live_part = ?rd" and has: "has_value_for_revision s (tree_items s ref) (int n) = Returns (?rd \<noteq> None)"
    by (auto simp: reads_item_def)
  show ?case
  proof (cases "limit \<le> c")
    case True
    with Cons.prems(2) IH[of results "if ?rd \<noteq> None then c + 1 else c"] has show ?thesis
      by (auto simp: x visible_def List.map_filter_def Let_def)
  next
    case False
    have "length results < limit" using False Cons.prems(2) by simp
    with False Cons.prems(2) ov IH[of results c]
      IH[of "results @ [as_mvcc_key_value v (p @ sfx)]" "c + 1" for v]
    show ?thesis
      by (cases ov) (auto simp: x visible_def List.map_filter_def Let_def Suc_diff_Suc
          take_Cons' split: if_splits)
  qed
qed

lemma kv_key_mvcc [simp]: "kv_key (as_mvcc_key_value v k) = k"
  by (simp add: as_mvcc_key_value_def Let_def)

lemma readable_written: "n \<le> length h \<Longrightarrow> readable h e n k = Some v \<Longrightarrow> hist_latest h k \<noteq> None"
  using hist_revs_at[of n h k] hist_latest_None_iff[of h k] hist_latest_None_iff[of "hist_at h n" k]
  by (auto simp: readable_def hist_live_def bind_eq_Some_conv)

lemma readable_indexed:
  assumes "store_repr s h" "n \<le> length h" "readable h e n k = Some v"
  obtains ref where "tree_map s k = Some ref"
  using readable_written[OF assms(2,3)] assms(1) that
  by (cases "tree_map s k") (auto simp: store_repr_def)

lemma keys_visible:
  "map kv_key (visible h e n p es) = map (\<lambda>(sfx, _). p @ sfx) (filter (\<lambda>(sfx, _). readable h e n (p @ sfx) \<noteq> None) es)"
  by (induction es) (auto simp: visible_def List.map_filter_def)

lemma set_visible:
  "set (visible h e n p es) =
     {as_mvcc_key_value v (p @ sfx) | v sfx ref. (sfx, ref) \<in> set es \<and> readable h e n (p @ sfx) = Some v}"
  by (force simp: visible_def List.map_filter_def)

lemma visible_ascending:
  assumes "sorted_wrt (<) (map fst es)"
  shows "sorted_wrt (<) (map kv_key (visible h e n p es))"
proof -
  have "sorted_wrt (\<lambda>x y. p @ fst x < p @ fst y) es" using assms by (simp add: sorted_wrt_map)
  from sorted_wrt_filter[OF this, of "\<lambda>x. readable h e n (p @ fst x) \<noteq> None"] show ?thesis
    by (simp add: keys_visible sorted_wrt_map split_def)
qed

text \<open>The keys of a scan: those of the selected prefix with their suffix between the bounds.\<close>

definition in_scan :: "byte_array \<Rightarrow> byte_array bound \<Rightarrow> byte_array bound \<Rightarrow> byte_array \<Rightarrow> bool" where
  "in_scan p lo hi k \<longleftrightarrow> (case prefix_split k of (q, sfx) \<Rightarrow> q = p \<and> above lo sfx \<and> below hi sfx)"

lemma in_scan_alt: "in_scan p lo hi k \<longleftrightarrow> (\<exists>sfx. prefix_split k = (p, sfx) \<and> above lo sfx \<and> below hi sfx)"
  by (auto simp: in_scan_def split: prod.split)

lemma entries_in_scan:
  assumes "\<And>sfx ref. (sfx, ref) \<in> set es \<longleftrightarrow>
      tree_map s (p @ sfx) = Some ref \<and> prefix_split (p @ sfx) = (p, sfx) \<and> above lo sfx \<and> below hi sfx"
    and "tree_map s k = Some q"
  shows "(\<exists>sfx ref. (sfx, ref) \<in> set es \<and> k = p @ sfx) \<longleftrightarrow> in_scan p lo hi k"
proof
  assume "\<exists>sfx ref. (sfx, ref) \<in> set es \<and> k = p @ sfx"
  then show "in_scan p lo hi k" unfolding in_scan_alt using assms(1) by blast
next
  assume "in_scan p lo hi k"
  then obtain sfx where sfx: "prefix_split k = (p, sfx)" "above lo sfx" "below hi sfx"
    unfolding in_scan_alt by blast
  with prefix_split_key[OF sfx(1)] assms show "\<exists>sfx ref. (sfx, ref) \<in> set es \<and> k = p @ sfx" by metis
qed

definition range_answer ::
    "history \<Rightarrow> nat \<Rightarrow> nat \<Rightarrow> (byte_array \<Rightarrow> bool) \<Rightarrow> KeyValue list \<Rightarrow> bool" where
  "range_answer h e n wanted L \<longleftrightarrow>
     sorted_wrt (<) (map kv_key L) \<and>
     set L = {as_mvcc_key_value v k | k v. wanted k \<and> readable h e n k = Some v}"

lemma btree_scan_visible:
  fixes lo hi :: "byte_array bound"
  assumes s: "store_repr s h" and n: "n \<le> length h" and m: "prefix_map s p = Some m"
  defines "es \<equiv> filter (\<lambda>(k, _). above lo k \<and> below hi k) m"
  shows "\<forall>(sfx, ref)\<in>set es. tree_map s (p @ sfx) = Some ref"
    and "range_answer h e n (in_scan p lo hi) (visible h e n p es)"
proof -
  note wf = store_reprD(1)[OF s]
  have bm: "btree_wf m" using index_wf_prefix_btree[OF wf m] .
  have ent: "(sfx, ref) \<in> set es \<longleftrightarrow>
      tree_map s (p @ sfx) = Some ref \<and> prefix_split (p @ sfx) = (p, sfx) \<and> above lo sfx \<and> below hi sfx" for sfx ref
    using wf m bt.mem_entries_iff[OF bm, of sfx ref] index_wf_lookup[OF wf, of "p @ sfx" ref]
    by (auto simp: es_def index_wf_def)
  then show "\<forall>(sfx, ref)\<in>set es. tree_map s (p @ sfx) = Some ref" by auto
  have tm: "\<exists>ref. tree_map s k = Some ref" if "readable h e n k = Some v" for k v
    using readable_indexed[OF s n that] by blast
  have scan: "(\<exists>sfx ref. (sfx, ref) \<in> set es \<and> k = p @ sfx) \<longleftrightarrow> in_scan p lo hi k" if "tree_map s k = Some q" for k q
    by (rule entries_in_scan[OF ent that])
  have "set (visible h e n p es) =
      {as_mvcc_key_value v k | k v. in_scan p lo hi k \<and> readable h e n k = Some v}"
    unfolding set_visible using scan tm by blast
  then show "range_answer h e n (in_scan p lo hi) (visible h e n p es)"
    using visible_ascending[of es] bt.filter_entries_ascending[OF bm]
    by (simp add: range_answer_def es_def)
qed

lemma empty_scan:
  assumes "store_repr s h" "n \<le> length h" "prefix_map s p = None"
  shows "range_answer h e n (in_scan p lo hi) []"
proof -
  have "\<not> (in_scan p lo hi k \<and> readable h e n k = Some v)" for k v
    using readable_indexed[OF assms(1,2), of e k v] assms(3) index_wf_lookup[OF store_reprD(1)[OF assms(1)], of k]
    by (fastforce simp: in_scan_alt)
  then show ?thesis by (auto simp: range_answer_def)
qed

lemma store_range_answers:
  fixes lim :: "usize option"
  assumes s: "store_repr s h"
    and pr: "prefix_and_range_of_key start end = Inr (p, lo, hi)" "\<not> inverted lo hi"
    and r: "0 \<le> r" "r \<le> int (length h)" "r = 0 \<or> compacted_revision s < r" "h \<noteq> []"
  defines "n \<equiv> if r = 0 then length h else nat r"
    and "limit \<equiv> case lim of None \<Rightarrow> usize_MAX | Some l \<Rightarrow> l"
  shows "\<exists>L. store_range s start end r lim =
      Returns (Inr \<lparr>kvs = take limit L, latest_rev = int (length h), count = int (length L)\<rparr>) \<and>
    range_answer h (earliest_revision (values_by_revision s)) n (in_scan p lo hi) L"
proof -
  have n: "1 \<le> n" "n \<le> length h" "int n = (if r = 0 then int (length h) else r)"
    using r by (auto simp: n_def Suc_le_eq)
  show ?thesis
  proof (cases "prefix_map s p")
    case None
    with empty_scan[OF s n(2) None] pr(1) r store_reprD(6)[OF s] show ?thesis
      by (auto simp: store_range_def Let_def intro!: exI[of _ "[]"])
  next
    case (Some m)
    note sc = btree_scan_visible[OF s n(2) Some, where lo = lo and hi = hi]
    show ?thesis
      using range_loop_visible[OF reads_items[OF s n(1,2) sc(1)], of "[]" 0 limit] sc(2) pr r Some store_reprD(6)[OF s] n(3)
      by (auto simp: store_range_def Let_def btree_range_def limit_def)
  qed
qed

lemma store_range_future: "current_revision s < r \<Longrightarrow> store_range s start end r lim = Returns (Inl ErrFutureRev)"
  by (simp add: store_range_def Let_def)

lemma store_range_compacted:
  "0 < r \<Longrightarrow> r \<le> compacted_revision s \<Longrightarrow> r \<le> current_revision s \<Longrightarrow>
     store_range s start end r lim = Returns (Inl ErrCompacted)"
  by (simp add: store_range_def Let_def)

text \<open>A range over the empty end reads one key.\<close>

lemma range_answer_single:
  assumes "range_answer h e n (\<lambda>k'. k' = k) L"
  shows "L = (case readable h e n k of None \<Rightarrow> [] | Some v \<Rightarrow> [as_mvcc_key_value v k])"
proof -
  have "set L = (case readable h e n k of None \<Rightarrow> {} | Some v \<Rightarrow> {as_mvcc_key_value v k})"
    using assms by (auto simp: range_answer_def split: option.split)
  moreover have "distinct L"
    using assms by (auto simp: range_answer_def strict_sorted_iff distinct_map)
  ultimately show ?thesis
    by (cases L) (auto split: option.splits simp: distinct_singleton subset_singleton_iff)
qed

lemma store_range_single:
  assumes s: "store_repr s h" and h: "h \<noteq> []"
  shows "store_range s k [] 0 (Some (Suc l)) =
    Returns (Inr \<lparr>kvs = (case hist_live h k of None \<Rightarrow> [] | Some v \<Rightarrow> [as_mvcc_key_value v k]),
      latest_rev = int (length h), count = (if hist_live h k = None then 0 else 1)\<rparr>)"
proof -
  obtain p sfx where ps: "prefix_split k = (p, sfx)" by fastforce
  then have pr: "prefix_and_range_of_key k [] = Inr (p, Included sfx, Included sfx)"
    by (simp add: prefix_and_range_of_key_def)
  from store_range_answers[OF s pr, of 0 "Some (Suc l)"] h obtain L where
    L: "store_range s k [] 0 (Some (Suc l)) =
        Returns (Inr \<lparr>kvs = take (Suc l) L, latest_rev = int (length h), count = int (length L)\<rparr>)"
      "range_answer h (earliest_revision (values_by_revision s)) (length h) (in_scan p (Included sfx) (Included sfx)) L"
    by auto
  have "in_scan p (Included sfx) (Included sfx) = (\<lambda>k'. k' = k)"
    using range_of_key_single[OF pr] by (auto simp: in_scan_alt fun_eq_iff)
  with L(2) range_answer_single[of h _ "length h" k L] have "L = (case hist_live h k of None \<Rightarrow> [] | Some v \<Rightarrow> [as_mvcc_key_value v k])"
    by (simp add: readable_now)
  with L(1) show ?thesis by (auto split: option.splits)
qed

section \<open>When a range panics\<close>

lemma range_loop_assert:
  assumes "\<not> 0 < r"
  shows "range_loop s p r limit es n results = (if es = [] then Returns (results, n) else Panics)"
proof (cases es)
  case (Cons e es')
  with assms show ?thesis
    by (cases e) (simp add: Let_def has_value_for_revision_def find_value_for_revision_def)
qed simp

lemma store_range_scan:
  assumes "r \<le> current_revision s" "\<not> (0 < r \<and> r \<le> compacted_revision s)"
    "prefix_and_range_of_key start end = Inr (p, lo, hi)" "prefix_map s p = Some m"
  shows "store_range s start end r lim = Panics \<longleftrightarrow> inverted lo hi \<or>
    range_loop s p (if r = 0 then current_revision s else r)
      (case lim of None \<Rightarrow> usize_MAX | Some l \<Rightarrow> l) (filter (\<lambda>(k, _). above lo k \<and> below hi k) m) 0 [] = Panics"
  using assms by (auto simp: store_range_def Let_def btree_range_def bind_run_def split: run.splits)

section \<open>Properties\<close>


definition pods :: byte_array where "pods = bytes ''/registry/pods/''"
definition pods_end :: byte_array where "pods_end = bytes ''/registry/pods0''"


text \<open>
  C32: after compaction. A range at a revision that is still allowed finds, for each key, its value at
  that revision only if the value was written after the compacted revision or is still the current
  value of the key; older values that were live at the requested revision are missing.
\<close>

theorem range_after_compaction:
  assumes "store_repr s h" "h \<noteq> []" "0 \<le> r" "r \<le> int (length h)" "r = 0 \<or> compacted_revision s < r"
    and "prefix_and_range_of_key start end = Inr (p, lo, hi)" "\<not> inverted lo hi"
  shows "\<exists>L. store_range s start end r lim =
      Returns (Inr \<lparr>kvs = take (case lim of None \<Rightarrow> usize_MAX | Some l \<Rightarrow> l) L,
        latest_rev = int (length h), count = int (length L)\<rparr>) \<and>
    sorted_wrt (<) (map kv_key L) \<and>
    set L = {as_mvcc_key_value v k | k v. in_scan p lo hi k \<and>
      hist_live (hist_at h (if r = 0 then length h else nat r)) k = Some v \<and>
      (compacted_revision s < mod_revision v \<or> hist_latest h k = Some v)}"
proof -
  have readable: "readable h e n k = Some v \<longleftrightarrow>
      hist_live (hist_at h n) k = Some v \<and> (int e < mod_revision v \<or> hist_latest h k = Some v)" for e n k v
    by (auto simp: readable_def bind_eq_Some_conv split: if_splits)
  from store_range_answers[OF assms(1,6,7,3,4,5,2), of lim] show ?thesis
    unfolding range_answer_def compacted_revision_def readable by blast
qed

text \<open>Key \<open>b\<close> was live at revision 3, and revision 3 is not compacted; the read does not find it.\<close>

definition compacted_example :: Store where
  "compacted_example = fst (the (returned (store_compact example_store 3)))"

theorem range_after_compaction_witness:
  "store_range compacted_example key_b [] 3 None =
      Returns (Inr \<lparr>kvs = [], latest_rev = 5, count = 0\<rparr>) \<and>
   hist_live (hist_at example_history 3) key_b =
      Some \<lparr>create_revision = 2, mod_revision = 2, version = 1, val = Some [2]\<rparr>"
proof -
  obtain d where c: "store_compact example_store 3 = Returns (example_store\<lparr>values_by_revision := d\<rparr>, Inr ())"
    "store_repr (example_store\<lparr>values_by_revision := d\<rparr>) example_history"
    "compacted_revision (example_store\<lparr>values_by_revision := d\<rparr>) = 2"
    using store_compact_repr[OF example_repr, of 3] example_facts by auto
  then have ce: "compacted_example = example_store\<lparr>values_by_revision := d\<rparr>" by (simp add: compacted_example_def)
  have pr: "prefix_and_range_of_key key_b [] = Inr (pods, Included [98], Included [98])" by code_simp
  have at3: "hist_live (hist_at example_history 3) key_b =
      Some \<lparr>create_revision = 2, mod_revision = 2, version = 1, val = Some [2]\<rparr>"
    and now: "hist_latest example_history key_b \<noteq>
      Some \<lparr>create_revision = 2, mod_revision = 2, version = 1, val = Some [2]\<rparr>" by code_simp+
  have scan: "in_scan pods (Included [98]) (Included [98]) k \<longleftrightarrow> k = key_b" for k
    using range_of_key_single[OF pr] by (simp add: in_scan_alt)
  have "example_history \<noteq> []" using example_facts by auto
  from range_after_compaction[OF c(2) this _ _ _ pr, of 3 None, folded ce] c(3) show ?thesis
    using at3 now example_facts(1) by (simp add: scan ce conj_commute cong: conj_cong)
qed

text \<open>
  The errors of a range. A revision above the current one is a future revision, one at or below
  the compacted revision is compacted, and two ends in different prefixes are an invalid argument;
  nothing is read in any of these cases.
\<close>

lemma range_errors:
  assumes "store_repr s h"
  shows "if int (length h) < r then store_range s start end r lim = Returns (Inl ErrFutureRev)
    else if 0 < r \<and> r \<le> compacted_revision s then store_range s start end r lim = Returns (Inl ErrCompacted)
    else case prefix_and_range_of_key start end of
        Inl e \<Rightarrow> store_range s start end r lim = Returns (Inl e)
      | Inr _ \<Rightarrow> \<forall>e. store_range s start end r lim \<noteq> Returns (Inl e)"
  using store_reprD(6)[OF assms]
  by (auto simp: store_range_def Let_def bind_run_def split: sum.splits option.splits run.splits)

lemma range_errors_witness:
  "store_range example_store key_a pods_end 6 None = Returns (Inl ErrFutureRev) \<and>
   store_range example_store key_a (bytes ''/registry/roles/x'') 0 None =
     Returns (Inl (err_prefix pods (bytes ''/registry/roles/'')))"
proof -
  have "prefix_and_range_of_key key_a (bytes ''/registry/roles/x'') =
      Inl (err_prefix pods (bytes ''/registry/roles/''))" by code_simp
  with range_errors[OF example_repr, of 6 key_a pods_end None]
    range_errors[OF example_repr, of 0 key_a "bytes ''/registry/roles/x''" None]
  show ?thesis by (simp add: example_facts)
qed

text \<open>
  C36: exactly when a range panics. Past the error checks, it panics just when the prefix has a B-tree
  and either the requested range is inverted (its end before its start), or the revision is not
  positive, which only a negative request or an empty history can give, and there is a key to look
  at. Every other range returns.
\<close>

theorem range_panics_iff:
  assumes "store_repr s h" "r \<le> int (length h)" "\<not> (0 < r \<and> r \<le> compacted_revision s)"
    and "prefix_and_range_of_key start end = Inr (p, lo, hi)"
  shows "store_range s start end r lim = Panics \<longleftrightarrow>
    prefix_map s p \<noteq> None \<and>
    (inverted lo hi \<or> (r < 0 \<or> h = []) \<and> (\<exists>k. tree_map s k \<noteq> None \<and> in_scan p lo hi k))"
proof (cases "prefix_map s p")
  case None
  then show ?thesis using assms store_reprD(6)[OF assms(1)] by (simp add: store_range_def Let_def)
next
  case (Some m)
  let ?es = "filter (\<lambda>(k, _). above lo k \<and> below hi k) m"
  let ?r = "if r = 0 then current_revision s else r"
  note wf = store_reprD(1)[OF assms(1)]
  have bm: "btree_wf m" using index_wf_prefix_btree[OF wf Some] .
  have "?es \<noteq> [] \<longleftrightarrow> (\<exists>sfx ref. btree_get m sfx = Some ref \<and> above lo sfx \<and> below hi sfx)"
    using bt.mem_entries_iff[OF bm] by (fastforce simp: filter_empty_conv)
  also have "\<dots> \<longleftrightarrow> (\<exists>k. tree_map s k \<noteq> None \<and> in_scan p lo hi k)"
    unfolding in_scan_alt using index_wf_lookup[OF wf] Some wf
    by (auto simp: index_wf_def) (metis option.inject fst_conv snd_conv)+
  finally have ne: "?es \<noteq> [] \<longleftrightarrow> (\<exists>k. tree_map s k \<noteq> None \<and> in_scan p lo hi k)" .
  have "range_loop s p ?r lm ?es 0 [] = Panics \<longleftrightarrow> (r < 0 \<or> h = []) \<and> ?es \<noteq> []" for lm
  proof (cases "0 < ?r")
    case True
    then have n: "1 \<le> nat ?r" "nat ?r \<le> length h" "?r = int (nat ?r)"
      using assms(2) store_reprD(6)[OF assms(1)] by (auto split: if_splits)
    note sc = btree_scan_visible(1)[OF assms(1) n(2) Some, where lo = lo and hi = hi]
    have "range_loop s p ?r lm ?es 0 [] \<noteq> Panics"
      using range_loop_visible[OF reads_items[OF assms(1) n(1,2) sc], of "[]" 0 lm] n(3) by simp
    moreover have "\<not> (r < 0 \<or> h = [])" using True n(1,2) by (auto split: if_splits)
    ultimately show ?thesis by simp
  next
    case False
    then have "r < 0 \<or> h = []" using assms(2) store_reprD(6)[OF assms(1)] by (auto split: if_splits)
    with range_loop_assert[OF False] show ?thesis by simp
  qed
  then show ?thesis
    using store_range_scan[OF _ assms(3,4) Some, of lim] assms(2) store_reprD(6)[OF assms(1)] Some ne by simp
qed

theorem range_panics_iff_witness:
  "store_range example_store key_a [] (-1) None = Panics \<and>
   store_range example_store key_b key_a 0 None = Panics \<and>
   store_range example_store key_a key_b 0 None \<noteq> Panics"
proof -
  have pr: "prefix_and_range_of_key key_a [] = Inr (pods, Included [97], Included [97])"
    "prefix_and_range_of_key key_b key_a = Inr (pods, Included [98], Excluded [97])"
    "prefix_and_range_of_key key_a key_b = Inr (pods, Included [97], Excluded [98])"
    "prefix_map example_store pods \<noteq> None" "tree_map example_store key_a \<noteq> None"
    "in_scan pods (Included [97]) (Included [97]) key_a" by code_simp+
  have "example_history \<noteq> []" using example_facts by auto
  with range_panics_iff[OF example_repr _ _ pr(1), of "-1" None]
    range_panics_iff[OF example_repr _ _ pr(2), of 0 None]
    range_panics_iff[OF example_repr _ _ pr(3), of 0 None] pr(4-6)
  show ?thesis by (auto simp: example_facts)
qed

end
