(* ===== verification/Repository_Tests.thy ===== *)
theory Repository_Tests
  imports Store_Read
begin

text \<open>
  The repository's own tests of the deque and the store (\<open>src/block_deque.rs\<close>, \<open>src/store.rs\<close>,
  \<open>tests/store_test.rs\<close>), evaluated on the model: the definitions give the results that the tests
  expect of the code. Blocks are small, and a range without limit has one above the number of keys.
\<close>

section \<open>Assertions\<close>

text \<open>A test is a run; \<open>assert_eq!\<close> panics on a difference. A test passes if it returns.\<close>

definition assert_eq :: "'a \<Rightarrow> 'a \<Rightarrow> unit run" where
  "assert_eq x y = (if x = y then Returns () else Panics)"

fun all_asserts :: "unit run list \<Rightarrow> unit run" where
  "all_asserts [] = Returns ()"
| "all_asserts (a # as) = bind_run a (\<lambda>_. all_asserts as)"

section \<open>The deque\<close>

fun push_all :: "'a list \<Rightarrow> 'a block_deque \<Rightarrow> 'a block_deque run" where
  "push_all [] d = Returns d"
| "push_all (v # vs) d = bind_run (bd_push d v) (\<lambda>(_, d'). push_all vs d')"

definition assert_get :: "'a block_deque \<Rightarrow> usize \<Rightarrow> 'a option \<Rightarrow> unit run" where
  "assert_get d i x = bind_run (bd_get d i) (\<lambda>y. assert_eq y x)"

definition basic_test :: "unit run" where
  "basic_test =
     bind_run (push_all (map int [16..<24]) (bd_new 4))
       (\<lambda>d. bind_run (all_asserts (assert_eq (bd_len d) 8 #
              map (\<lambda>i. assert_get d i (Some (int i + 16))) [0..<8] @ [assert_get d 8 None]))
          (\<lambda>_. bind_run (bd_set d 3 999) (\<lambda>(_, d'). assert_get d' 3 (Some 999))))"

definition remove_before_test_one_block :: "unit run" where
  "remove_before_test_one_block =
     bind_run (push_all [1 :: int, 2] (bd_new 4))
       (\<lambda>d. bind_run (bd_remove_before d 1)
          (\<lambda>(res, d'). all_asserts
             [assert_eq res (Inr ()), assert_eq (bd_len d') 1, assert_get d' 0 None, assert_get d' 1 (Some 2)]))"

definition remove_before_test_two_blocks :: "unit run" where
  "remove_before_test_two_blocks =
     bind_run (push_all (map int [0..<11]) (bd_new 4))
       (\<lambda>d. bind_run (assert_eq (bd_len d) 11)
          (\<lambda>_. bind_run (bd_remove_before d 10)
             (\<lambda>(res, d1). bind_run (all_asserts [assert_eq res (Inr ()), assert_eq (bd_len d1) 1, assert_get d1 10 (Some 10)])
                (\<lambda>_. bind_run (push_all [11, 12, 13] d1)
                   (\<lambda>d2. bind_run (all_asserts (map (\<lambda>i. assert_get d2 i (Some (int i))) [10, 11, 12, 13]))
                      (\<lambda>_. bind_run (bd_remove_before d2 12)
                         (\<lambda>(res, d3). all_asserts [assert_eq res (Inr ()), assert_eq (bd_len d3) 2,
                            assert_get d3 12 (Some 12), assert_get d3 13 (Some 13)])))))))"

text \<open>\<open>unwrap\<close> of a removal: \<open>Err\<close> is a panic.\<close>

definition remove_unwrap :: "'a block_deque \<Rightarrow> usize \<Rightarrow> 'a block_deque run" where
  "remove_unwrap d idx = bind_run (bd_remove_before d idx) (\<lambda>(res, d'). case res of Inl _ \<Rightarrow> Panics | Inr _ \<Rightarrow> Returns d')"

definition remove_before_test_across_blocks :: "unit run" where
  "remove_before_test_across_blocks =
     bind_run (push_all (map int [0..<15]) (bd_new 10))
       (\<lambda>d. bind_run (remove_unwrap d 9) (\<lambda>d1. bind_run (remove_unwrap d1 13) (\<lambda>_. Returns ())))"

lemma deque_tests_pass:
  "basic_test = Returns ()" "remove_before_test_one_block = Returns ()" "remove_before_test_two_blocks = Returns ()"
  "remove_before_test_across_blocks = Returns ()"
  by code_simp+

section \<open>Prefixes\<close>

definition test_prefix_split :: "unit run" where
  "test_prefix_split = all_asserts (map (\<lambda>(k, p, t). assert_eq (prefix_split (bytes k)) (bytes p, bytes t))
     [(''abc'', [], ''abc''), (''abc/'', [], ''abc/''), (''a/b'', [], ''a/b''), (''/a/b'', [], ''/a/b''),
      (''a/b/c'', [], ''a/b/c''), (''/a/b/c'', [], ''/a/b/c''),
      (''/registry/serviceaccounts/'', ''/registry/serviceaccounts/'', []),
      (''/registry/pods/kube-system/foo'', ''/registry/pods/'', ''kube-system/foo''),
      (''/registry/roles/foo'', ''/registry/roles/'', ''foo''),
      (''/registry/apigroup-example.com/my-resources/foo'', ''/registry/apigroup-example.com/my-resources/'', ''foo''),
      (''/registry/apigroup-example.com/my-resources/my-namespace/foo'',
       ''/registry/apigroup-example.com/my-resources/'', ''my-namespace/foo'')])"

definition test_prefix_and_range_of_key :: "unit run" where
  "test_prefix_and_range_of_key = all_asserts (map (\<lambda>(k, e, p, lo, hi).
       case prefix_and_range_of_key (bytes k) (bytes e) of
         Inl _ \<Rightarrow> Panics
       | Inr (prefix, bounds) \<Rightarrow> all_asserts [assert_eq prefix (bytes p), assert_eq bounds (lo, hi)])
     [(''/registry/serviceaccounts/'', ''/registry/serviceaccounts0'', ''/registry/serviceaccounts/'', Included [], Unbounded),
      (''/registry/apiextensions.k8s.io/customresourcedefinitions/'',
       ''/registry/apiextensions.k8s.io/customresourcedefinitions0'',
       ''/registry/apiextensions.k8s.io/customresourcedefinitions/'', Included [], Unbounded),
      (''/bootstrap'', ''/bootstraq'', [], Included (bytes ''/bootstrap''), Excluded (bytes ''/bootstraq''))])"

lemma prefix_tests_pass: "test_prefix_split = Returns ()" "test_prefix_and_range_of_key = Returns ()"
  by code_simp+

section \<open>The store\<close>

definition put :: "string \<Rightarrow> string \<Rightarrow> byte_array \<times> byte_array option" where
  "put k v = (bytes k, Some (bytes v))"

definition after_puts :: "(byte_array \<times> byte_array option) list \<Rightarrow> Store" where
  "after_puts ws = the (returned (store_writes (store_init 4 None) ws))"

text \<open>Keys, values and revision of a range.\<close>

definition found :: "Store \<Rightarrow> string \<Rightarrow> string \<Rightarrow> i64 \<Rightarrow> ((byte_array \<times> byte_array) list \<times> i64) option" where
  "found s k e r =
     (case store_range s (bytes k) (bytes e) r (Some 9) of
        Returns (Inr res) \<Rightarrow> Some (map (\<lambda>x. (kv_key x, kv_value x)) (kvs res), latest_rev res)
      | _ \<Rightarrow> None)"

definition answer :: "(Store \<times> set_result \<times> notify_ref option) run \<Rightarrow> set_result option" where
  "answer r = (case r of Returns (_, res, _) \<Rightarrow> Some res | Panics \<Rightarrow> None)"

definition store_of :: "(Store \<times> set_result \<times> notify_ref option) run \<Rightarrow> Store" where
  "store_of r = fst (the (returned r))"

definition at_revision :: "i64 \<Rightarrow> SetRequired option" where
  "at_revision r = Some \<lparr>required_last_revision = Some r, required_version = None, compare_result = 0\<rparr>"

definition at_version :: "i64 \<Rightarrow> SetRequired option" where
  "at_version v = Some \<lparr>required_last_revision = None, required_version = Some v, compare_result = 0\<rparr>"

lemma test_range_revision:
  "let r1 = store_set (after_puts []) (bytes ''foo'') (Some (bytes ''bar'')) (at_revision 0); s1 = store_of r1;
       r2 = store_set s1 (bytes ''foo'') (Some (bytes ''baz'')) None; s2 = store_of r2
   in answer r1 = Some (Inr 1) \<and> found s1 ''foo'' [] 0 = Some ([(bytes ''foo'', bytes ''bar'')], 1) \<and>
      answer r2 = Some (Inr 2) \<and> found s2 ''foo'' [] 0 = Some ([(bytes ''foo'', bytes ''baz'')], 2) \<and>
      found s2 ''foo'' [] 1 = Some ([(bytes ''foo'', bytes ''bar'')], 2) \<and> found s2 ''foo'' [] 3 = None"
  by code_simp

definition six_puts :: Store where
  "six_puts = after_puts [put ''foo'' ''bar'', put ''foo1'' ''bar1'', put ''foo2'' ''bar2'', put ''foo3'' ''bar3'',
     put ''foo4'' ''bar4'', put ''foo'' ''baz'']"

lemma test_range:
  "found six_puts ''foo'' ''fooz'' 0 =
     Some ([(bytes ''foo'', bytes ''baz''), (bytes ''foo1'', bytes ''bar1''), (bytes ''foo2'', bytes ''bar2''),
       (bytes ''foo3'', bytes ''bar3''), (bytes ''foo4'', bytes ''bar4'')], 6)"
  "map_option (map fst \<circ> fst) (found six_puts ''foo'' ''fooz'' 3) = Some [bytes ''foo'', bytes ''foo1'', bytes ''foo2'']"
  by code_simp+

lemma test_range_slashes:
  "found (after_puts []) ''/a/b/c/'' ''/a/b/c0'' 0 = Some ([], 0)"
  "map_option (length \<circ> fst) (found (after_puts [put ''/bootstrap/aaa'' ''bar'']) ''/bootstrap'' ''/bootstraq'' 0) = Some 1"
  by code_simp+

definition compacted :: "Store \<Rightarrow> i64 \<Rightarrow> Store" where
  "compacted s r = fst (the (returned (store_compact s r)))"

lemma test_compaction_one:
  "found (compacted (after_puts [put ''foo'' ''bar'']) 1) ''foo'' [] 0 = Some ([(bytes ''foo'', bytes ''bar'')], 1)"
  by code_simp

lemma test_compaction:
  "let s = compacted (after_puts [put ''foo'' ''bar1'', put ''foo2'' ''v2'', put ''foo'' ''bar2'', put ''foo'' ''bar3'',
         put ''foo'' ''bar4'', put ''foo'' ''bar5'']) 3
   in found s ''foo'' [] 2 = None \<and> found s ''foo2'' [] 3 = Some ([(bytes ''foo2'', bytes ''v2'')], 6)"
  by code_simp

lemma test_set_txn_version:
  "let s = after_puts [put ''a'' ''r1'', put ''foo'' ''r2'', put ''foo'' ''r3'', put ''foo'' ''r4''];
       fails = store_set s (bytes ''foo'') (Some (bytes ''r5'')) (at_version 1);
       deleted = store_delete (store_of fails) (bytes ''foo'') None;
       again = store_set (store_of deleted) (bytes ''foo'') (Some (bytes ''r6'')) (at_version 0);
       fresh = store_set (store_of again) (bytes ''bar'') (Some (bytes ''r7'')) (at_version 0)
   in (case answer fails of Some (Inl (r, _)) \<Rightarrow> r = 4 | _ \<Rightarrow> False) \<and>
      answer deleted = Some (Inr 5) \<and> answer again = Some (Inr 6) \<and> answer fresh = Some (Inr 7)"
  by code_simp

lemma test_delete:
  "let s = after_puts [put ''a'' ''r1'', put ''a'' ''r2''];
       missing = store_delete s (bytes ''b'') None;
       deleted = store_delete (store_of missing) (bytes ''a'') None;
       twice = store_delete (store_of deleted) (bytes ''a'') None;
       again = store_set (store_of twice) (bytes ''a'') (Some (bytes ''r3'')) None
   in answer missing = Some (Inl (2, None)) \<and> answer deleted = Some (Inr 3) \<and>
      found (store_of deleted) ''a'' [] 0 = Some ([], 3) \<and> answer twice = Some (Inl (3, None)) \<and>
      answer again = Some (Inr 4) \<and> found (store_of again) ''a'' [] 0 = Some ([(bytes ''a'', bytes ''r3'')], 4)"
  by code_simp

lemma test_delete_revision:
  "let s = after_puts [put ''a'' ''r1'', put ''a'' ''r2''];
       fails = store_delete s (bytes ''a'') (at_revision 1);
       deleted = store_delete (store_of fails) (bytes ''a'') (at_revision 2)
   in (case answer fails of Some (Inl (r, Some _)) \<Rightarrow> r = 2 | _ \<Rightarrow> False) \<and> answer deleted = Some (Inr 3)"
  by code_simp

end
