(* ===== verification/Raft_Log.thy ===== *)
theory Raft_Log
  imports BTree_Map
begin

text \<open>
  The in-memory log of \<open>src/raft.rs\<close>: \<open>LogStoreInner\<close> and the operations of \<open>MemLogStore\<close> that the
  traits \<open>RaftLogReader\<close> and \<open>RaftLogStorage\<close> of openraft call. The leader ids, the memberships and
  the votes are openraft's own types, type parameters here. The locale \<open>raft_log_storage\<close> states
  what openraft relies on; its lemmas are the consequences for a log that is only extended at its
  end, truncated and purged.
\<close>

section \<open>Types\<close>

type_synonym NodeId = nat

datatype RaftRequest = Set byte_array byte_array | Delete byte_array

record 'l log_id =
  leader_id :: 'l
  log_index :: nat

datatype 'm entry_payload = Blank | Normal RaftRequest | Membership 'm

record ('l, 'm) entry =
  entry_log_id :: "'l log_id"
  payload :: "'m entry_payload"

record ('l, 'm, 'v) LogStoreInner =
  last_purged_log_id :: "'l log_id option"
  log :: "(nat, ('l, 'm) entry) btree"
  committed :: "'l log_id option"
  vote :: "'v option"

definition log_store_default :: "('l, 'm, 'v) LogStoreInner" where
  "log_store_default = \<lparr>last_purged_log_id = None, log = btree_new, committed = None, vote = None\<rparr>"

section \<open>Operations\<close>

definition try_get_log_entries ::
    "('l, 'm, 'v) LogStoreInner \<Rightarrow> nat bound \<Rightarrow> nat bound \<Rightarrow> ('l, 'm) entry list run" where
  "try_get_log_entries s lo hi = bind_run (btree_range lo hi (log s)) (\<lambda>es. Returns (map snd es))"

definition get_log_state :: "('l, 'm, 'v) LogStoreInner \<Rightarrow> 'l log_id option \<times> 'l log_id option" where
  "get_log_state s =
     (let last = (if log s = [] then None else Some (entry_log_id (snd (last (log s)))));
          last_purged = last_purged_log_id s;
          last' = (case last of None \<Rightarrow> last_purged | Some x \<Rightarrow> Some x)
      in (last_purged, last'))"

definition save_vote :: "('l, 'm, 'v) LogStoreInner \<Rightarrow> 'v \<Rightarrow> ('l, 'm, 'v) LogStoreInner" where
  "save_vote s v = s\<lparr>vote := Some v\<rparr>"

definition read_vote :: "('l, 'm, 'v) LogStoreInner \<Rightarrow> 'v option" where
  "read_vote s = vote s"

definition save_committed :: "('l, 'm, 'v) LogStoreInner \<Rightarrow> 'l log_id option \<Rightarrow> ('l, 'm, 'v) LogStoreInner" where
  "save_committed s c = s\<lparr>committed := c\<rparr>"

definition read_committed :: "('l, 'm, 'v) LogStoreInner \<Rightarrow> 'l log_id option" where
  "read_committed s = committed s"

definition log_append :: "('l, 'm, 'v) LogStoreInner \<Rightarrow> ('l, 'm) entry list \<Rightarrow> ('l, 'm, 'v) LogStoreInner" where
  "log_append s entries =
     s\<lparr>log := fold (\<lambda>e m. btree_insert (log_index (entry_log_id e)) e m) entries (log s)\<rparr>"

definition remove_keys :: "'k list \<Rightarrow> ('k, 'v) btree \<Rightarrow> ('k, 'v) btree" where
  "remove_keys ks m = fold btree_remove ks m"

definition log_truncate :: "('l, 'm, 'v) LogStoreInner \<Rightarrow> 'l log_id \<Rightarrow> ('l, 'm, 'v) LogStoreInner" where
  "log_truncate s i =
     (let keys = map fst (filter (\<lambda>(k, _). above (Included (log_index i)) k) (log s))
      in s\<lparr>log := remove_keys keys (log s)\<rparr>)"

definition log_purge :: "('l, 'm, 'v) LogStoreInner \<Rightarrow> 'l log_id \<Rightarrow> ('l, 'm, 'v) LogStoreInner" where
  "log_purge s i =
     (let keys = map fst (filter (\<lambda>(k, _). below (Included (log_index i)) k) (log s))
      in s\<lparr>last_purged_log_id := Some i, log := remove_keys keys (log s)\<rparr>)"

section \<open>What openraft relies on\<close>

text \<open>
  A log maps an index to at most one entry. \<open>append\<close> overwrites, \<open>truncate\<close> drops the entries from an
  index on, \<open>purge\<close> those up to an index.
\<close>

locale raft_log_storage =
  fixes wf :: "'s \<Rightarrow> bool"
    and entry_at :: "'s \<Rightarrow> nat \<Rightarrow> 'e option"
    and index_of :: "'e \<Rightarrow> nat"
    and append :: "'s \<Rightarrow> 'e list \<Rightarrow> 's"
    and truncate :: "'s \<Rightarrow> nat \<Rightarrow> 's"
    and purge :: "'s \<Rightarrow> nat \<Rightarrow> 's"
  assumes wf_append: "wf s \<Longrightarrow> wf (append s es)"
    and wf_truncate: "wf s \<Longrightarrow> wf (truncate s i)"
    and wf_purge: "wf s \<Longrightarrow> wf (purge s i)"
    and append_Nil: "wf s \<Longrightarrow> entry_at (append s []) = entry_at s"
    and append_snoc: "wf s \<Longrightarrow> entry_at (append s (es @ [e])) = (entry_at (append s es))(index_of e \<mapsto> e)"
    and truncate_at: "wf s \<Longrightarrow> entry_at (truncate s i) k = (if k < i then entry_at s k else None)"
    and purge_at: "wf s \<Longrightarrow> entry_at (purge s i) k = (if i < k then entry_at s k else None)"
begin

lemma append_other:
  "wf s \<Longrightarrow> k \<notin> index_of ` set es \<Longrightarrow> entry_at (append s es) k = entry_at s k"
  by (induction es rule: rev_induct) (auto simp: append_Nil append_snoc)

lemma append_entry:
  "wf s \<Longrightarrow> distinct (map index_of es) \<Longrightarrow> e \<in> set es \<Longrightarrow> entry_at (append s es) (index_of e) = Some e"
proof (induction es rule: rev_induct)
  case (snoc x es)
  then have "index_of x \<notin> index_of ` set es" "e = x \<or> e \<in> set es" by auto
  then have "e = x \<or> e \<in> set es \<and> index_of e \<noteq> index_of x" by (metis imageI)
  with snoc show ?case by (auto simp: append_snoc)
qed simp

text \<open>The log holds exactly the indices after \<open>lo\<close> and up to \<open>hi\<close>.\<close>

definition spans :: "'s \<Rightarrow> nat \<Rightarrow> nat \<Rightarrow> bool" where
  "spans s lo hi \<longleftrightarrow> wf s \<and> lo \<le> hi \<and> dom (entry_at s) = {lo<..hi}"

lemma spans_append:
  assumes "spans s lo hi" "map index_of es = [Suc hi..<Suc hi + length es]"
  shows "spans (append s es) lo (hi + length es)"
  using assms(2)
proof (induction es rule: rev_induct)
  case Nil
  then show ?case using assms(1) by (simp add: spans_def append_Nil wf_append)
next
  case (snoc e es)
  then have "spans (append s es) lo (hi + length es)" "index_of e = Suc (hi + length es)" by auto
  then show ?case using assms(1) by (auto simp: spans_def append_snoc wf_append)
qed

lemma spans_truncate:
  assumes "spans s lo hi" "lo < i" "i \<le> Suc hi"
  shows "spans (truncate s i) lo (i - 1)"
proof -
  have "wf s" using assms(1) by (simp add: spans_def)
  then have "dom (entry_at (truncate s i)) = {k. k < i \<and> k \<in> dom (entry_at s)}"
    by (auto simp: truncate_at split: if_splits)
  with assms show ?thesis by (auto simp: spans_def wf_truncate)
qed

lemma spans_purge:
  assumes "spans s lo hi" "lo \<le> i" "i \<le> hi"
  shows "spans (purge s i) i hi"
proof -
  have "wf s" using assms(1) by (simp add: spans_def)
  then have "dom (entry_at (purge s i)) = {k. i < k \<and> k \<in> dom (entry_at s)}"
    by (auto simp: purge_at split: if_splits)
  with assms show ?thesis by (auto simp: spans_def wf_purge)
qed

text \<open>A conflicting suffix is replaced: what a follower does when the leader overwrites its log.\<close>

lemma replace_suffix:
  assumes "spans s lo hi" "lo < i" "i \<le> Suc hi" "map index_of es = [i..<i + length es]"
  shows "spans (append (truncate s i) es) lo (i - 1 + length es)"
    "k < i \<Longrightarrow> entry_at (append (truncate s i) es) k = entry_at s k"
    "e \<in> set es \<Longrightarrow> entry_at (append (truncate s i) es) (index_of e) = Some e"
proof -
  have wf: "wf s" "wf (truncate s i)" using assms(1) wf_truncate by (auto simp: spans_def)
  have es: "map index_of es = [Suc (i - 1)..<Suc (i - 1) + length es]" using assms(2,4) by simp
  show "spans (append (truncate s i) es) lo (i - 1 + length es)"
    by (rule spans_append[OF spans_truncate[OF assms(1-3)] es])
  have "index_of ` set es = {i..<i + length es}" using arg_cong[OF assms(4), of set] by simp
  then show "entry_at (append (truncate s i) es) k = entry_at s k" if "k < i"
    using append_other[OF wf(2), of k es] truncate_at[OF wf(1), of i k] that by simp
  show "entry_at (append (truncate s i) es) (index_of e) = Some e" if "e \<in> set es"
    by (rule append_entry[OF wf(2) _ that]) (simp add: assms(4))
qed

end

section \<open>The model meets the contract\<close>

lemma btree_wf_fold_insert: "btree_wf m \<Longrightarrow> btree_wf (fold (\<lambda>e m. btree_insert (f e) e m) es m)"
  by (induction es arbitrary: m) (auto intro: bt.wf_insert)

lemma btree_wf_remove_keys: "btree_wf m \<Longrightarrow> btree_wf (remove_keys ks m)"
  unfolding remove_keys_def by (induction ks arbitrary: m) (auto intro: bt.wf_remove)

lemma get_remove_keys: "btree_get (remove_keys ks m) k = (if k \<in> set ks then None else btree_get m k)"
  unfolding remove_keys_def by (induction ks arbitrary: m) (auto simp: btree_get_remove)

lemma key_in_filter:
  assumes "btree_wf m"
  shows "k \<in> set (map fst (filter (\<lambda>(k, _). P k) m)) \<longleftrightarrow> P k \<and> btree_get m k \<noteq> None"
proof -
  have "k \<in> set (map fst (filter (\<lambda>(k, _). P k) m)) \<longleftrightarrow> P k \<and> (\<exists>v. (k, v) \<in> set m)" by force
  then show ?thesis using bt.mem_entries_iff[OF assms] by auto
qed

interpretation rl: raft_log_storage "\<lambda>s. btree_wf (log s)" "\<lambda>s. btree_get (log s)"
  "\<lambda>e. log_index (entry_log_id e)" log_append "\<lambda>s i. log_truncate s \<lparr>leader_id = l, log_index = i\<rparr>"
  "\<lambda>s i. log_purge s \<lparr>leader_id = l, log_index = i\<rparr>" for l
proof unfold_locales
  fix s :: "('a, 'b, 'c) LogStoreInner" and es :: "('a, 'b) entry list" and e :: "('a, 'b) entry" and i k :: nat
  assume wf: "btree_wf (log s)"
  show wfa: "btree_wf (log (log_append s es))" using wf by (simp add: log_append_def btree_wf_fold_insert)
  show "btree_wf (log (log_truncate s \<lparr>leader_id = l, log_index = i\<rparr>))"
    using wf by (simp add: log_truncate_def Let_def btree_wf_remove_keys)
  show "btree_wf (log (log_purge s \<lparr>leader_id = l, log_index = i\<rparr>))"
    using wf by (simp add: log_purge_def Let_def btree_wf_remove_keys)
  show "btree_get (log (log_append s [])) = btree_get (log s)" by (simp add: log_append_def)
  show "btree_get (log (log_append s (es @ [e]))) =
      (btree_get (log (log_append s es)))(log_index (entry_log_id e) \<mapsto> e)"
    using bt.lookup_insert[OF wfa] by (simp add: log_append_def)
  show "btree_get (log (log_truncate s \<lparr>leader_id = l, log_index = i\<rparr>)) k =
      (if k < i then btree_get (log s) k else None)"
    using key_in_filter[OF wf, of k "\<lambda>k. i \<le> k"]
    by (auto simp: log_truncate_def Let_def get_remove_keys simp del: set_map)
  show "btree_get (log (log_purge s \<lparr>leader_id = l, log_index = i\<rparr>)) k =
      (if i < k then btree_get (log s) k else None)"
    using key_in_filter[OF wf, of k "\<lambda>k. k \<le> i"]
    by (auto simp: log_purge_def Let_def get_remove_keys simp del: set_map)
qed

section \<open>The log state\<close>

text \<open>Every entry is filed under its own index.\<close>

definition filed :: "('l, 'm, 'v) LogStoreInner \<Rightarrow> bool" where
  "filed s \<longleftrightarrow> (\<forall>(k, e)\<in>set (log s). log_index (entry_log_id e) = k)"

lemma set_btree_insert: "set (btree_insert k v m) \<subseteq> insert (k, v) (set m)"
  by (induction k v m rule: btree_insert.induct) auto

lemma set_remove_keys: "set (remove_keys ks m) \<subseteq> set m"
  unfolding remove_keys_def by (induction ks arbitrary: m) (auto simp: btree_remove_def, fastforce)

lemma filed_append: "filed s \<Longrightarrow> filed (log_append s es)"
proof (induction es arbitrary: s)
  case (Cons e es)
  have "filed (s\<lparr>log := btree_insert (log_index (entry_log_id e)) e (log s)\<rparr>)"
    using Cons.prems set_btree_insert[of "log_index (entry_log_id e)" e "log s"] by (auto simp: filed_def)
  from Cons.IH[OF this] show ?case by (simp add: log_append_def)
qed (simp add: log_append_def)

lemma filed_remove: "filed s \<Longrightarrow> filed (log_truncate s i)" "filed s \<Longrightarrow> filed (log_purge s i)"
  using set_remove_keys by (fastforce simp: filed_def log_truncate_def log_purge_def Let_def)+

lemma last_entry:
  assumes "btree_wf m" "dom (btree_get m) = {lo<..hi}" "lo < hi"
  shows "m \<noteq> []" "fst (last m) = hi"
proof -
  have dom: "set (map fst m) = {lo<..hi}"
    using assms(2) by (simp add: btree_get_def dom_map_of_conv_image_fst)
  then show "m \<noteq> []" using assms(3) by auto
  then have "fst (last m) \<in> {lo<..hi}" unfolding dom[symmetric] by simp
  moreover have "sorted (map fst m)" using assms(1) by (simp add: btree_wf_def strict_sorted_iff)
  then have "hi \<le> last (map fst m)" using sorted_le_last[of "map fst m" hi] dom assms(3) by simp
  ultimately show "fst (last m) = hi" using dom \<open>m \<noteq> []\<close> by (simp add: last_map)
qed

section \<open>Properties\<close>

text \<open>
  C30: a follower whose log conflicts with the leader's. If the log holds exactly the indices after
  \<open>lo\<close> up to \<open>hi\<close>, truncating at \<open>i\<close> and appending consecutive entries from \<open>i\<close> on gives a log without
  gaps that keeps every entry before \<open>i\<close> and holds the new ones.
\<close>

theorem raft_log_replace_suffix:
  assumes "btree_wf (log s)" "lo \<le> hi" "dom (btree_get (log s)) = {lo<..hi}"
    and "lo < log_index i" "log_index i \<le> Suc hi"
    and "map (\<lambda>e. log_index (entry_log_id e)) es = [log_index i..<log_index i + length es]"
  shows "let s' = log_append (log_truncate s i) es in
    dom (btree_get (log s')) = {lo<..log_index i - 1 + length es} \<and>
    (\<forall>k<log_index i. btree_get (log s') k = btree_get (log s) k) \<and>
    (\<forall>e\<in>set es. btree_get (log s') (log_index (entry_log_id e)) = Some e)"
proof -
  have i: "\<lparr>leader_id = leader_id i, log_index = log_index i\<rparr> = i" by simp
  have sp: "rl.spans s lo hi" using assms(1-3) by (simp add: rl.spans_def)
  note r = rl.replace_suffix[OF sp assms(4,5,6), where l = "leader_id i", unfolded i]
  have "rl.spans (log_append (log_truncate s i) es) lo (log_index i - 1 + length es)" by (rule r(1))
  then show ?thesis using r(2,3) unfolding Let_def by (auto simp: rl.spans_def)
qed

definition sample_entry :: "nat \<Rightarrow> nat \<Rightarrow> (nat, unit) entry" where
  "sample_entry t i = \<lparr>entry_log_id = \<lparr>leader_id = t, log_index = i\<rparr>, payload = Normal (Delete [of_nat i])\<rparr>"

definition sample_log :: "(nat, unit, unit) LogStoreInner" where
  "sample_log = log_append log_store_default [sample_entry 1 1, sample_entry 1 2, sample_entry 1 3]"

lemma sample_log_entries: "log sample_log = [(1, sample_entry 1 1), (2, sample_entry 1 2), (3, sample_entry 1 3)]"
  by (simp add: sample_log_def log_append_def log_store_default_def btree_new_def sample_entry_def)

lemma sample_log_spans: "btree_wf (log sample_log)" "dom (btree_get (log sample_log)) = {0<..3}"
  by (auto simp: sample_log_entries btree_wf_def btree_get_def)

theorem raft_log_replace_suffix_witness:
  "let s' = log_append (log_truncate sample_log \<lparr>leader_id = 2, log_index = 2\<rparr>) [sample_entry 2 2] in
    dom (btree_get (log s')) = {0<..2} \<and> btree_get (log s') 1 = btree_get (log sample_log) 1 \<and>
    btree_get (log s') 2 = Some (sample_entry 2 2)"
  using raft_log_replace_suffix[of sample_log 0 3 "\<lparr>leader_id = 2, log_index = 2\<rparr>" "[sample_entry 2 2]"]
    sample_log_spans by (simp add: sample_entry_def Let_def numeral_2_eq_2)

text \<open>
  Purging. After a purge up to an index of the log, the entries up to it are gone, all others are
  kept, and the log state reports the purged id and the id of the last entry, or the purged id when
  no entry is left.
\<close>

lemma raft_log_purge_state:
  assumes "btree_wf (log s)" "filed s" "dom (btree_get (log s)) = {lo<..hi}" "lo \<le> log_index i" "log_index i \<le> hi"
  shows "let s' = log_purge s i in
    dom (btree_get (log s')) = {log_index i<..hi} \<and>
    (\<forall>k>log_index i. btree_get (log s') k = btree_get (log s) k) \<and>
    fst (get_log_state s') = Some i \<and>
    (if log_index i = hi then snd (get_log_state s') = Some i
     else map_option log_index (snd (get_log_state s')) = Some hi)"
proof -
  have i: "\<lparr>leader_id = leader_id i, log_index = log_index i\<rparr> = i" by simp
  let ?s = "log_purge s i"
  have sp: "rl.spans s lo hi" using assms by (auto simp: rl.spans_def)
  have "rl.spans ?s (log_index i) hi"
    using rl.spans_purge[OF sp assms(4,5), where l = "leader_id i"] unfolding i .
  then have d: "btree_wf (log ?s)" "dom (btree_get (log ?s)) = {log_index i<..hi}" by (auto simp: rl.spans_def)
  have keep: "\<forall>k>log_index i. btree_get (log ?s) k = btree_get (log s) k"
    using rl.purge_at[OF assms(1), of "leader_id i" "log_index i"] unfolding i by simp
  have purged: "last_purged_log_id ?s = Some i" by (simp add: log_purge_def Let_def)
  have state: "if log_index i = hi then snd (get_log_state ?s) = Some i
     else map_option log_index (snd (get_log_state ?s)) = Some hi"
  proof (cases "log_index i = hi")
    case True
    then have "log ?s = []" using d(2) by (simp add: btree_get_def dom_map_of_conv_image_fst)
    with True purged show ?thesis by (simp add: get_log_state_def Let_def)
  next
    case False
    then have "log_index i < hi" using assms(5) by simp
    note le = last_entry[OF d this]
    have "last (log ?s) \<in> set (log ?s)" using le(1) by simp
    then have "log_index (entry_log_id (snd (last (log ?s)))) = hi"
      using filed_remove(2)[OF assms(2), of i] le(2) by (auto simp: filed_def)
    with False le(1) show ?thesis by (simp add: get_log_state_def Let_def)
  qed
  have "fst (get_log_state ?s) = Some i" by (simp add: get_log_state_def Let_def purged)
  with d(2) keep state show ?thesis unfolding Let_def by blast
qed

lemma raft_log_purge_state_witness:
  "let s' = log_purge sample_log \<lparr>leader_id = 1, log_index = 2\<rparr> in
    dom (btree_get (log s')) = {2<..3} \<and> map_option log_index (snd (get_log_state s')) = Some 3"
proof -
  have "filed sample_log" by (simp add: filed_def sample_log_entries sample_entry_def)
  from raft_log_purge_state[OF sample_log_spans(1) this sample_log_spans(2), of "\<lparr>leader_id = 1, log_index = 2\<rparr>"]
  show ?thesis by (simp add: Let_def)
qed

end
