(* ===== verification/Store_Snapshot.thy ===== *)
theory Store_Snapshot
  imports Store_Read
begin

text \<open>
  \<open>Store::export_snapshot_data\<close> and \<open>Store::import_snapshot_data\<close> of \<open>src/store.rs\<close>. The export
  iterates over a hash map, whose order is not fixed: the keys in iteration order are an argument.
  A store that imports an export holds the same live keys with the same revisions, and answers
  every range at the current revision alike.
\<close>

section \<open>Operations\<close>

type_synonym snapshot_entry = "byte_array \<times> byte_array \<times> i64 \<times> i64 \<times> i64"

definition export_snapshot_data :: "Store \<Rightarrow> byte_array list \<Rightarrow> snapshot_entry list" where
  "export_snapshot_data s order =
     List.map_filter
       (\<lambda>k. Option.bind (tree_map s k)
          (\<lambda>r. let lv = latest_value (tree_items s r) in
             case val lv of
               Some b \<Rightarrow> Some (k, b, create_revision lv, mod_revision lv, version lv)
             | None \<Rightarrow> None))
       order"

definition max_mod_rev :: "snapshot_entry list \<Rightarrow> i64" where
  "max_mod_rev entries =
     (case map (\<lambda>(_, _, _, m, _). m) entries of [] \<Rightarrow> 0 | m # ms \<Rightarrow> fold max ms m)"

definition snapshot_placeholder :: Value where
  "snapshot_placeholder = \<lparr>create_revision = 0, mod_revision = 0, version = 0, val = None\<rparr>"

fun push_placeholders :: "nat \<Rightarrow> Value block_deque \<Rightarrow> Value block_deque run" where
  "push_placeholders 0 d = Returns d"
| "push_placeholders (Suc n) d = bind_run (bd_push d snapshot_placeholder) (\<lambda>(_, d'). push_placeholders n d')"

definition import_entry :: "Store \<Rightarrow> snapshot_entry \<Rightarrow> Store run" where
  "import_entry s entry =
     (case entry of (key, value, c, m, ver) \<Rightarrow>
        let v = \<lparr>create_revision = c, mod_revision = m, version = ver, val = Some value\<rparr>
        in bind_run (bd_set (values_by_revision s) (rev_index m) v)
             (\<lambda>(_, d). Returns (insert_item (s\<lparr>values_by_revision := d\<rparr>) key
                \<lparr>item_key = key, revisions = [m], latest_value = v\<rparr>)))"

fun import_entries :: "Store \<Rightarrow> snapshot_entry list \<Rightarrow> Store run" where
  "import_entries s [] = Returns s"
| "import_entries s (e # es) = bind_run (import_entry s e) (\<lambda>s'. import_entries s' es)"

definition import_snapshot_data :: "Store \<Rightarrow> snapshot_entry list \<Rightarrow> Store run" where
  "import_snapshot_data s entries =
     (let s0 = s\<lparr>prefix_map := Map.empty, tree_map := Map.empty,
                 values_by_revision := bd_clear (values_by_revision s)\<rparr>
      in bind_run (push_placeholders (nat (max_mod_rev entries)) (values_by_revision s0))
           (\<lambda>d. import_entries (s0\<lparr>values_by_revision := d\<rparr>) entries))"

section \<open>Specification\<close>

text \<open>The live value of a key, as its item holds it.\<close>

definition live :: "Store \<Rightarrow> byte_array \<Rightarrow> Value option" where
  "live s k = Option.bind (current s k) live_part"

definition entry_of :: "byte_array \<Rightarrow> Value \<Rightarrow> snapshot_entry" where
  "entry_of k v = (k, the (val v), create_revision v, mod_revision v, version v)"

definition entry_value :: "snapshot_entry \<Rightarrow> byte_array \<times> Value" where
  "entry_value e = (case e of (k, b, c, m, ver) \<Rightarrow>
     (k, \<lparr>create_revision = c, mod_revision = m, version = ver, val = Some b\<rparr>))"

text \<open>No item is newer than the current revision.\<close>

definition latest_bounded :: "Store \<Rightarrow> bool" where
  "latest_bounded s \<longleftrightarrow>
     (\<forall>k v. current s k = Some v \<longrightarrow> mod_revision v \<le> current_revision s) \<and>
     (tree_map s \<noteq> Map.empty \<longrightarrow> 0 < current_revision s)"

section \<open>Ranges at the current revision\<close>

definition shown :: "Store \<Rightarrow> byte_array \<Rightarrow> (byte_array \<times> item_ref) list \<Rightarrow> KeyValue list" where
  "shown s p es = List.map_filter (\<lambda>(sfx, _). map_option (\<lambda>v. as_mvcc_key_value v (p @ sfx)) (live s (p @ sfx))) es"

lemma range_loop_shown:
  assumes lb: "latest_bounded s" and n: "0 < current_revision s"
    and es: "\<forall>(sfx, ref)\<in>set es. tree_map s (p @ sfx) = Some ref"
    and len: "length results = min c limit"
  shows "range_loop s p (current_revision s) limit es c results =
    Returns (results @ take (limit - c) (shown s p es), c + length (shown s p es))"
  using es len
proof (induction es arbitrary: c results)
  case Nil
  then show ?case by (simp add: shown_def)
next
  case (Cons x es)
  obtain sfx ref where x: "x = (sfx, ref)" by fastforce
  with Cons.prems(1) have k: "tree_map s (p @ sfx) = Some ref" by simp
  let ?lv = "latest_value (tree_items s ref)"
  have lv: "mod_revision ?lv \<le> current_revision s" and live: "live s (p @ sfx) = live_part ?lv"
    using lb k by (auto simp: latest_bounded_def live_def current_def)
  have IH: "range_loop s p (current_revision s) limit es c' rs =
      Returns (rs @ take (limit - c') (shown s p es), c' + length (shown s p es))"
    if "length rs = min c' limit" for c' rs
    using Cons.IH[OF _ that] Cons.prems(1) by simp
  show ?case
  proof (cases "limit \<le> c")
    case True
    with Cons.prems(2) IH[of results "if val ?lv \<noteq> None then c + 1 else c"] lv n live show ?thesis
      by (auto simp: x shown_def List.map_filter_def Let_def has_value_for_revision_def)
  next
    case False
    with Cons.prems(2) IH[of results c]
      IH[of "results @ [as_mvcc_key_value ?lv (p @ sfx)]" "c + 1"] lv n live
    show ?thesis
      by (auto simp: x shown_def List.map_filter_def Let_def find_value_for_revision_def
          Suc_diff_Suc take_Cons' split: if_splits)
  qed
qed

lemma shown_ascending:
  assumes "sorted_wrt (<) (map fst es)"
  shows "sorted_wrt (<) (map kv_key (shown s p es))"
proof -
  have keys: "map kv_key (shown s p es) = map (\<lambda>(sfx, _). p @ sfx) (filter (\<lambda>(sfx, _). live s (p @ sfx) \<noteq> None) es)"
    by (induction es) (auto simp: shown_def List.map_filter_def)
  have "sorted_wrt (\<lambda>x y. p @ fst x < p @ fst y) es" using assms by (simp add: sorted_wrt_map)
  from sorted_wrt_filter[OF this, of "\<lambda>x. live s (p @ fst x) \<noteq> None"] show ?thesis
    by (simp add: keys sorted_wrt_map split_def)
qed

lemma live_indexed: "live s k = Some v \<Longrightarrow> \<exists>ref. tree_map s k = Some ref"
  by (auto simp: live_def current_def bind_eq_Some_conv)

lemma store_range_current:
  fixes lim :: "usize option"
  assumes wf: "index_wf s" and lb: "latest_bounded s"
    and pr: "prefix_and_range_of_key start end = Inr (p, lo, hi)" "\<not> inverted lo hi"
    and cr: "0 \<le> current_revision s"
  shows "\<exists>L. store_range s start end 0 lim =
      Returns (Inr \<lparr>kvs = take (case lim of None \<Rightarrow> usize_MAX | Some l \<Rightarrow> l) L,
        latest_rev = current_revision s, count = int (length L)\<rparr>) \<and>
    sorted_wrt (<) (map kv_key L) \<and>
    set L = {as_mvcc_key_value v k | k v. in_scan p lo hi k \<and> live s k = Some v}"
proof (cases "prefix_map s p")
  case None
  have "\<not> (in_scan p lo hi k \<and> live s k = Some v)" for k v
    using index_wf_lookup[OF wf, of k] None live_indexed[of s k v] by (fastforce simp: in_scan_alt)
  with None pr(1) cr show ?thesis
    by (intro exI[of _ "[]"]) (auto simp: store_range_def Let_def)
next
  case (Some m)
  define es where "es = filter (\<lambda>(k, _). above lo k \<and> below hi k) m"
  have bm: "btree_wf m" using index_wf_prefix_btree[OF wf Some] .
  have ent: "(sfx, ref) \<in> set es \<longleftrightarrow>
      tree_map s (p @ sfx) = Some ref \<and> prefix_split (p @ sfx) = (p, sfx) \<and> above lo sfx \<and> below hi sfx" for sfx ref
    using wf Some bt.mem_entries_iff[OF bm, of sfx ref] index_wf_lookup[OF wf, of "p @ sfx" ref]
    by (auto simp: es_def index_wf_def)
  have "set (shown s p es) = {as_mvcc_key_value v (p @ sfx) | v sfx ref. (sfx, ref) \<in> set es \<and> live s (p @ sfx) = Some v}"
    by (force simp: shown_def List.map_filter_def)
  also have "\<dots> = {as_mvcc_key_value v k | k v. in_scan p lo hi k \<and> live s k = Some v}"
  proof -
    have "(\<exists>sfx ref. (sfx, ref) \<in> set es \<and> k = p @ sfx) \<longleftrightarrow> in_scan p lo hi k" if "live s k = Some v" for k v
      using live_indexed[OF that] entries_in_scan[OF ent] by blast
    then show ?thesis by blast
  qed
  finally have set: "set (shown s p es) = \<dots>" .
  show ?thesis
  proof (cases "0 < current_revision s")
    case True
    have "\<forall>(sfx, ref)\<in>set es. tree_map s (p @ sfx) = Some ref" using ent by auto
    from range_loop_shown[OF lb True this, of "[]" 0] pr Some cr set
      shown_ascending[of es s p] bt.filter_entries_ascending[OF bm, of "\<lambda>k. above lo k \<and> below hi k"]
    show ?thesis
      by (intro exI[of _ "shown s p es"]) (simp add: store_range_def Let_def btree_range_def es_def)
  next
    case False
    then have "es = []" using lb ent by (cases es) (auto simp: latest_bounded_def)
    with set pr Some cr show ?thesis
      by (intro exI[of _ "[]"]) (simp add: store_range_def Let_def btree_range_def es_def shown_def)
  qed
qed

lemma ascending_unique:
  assumes "sorted_wrt (<) (map kv_key L)" "sorted_wrt (<) (map kv_key L')" "set L = set L'"
  shows "L = L'"
  using assms map_sorted_distinct_set_unique[of kv_key L L']
  by (simp add: strict_sorted_iff distinct_map)

section \<open>Import\<close>

lemma push_placeholders_returns:
  assumes "bd_invar d"
  shows "\<exists>d'. push_placeholders n d = Returns d' \<and> bd_invar d' \<and> earliest_revision d' = earliest_revision d \<and>
    latest_revision d' = latest_revision d + n"
  using assms
proof (induction n arbitrary: d)
  case 0
  then show ?case by simp
next
  case (Suc n)
  from vlog.push_law[OF Suc.prems, of snapshot_placeholder] obtain d1 where
    d1: "bd_push d snapshot_placeholder = Returns (latest_revision d, d1)" "bd_invar d1"
      "earliest_revision d1 = earliest_revision d" "bd_values d1 = bd_values d @ [snapshot_placeholder]" by blast
  then have "latest_revision d1 = latest_revision d + 1"
    using vlog.next_index[OF d1(2)] vlog.next_index[OF Suc.prems] by simp
  with d1 Suc.IH[OF d1(2)] show ?case by auto
qed

text \<open>The store after some entries: exactly their keys, each with the imported value.\<close>

definition imported :: "Store \<Rightarrow> nat \<Rightarrow> snapshot_entry list \<Rightarrow> bool" where
  "imported s n done \<longleftrightarrow>
     index_wf s \<and> bd_invar (values_by_revision s) \<and> earliest_revision (values_by_revision s) = 0 \<and>
     latest_revision (values_by_revision s) = n \<and>
     current s = map_of (map entry_value done)"

lemma fst_entry_value [simp]: "fst (entry_value e) = fst e"
  by (simp add: entry_value_def split: prod.split)

lemma dom_entry_values: "map_of (map entry_value es) k = None \<longleftrightarrow> k \<notin> fst ` set es"
  by (simp add: map_of_eq_None_iff image_image)

lemma import_entry_imported:
  assumes "imported s n done" "k \<notin> fst ` set done" "1 \<le> m" "m \<le> int n"
  shows "\<exists>s'. import_entry s (k, b, c, m, ver) = Returns s' \<and> imported s' n (done @ [(k, b, c, m, ver)]) \<and>
    watchers s' = watchers s \<and> notify_tx s' = notify_tx s"
proof -
  let ?v = "\<lparr>create_revision = c, mod_revision = m, version = ver, val = Some b\<rparr>"
  let ?it = "\<lparr>item_key = k, revisions = [m], latest_value = ?v\<rparr>"
  have s: "index_wf s" "bd_invar (values_by_revision s)" "earliest_revision (values_by_revision s) = 0"
    "latest_revision (values_by_revision s) = n" using assms(1) by (simp_all add: imported_def)
  have "rev_index m < latest_revision (values_by_revision s)"
    using s(4) assms(3,4) by (simp add: rev_index_pos nat_less_iff)
  from vlog.put_law[OF s(2) _ this, of ?v] s(3) obtain d where
    d: "bd_set (values_by_revision s) (rev_index m) ?v = Returns (True, d)" "bd_invar d" "earliest_revision d = 0"
      "length (bd_values d) = length (bd_values (values_by_revision s))"
    by auto
  let ?s1 = "s\<lparr>values_by_revision := d\<rparr>"
  have n: "latest_revision d = n" using vlog.next_index[OF d(2)] vlog.next_index[OF s(2)] d s by simp
  have "current s k = None"
    using assms(1,2) by (simp add: imported_def dom_entry_values)
  then have new: "tree_map ?s1 k = None" by (simp add: current_def)
  have wf1: "index_wf ?s1" using s(1) index_wf_cong[of ?s1 s] by simp
  have cur: "current ?s1 = current s" by (simp add: current_def fun_eq_iff)
  have "current (insert_item ?s1 k ?it) = (current s)(k \<mapsto> ?v)"
    using current_insert_item[OF wf1 new, of ?it] cur by simp
  moreover have "index_wf (insert_item ?s1 k ?it)" by (rule index_wf_insert_item[OF wf1 new]) simp
  moreover have "values_by_revision (insert_item ?s1 k ?it) = d" "watchers (insert_item ?s1 k ?it) = watchers s"
    "notify_tx (insert_item ?s1 k ?it) = notify_tx s"
    by (simp_all add: insert_item_def Let_def split: prod.split)
  moreover have "(map_of (map entry_value done))(k \<mapsto> ?v) = map_of (map entry_value (done @ [(k, b, c, m, ver)]))"
    using assms(2) dom_entry_values[of "done" k]
    by (intro ext) (auto simp: map_add_def entry_value_def split: option.split)
  ultimately show ?thesis
    using assms(1) d n by (auto simp: import_entry_def imported_def Let_def)
qed

lemma import_entries_imported:
  assumes "imported s n done" "distinct (map fst (done @ es))" "\<forall>(k, b, c, m, ver)\<in>set es. 1 \<le> m \<and> m \<le> int n"
  shows "\<exists>s'. import_entries s es = Returns s' \<and> imported s' n (done @ es) \<and>
    watchers s' = watchers s \<and> notify_tx s' = notify_tx s"
  using assms
proof (induction es arbitrary: s "done")
  case Nil
  then show ?case by simp
next
  case (Cons e es)
  obtain k b c m ver where e: "e = (k, b, c, m, ver)" by (metis prod_cases5)
  from import_entry_imported[OF Cons.prems(1), of k m b c ver] Cons.prems(2,3) obtain s1 where
    s1: "import_entry s e = Returns s1" "imported s1 n (done @ [e])" "watchers s1 = watchers s"
      "notify_tx s1 = notify_tx s" by (auto simp: e)
  from Cons.IH[OF s1(2)] Cons.prems(2,3) s1 show ?case by auto
qed

lemma max_mod_rev_ge: "(k, b, c, m, ver) \<in> set es \<Longrightarrow> m \<le> max_mod_rev es"
proof -
  assume "(k, b, c, m, ver) \<in> set es"
  then have "m \<in> set (map (\<lambda>(_, _, _, m, _). m) es)" by force
  then show ?thesis
    unfolding max_mod_rev_def by (cases "map (\<lambda>(_, _, _, m, _). m) es") (auto simp: Max.set_eq_fold[symmetric])
qed

lemma max_mod_rev_mem: "es \<noteq> [] \<Longrightarrow> max_mod_rev es \<in> (\<lambda>(_, _, _, m, _). m) ` set es"
proof (cases es)
  case (Cons e es')
  then have "max_mod_rev es = Max (set (map (\<lambda>(_, _, _, m, _). m) es))"
    by (simp only: max_mod_rev_def list.map list.case Max.set_eq_fold)
  with Cons Max_in[of "set (map (\<lambda>(_, _, _, m, _). m) es)"] show ?thesis by simp
qed simp

lemma import_snapshot_returns:
  assumes "bd_invar (values_by_revision s)" "distinct (map fst es)" "\<forall>(k, b, c, m, ver)\<in>set es. 1 \<le> m"
  shows "\<exists>s'. import_snapshot_data s es = Returns s' \<and> imported s' (nat (max_mod_rev es)) es \<and>
    watchers s' = watchers s \<and> notify_tx s' = notify_tx s"
proof -
  let ?c = "bd_clear (values_by_revision s)"
  have c: "bd_invar ?c" "earliest_revision ?c = 0" "latest_revision ?c = 0"
    using bd_repr_clear[OF bd_repr_self[OF assms(1)]]
    by (auto simp: bd_repr_iff) (simp_all add: bd_clear_def earliest_revision_def latest_revision_def)
  from push_placeholders_returns[OF c(1), of "nat (max_mod_rev es)"] c obtain d where
    d: "push_placeholders (nat (max_mod_rev es)) ?c = Returns d" "bd_invar d" "earliest_revision d = 0"
      "latest_revision d = nat (max_mod_rev es)" by auto
  let ?s0 = "s\<lparr>prefix_map := Map.empty, tree_map := Map.empty, values_by_revision := d\<rparr>"
  have "imported ?s0 (nat (max_mod_rev es)) []"
    using d by (auto simp: imported_def index_wf_def current_def)
  from import_entries_imported[OF this, of es] assms(2,3) max_mod_rev_ge[of _ _ _ _ _ es] obtain s' where
    "import_entries ?s0 es = Returns s'" "imported s' (nat (max_mod_rev es)) es"
    "watchers s' = watchers s" "notify_tx s' = notify_tx s" by force
  with d(1) show ?thesis by (simp add: import_snapshot_data_def Let_def)
qed

section \<open>Export\<close>

lemma export_entries:
  "export_snapshot_data s ks = List.map_filter (\<lambda>k. map_option (entry_of k) (live s k)) ks"
  unfolding export_snapshot_data_def
  by (intro arg_cong2[where f = List.map_filter] ext)
    (auto simp: live_def current_def entry_of_def Let_def split: option.split bind_split)

lemma live_store_repr:
  assumes "store_repr s h"
  shows "live s k = hist_live h k"
  using item_repr_latest[OF store_repr_item[OF assms], of k] assms
  by (cases "tree_map s k") (auto simp: live_def current_def store_repr_def hist_live_def)

lemma set_export:
  assumes "set ks = dom (tree_map s)"
  shows "set (export_snapshot_data s ks) = {entry_of k v | k v. live s k = Some v}"
  unfolding export_entries using assms live_indexed
  by (fastforce simp: List.map_filter_def image_iff)

lemma export_distinct:
  assumes "distinct ks"
  shows "distinct (map fst (export_snapshot_data s ks))"
proof -
  have "map fst (export_snapshot_data s ks) = filter (\<lambda>k. live s k \<noteq> None) ks"
    unfolding export_entries by (induction ks) (auto simp: List.map_filter_def entry_of_def)
  with assms show ?thesis by simp
qed

lemma live_val: "live s k = Some v \<Longrightarrow> \<exists>b. val v = Some b"
  by (auto simp: live_def bind_eq_Some_conv split: if_splits)

lemma entry_value_of: "val v \<noteq> None \<Longrightarrow> entry_value (entry_of k v) = (k, v)"
  by (auto simp: entry_value_def entry_of_def)

lemma map_of_export:
  assumes "set ks = dom (tree_map s)" "distinct ks"
  shows "map_of (map entry_value (export_snapshot_data s ks)) = live s"
proof -
  let ?es = "map entry_value (export_snapshot_data s ks)"
  have ev: "entry_value (entry_of k v) = (k, v)" if "live s k = Some v" for k v
    using entry_value_of live_val[OF that] by simp
  have "set ?es = {entry_value (entry_of k v) | k v. live s k = Some v}"
    unfolding set_map set_export[OF assms(1)] by blast
  also have "\<dots> = {(k, v) | k v. live s k = Some v}"
    using ev by (intro Collect_cong ex_cong1) auto
  finally have "set ?es = {(k, v) | k v. live s k = Some v}" .
  moreover have "distinct (map fst ?es)" using export_distinct[OF assms(2)] by (simp add: comp_def)
  ultimately have iff: "map_of ?es k = Some v \<longleftrightarrow> live s k = Some v" for k v
    by (simp only: map_of_eq_Some_iff mem_Collect_eq) blast
  show ?thesis
  proof
    show "map_of ?es k = live s k" for k
      using iff[of k] by (cases "live s k"; cases "map_of ?es k") auto
  qed
qed

section \<open>A restored store\<close>

lemma live_mod_pos:
  assumes "store_repr s h" "live s k = Some v"
  shows "1 \<le> mod_revision v" "mod_revision v \<le> int (length h)"
  using assms hist_latest_mod_le[of h k v] hist_live_SomeD[of h k v] live_store_repr[OF assms(1), of k] by auto

lemma restore:
  assumes s: "store_repr s h" and ks: "distinct ks" "set ks = dom (tree_map s)"
    and t: "bd_invar (values_by_revision t)"
  shows "\<exists>t'. import_snapshot_data t (export_snapshot_data s ks) = Returns t' \<and>
    index_wf t' \<and> bd_invar (values_by_revision t') \<and> current t' = live s \<and>
    current_revision t' = max_mod_rev (export_snapshot_data s ks) \<and> latest_bounded t' \<and>
    watchers t' = watchers t \<and> notify_tx t' = notify_tx t"
proof -
  let ?es = "export_snapshot_data s ks"
  have pos: "\<forall>(k, b, c, m, ver)\<in>set ?es. 1 \<le> m"
    using live_mod_pos(1)[OF s] by (auto simp: set_export[OF ks(2)] entry_of_def)
  from import_snapshot_returns[OF t export_distinct[OF ks(1)] pos] obtain t' where
    t': "import_snapshot_data t ?es = Returns t'" "imported t' (nat (max_mod_rev ?es)) ?es"
      "watchers t' = watchers t" "notify_tx t' = notify_tx t" by blast
  have "0 \<le> max_mod_rev ?es"
    using max_mod_rev_mem[of ?es] pos by (cases "?es = []") (auto simp: max_mod_rev_def)
  then have cr: "current_revision t' = max_mod_rev ?es" and cur: "current t' = live s"
    using t'(2) by (simp_all add: imported_def current_revision_def map_of_export[OF ks(2,1)])
  have le: "mod_revision v \<le> max_mod_rev ?es" if "live s k = Some v" for k v
    using max_mod_rev_ge[of k "the (val v)" "create_revision v" "mod_revision v" "version v" ?es] that
    by (auto simp: set_export[OF ks(2)] entry_of_def)
  have "latest_bounded t'"
  proof -
    have "\<exists>v. live s k = Some v" if "tree_map t' k = Some q" for k q
      using cur that by (metis current_def option.simps(9))
    then have "tree_map t' \<noteq> Map.empty \<longrightarrow> 0 < current_revision t'"
      using le live_mod_pos(1)[OF s] cr by (fastforce simp: fun_eq_iff)
    with le show ?thesis by (simp add: latest_bounded_def cur cr)
  qed
  with t' cr cur show ?thesis by (auto simp: imported_def)
qed

lemma latest_bounded_repr:
  assumes "store_repr s h" "h \<noteq> []"
  shows "latest_bounded s"
  using assms hist_latest_mod_le store_repr_item[OF assms(1)] store_reprD(6)[OF assms(1)]
  by (fastforce simp: latest_bounded_def current_def item_repr_def placeholder_item_def split: option.splits)

lemma live_idem:
  assumes "current t = live s"
  shows "live t = live s"
proof
  show "live t k = live s k" for k
    using live_val[of s k] by (cases "live s k") (auto simp: live_def[of t] assms)
qed

lemma same_range:
  assumes "index_wf s" "latest_bounded s" "index_wf t" "latest_bounded t" "live t = live s"
    and "prefix_and_range_of_key start end = Inr (p, lo, hi)" "\<not> inverted lo hi"
  shows "\<exists>L n. store_range s start end 0 lim = Returns (Inr \<lparr>kvs = L, latest_rev = current_revision s, count = n\<rparr>) \<and>
    store_range t start end 0 lim = Returns (Inr \<lparr>kvs = L, latest_rev = current_revision t, count = n\<rparr>)"
proof -
  have "0 \<le> current_revision s" "0 \<le> current_revision t" by (simp_all add: current_revision_def)
  from store_range_current[OF assms(1,2,6,7) this(1), of lim] store_range_current[OF assms(3,4,6,7) this(2), of lim]
  show ?thesis unfolding assms(5) using ascending_unique by metis
qed

section \<open>The keys a store knows\<close>

lemma commit_value_keys: "commit_value s r revs v = Returns (n, nv, s') \<Longrightarrow> tree_map s' = tree_map s"
  by (auto simp: commit_value_def Let_def bind_run_eq_Returns)

lemma store_set_keys:
  assumes "store_set s k v required = Returns (s', res, w)"
  shows "dom (tree_map s') = insert k (dom (tree_map s))"
proof -
  obtain s1 r b where e: "set_entry s k = (s1, r, b)" by (metis prod_cases3)
  then have "dom (tree_map s1) = insert k (dom (tree_map s))"
    by (auto simp: set_entry_def insert_item_def Let_def split: option.splits prod.splits)
  moreover have "tree_map s' = tree_map s1"
    using assms e
    by (auto simp: store_set_def Let_def bind_run_eq_Returns notify_watchers_def dest!: commit_value_keys
        split: option.splits)
  ultimately show ?thesis by simp
qed

lemma store_writes_keys: "store_writes s ws = Returns s' \<Longrightarrow> dom (tree_map s') = dom (tree_map s) \<union> fst ` set ws"
proof (induction ws arbitrary: s)
  case (Cons w ws)
  obtain k v where w: "w = (k, v)" by fastforce
  from Cons.prems obtain s1 res x where
    s1: "store_set s k v None = Returns (s1, res, x)" "store_writes s1 ws = Returns s'"
    by (auto simp: w bind_run_eq_Returns)
  from store_set_keys[OF s1(1)] Cons.IH[OF s1(2)] show ?case by (simp add: w)
qed simp

lemma example_keys: "dom (tree_map example_store) = {key_a, key_b}" "distinct [key_b, key_a]"
proof -
  obtain s' where s': "store_writes (store_init 2 None) example_writes = Returns s'"
    using store_writes_repr[OF store_repr_init[of 2 None], of example_writes] by auto
  have "example_store = s'" by (simp add: example_store_def s')
  with store_writes_keys[OF s'] show "dom (tree_map example_store) = {key_a, key_b}"
    by (simp add: store_init_def) (auto simp: example_writes_def)
  show "distinct [key_b, key_a]" by code_simp
qed

lemma example_log: "bd_invar (values_by_revision (store_init 2 None))" "example_history \<noteq> []"
  using store_reprD(2)[OF store_repr_init[of 2 None]] example_facts(1) by auto

section \<open>Properties\<close>



text \<open>
  Exporting a restored store gives the snapshot it was restored from, entry for entry: values,
  create revisions, modification revisions and versions survive.
\<close>

lemma snapshot_export_import:
  assumes "store_repr s h" "distinct ks" "set ks = dom (tree_map s)" "bd_invar (values_by_revision t)"
  shows "\<exists>t'. import_snapshot_data t (export_snapshot_data s ks) = Returns t' \<and>
    dom (tree_map t') = {k. hist_live h k \<noteq> None} \<and>
    (\<forall>ks'. set ks' = dom (tree_map t') \<longrightarrow>
       set (export_snapshot_data t' ks') = set (export_snapshot_data s ks))"
proof -
  obtain t' where t': "import_snapshot_data t (export_snapshot_data s ks) = Returns t'" "current t' = live s"
    using restore[OF assms] by blast
  have "dom (tree_map t') = dom (current t')" by (auto simp: current_def dom_def)
  then have "dom (tree_map t') = {k. hist_live h k \<noteq> None}"
    using live_store_repr[OF assms(1)] by (auto simp: t'(2) dom_def)
  with t'(1) show ?thesis
    using set_export[of _ t'] set_export[OF assms(3)] live_idem[OF t'(2)] by auto
qed

lemma snapshot_export_import_witness:
  "\<exists>t'. import_snapshot_data (store_init 2 None) (export_snapshot_data example_store [key_b, key_a]) = Returns t' \<and>
    dom (tree_map t') = {k. hist_live example_history k \<noteq> None} \<and>
    (\<forall>ks'. set ks' = dom (tree_map t') \<longrightarrow>
       set (export_snapshot_data t' ks') = {(key_a, [4], 1, 4, 3)})"
proof -
  have "export_snapshot_data example_store [key_b, key_a] = [(key_a, [4], 1, 4, 3)]" by code_simp
  with snapshot_export_import[OF example_repr example_keys(2) _ example_log(1)] show ?thesis
    by (simp add: example_keys insert_commute)
qed

text \<open>
  A restored store continues from the greatest modification revision of a live key. That is the
  revision of the exporting store exactly when the last write before the export was not a
  deletion; after a deletion the restored replica is behind.
\<close>

lemma snapshot_revision:
  assumes "store_repr s ((k, v) # h)" "distinct ks" "set ks = dom (tree_map s)"
    and "bd_invar (values_by_revision t)"
  shows "\<exists>t'. import_snapshot_data t (export_snapshot_data s ks) = Returns t' \<and>
    current_revision t' \<le> current_revision s \<and>
    (current_revision t' = current_revision s \<longleftrightarrow> v \<noteq> None)"
proof -
  let ?es = "export_snapshot_data s ks" and ?h = "(k, v) # h"
  obtain t' where t': "import_snapshot_data t ?es = Returns t'" "current_revision t' = max_mod_rev ?es"
    using restore[OF assms] by blast
  have cs: "current_revision s = int (length h) + 1" using store_reprD(6)[OF assms(1)] by simp
  have es: "set ?es = {entry_of k v | k v. hist_live ?h k = Some v}"
    using set_export[OF assms(3)] live_store_repr[OF assms(1)] by simp
  have mem: "max_mod_rev ?es = 0 \<or> (\<exists>k' v'. hist_live ?h k' = Some v' \<and> max_mod_rev ?es = mod_revision v')"
    using max_mod_rev_mem[of ?es] unfolding es
    by (cases "?es = []") (auto simp: max_mod_rev_def entry_of_def)
  have old: "mod_revision v' \<le> int (length h)" if "hist_live ?h k' = Some v'" "v = None" for k' v'
    using that hist_live_SomeD[OF that(1)] hist_latest_mod_le[of h k' v'] by (auto split: if_splits)
  have "mod_revision v' \<le> int (length h) + 1" if "hist_live ?h k' = Some v'" for k' v'
    using hist_live_SomeD[OF that] hist_latest_mod_le[of ?h k' v'] by simp
  then have le: "max_mod_rev ?es \<le> int (length h) + 1" using mem by force
  have "v \<noteq> None \<Longrightarrow> int (length h) + 1 \<le> max_mod_rev ?es"
  proof -
    assume v: "v \<noteq> None"
    let ?v = "write_value (hist_latest h k) (int (length h) + 1) v"
    have "hist_live ?h k = Some ?v" using v by (simp add: hist_live_def)
    then have "entry_of k ?v \<in> set ?es" unfolding es by blast
    then show ?thesis using max_mod_rev_ge[of k _ _ _ _ ?es] by (fastforce simp: entry_of_def)
  qed
  with le old mem cs t' show ?thesis by fastforce
qed

lemma snapshot_revision_witness:
  "\<exists>t'. import_snapshot_data (store_init 2 None) (export_snapshot_data example_store [key_b, key_a]) = Returns t' \<and>
    current_revision t' < current_revision example_store"
proof -
  have "(key_b, None) # tl example_history = example_history" by code_simp
  then have "store_repr example_store ((key_b, None) # tl example_history)" using example_repr by simp
  from snapshot_revision[OF this example_keys(2) _ example_log(1)] show ?thesis
    by (force simp: example_keys)
qed

end
