(* ===== verification/Raft_State_Machine.thy ===== *)
theory Raft_State_Machine
  imports Raft_Log Store_Snapshot
begin

text \<open>
  The state machine of \<open>src/raft.rs\<close>: \<open>StateMachineStore\<close> applies committed entries to the store,
  builds snapshots and installs them. \<open>serde_json\<close> is a pair of parameters, \<open>to_vec\<close> and
  \<open>from_slice\<close>. The text of a snapshot id is kept as the values formatted into it. The hash map's
  iteration order is an argument of \<open>build_snapshot\<close>, as in the export.
\<close>

section \<open>Types\<close>

type_synonym ('l, 'm) StoredMembership = "'l log_id option \<times> 'm"

record ('l, 'm) StateMachineData =
  last_applied_log :: "'l log_id option"
  last_membership :: "('l, 'm) StoredMembership"

record ('l, 'm) FullSnapshotData =
  fs_last_applied_log :: "'l log_id option"
  fs_last_membership :: "('l, 'm) StoredMembership"
  kv_entries :: "snapshot_entry list"

record ('l, 'm) SnapshotMeta =
  meta_last_log_id :: "'l log_id option"
  meta_last_membership :: "('l, 'm) StoredMembership"
  snapshot_id :: "'l log_id option \<times> nat"

record ('l, 'm) StoredSnapshot =
  snap_meta :: "('l, 'm) SnapshotMeta"
  snap_data :: byte_array

record ('l, 'm) StateMachineStore =
  sm_store :: Store
  sm :: "('l, 'm) StateMachineData"
  snapshot_idx :: nat
  current_snapshot :: "('l, 'm) StoredSnapshot option"

datatype storage_error = StateMachineWrite string | StateMachineRead string

definition state_machine_new :: "'m \<Rightarrow> Store \<Rightarrow> ('l, 'm) StateMachineStore" where
  "state_machine_new no_members s =
     \<lparr>sm_store = s, sm = \<lparr>last_applied_log = None, last_membership = (None, no_members)\<rparr>,
      snapshot_idx = 0, current_snapshot = None\<rparr>"

section \<open>Applying entries\<close>

definition revision_of :: "set_result \<Rightarrow> i64" where
  "revision_of res = (case res of Inr r \<Rightarrow> r | Inl (r, _) \<Rightarrow> r)"

definition apply_request :: "Store \<Rightarrow> RaftRequest \<Rightarrow> (Store \<times> i64) run" where
  "apply_request s req =
     (case req of
        Set key value \<Rightarrow> bind_run (store_set s key (Some value) None) (\<lambda>(s', res, _). Returns (s', revision_of res))
      | Delete key \<Rightarrow> bind_run (store_delete s key None) (\<lambda>(s', res, _). Returns (s', revision_of res)))"

definition apply_entry ::
    "('l, 'm) StateMachineStore \<Rightarrow> ('l, 'm) entry \<Rightarrow> (('l, 'm) StateMachineStore \<times> i64) run" where
  "apply_entry x e =
     (let x1 = x\<lparr>sm := (sm x)\<lparr>last_applied_log := Some (entry_log_id e)\<rparr>\<rparr> in
      case payload e of
        Blank \<Rightarrow> Returns (x1, current_revision (sm_store x))
      | Normal req \<Rightarrow>
          bind_run (apply_request (sm_store x) req) (\<lambda>(s', r). Returns (x1\<lparr>sm_store := s'\<rparr>, r))
      | Membership mem \<Rightarrow>
          Returns (x1\<lparr>sm := (sm x1)\<lparr>last_membership := (Some (entry_log_id e), mem)\<rparr>\<rparr>,
            current_revision (sm_store x)))"

fun sm_apply ::
    "('l, 'm) StateMachineStore \<Rightarrow> ('l, 'm) entry list \<Rightarrow> (('l, 'm) StateMachineStore \<times> i64 list) run" where
  "sm_apply x [] = Returns (x, [])"
| "sm_apply x (e # es) =
     bind_run (apply_entry x e)
       (\<lambda>(x1, r). bind_run (sm_apply x1 es) (\<lambda>(x2, rs). Returns (x2, r # rs)))"

definition applied_state ::
    "('l, 'm) StateMachineStore \<Rightarrow> 'l log_id option \<times> ('l, 'm) StoredMembership" where
  "applied_state x = (last_applied_log (sm x), last_membership (sm x))"

section \<open>Snapshots\<close>

definition snapshot_of :: "byte_array list \<Rightarrow> ('l, 'm) StateMachineStore \<Rightarrow> ('l, 'm) FullSnapshotData" where
  "snapshot_of order x =
     \<lparr>fs_last_applied_log = last_applied_log (sm x), fs_last_membership = last_membership (sm x),
      kv_entries = export_snapshot_data (sm_store x) order\<rparr>"

definition build_snapshot ::
    "(('l, 'm) FullSnapshotData \<Rightarrow> string + byte_array) \<Rightarrow> byte_array list \<Rightarrow> ('l, 'm) StateMachineStore \<Rightarrow>
       ('l, 'm) StateMachineStore \<times> (storage_error + ('l, 'm) SnapshotMeta \<times> byte_array)" where
  "build_snapshot to_vec order x =
     (let snap = snapshot_of order x
      in case to_vec snap of
           Inl e \<Rightarrow> (x, Inl (StateMachineWrite e))
         | Inr data \<Rightarrow>
             let idx = snapshot_idx x + 1;
                 meta = \<lparr>meta_last_log_id = fs_last_applied_log snap,
                         meta_last_membership = fs_last_membership snap,
                         snapshot_id = (fs_last_applied_log snap, idx)\<rparr>
             in (x\<lparr>snapshot_idx := idx, current_snapshot := Some \<lparr>snap_meta = meta, snap_data = data\<rparr>\<rparr>,
                 Inr (meta, data)))"

definition begin_receiving_snapshot :: byte_array where
  "begin_receiving_snapshot = []"

definition install_snapshot ::
    "(byte_array \<Rightarrow> string + ('l, 'm) FullSnapshotData) \<Rightarrow> ('l, 'm) StateMachineStore \<Rightarrow>
       ('l, 'm) SnapshotMeta \<Rightarrow> byte_array \<Rightarrow> (('l, 'm) StateMachineStore \<times> (storage_error + unit)) run" where
  "install_snapshot from_slice x meta data =
     (case from_slice data of
        Inl e \<Rightarrow> Returns (x, Inl (StateMachineRead e))
      | Inr recovered \<Rightarrow>
          bind_run (import_snapshot_data (sm_store x) (kv_entries recovered))
            (\<lambda>s'. Returns (x\<lparr>sm_store := s',
               sm := \<lparr>last_applied_log = fs_last_applied_log recovered,
                      last_membership = fs_last_membership recovered\<rparr>,
               current_snapshot := Some \<lparr>snap_meta = meta, snap_data = data\<rparr>\<rparr>, Inr ())))"

definition get_current_snapshot ::
    "('l, 'm) StateMachineStore \<Rightarrow> (('l, 'm) SnapshotMeta \<times> byte_array) option" where
  "get_current_snapshot x = map_option (\<lambda>s. (snap_meta s, snap_data s)) (current_snapshot x)"

section \<open>Specification\<close>

text \<open>The writes of an entry, and the revision each entry of a log is answered with.\<close>

definition request_write :: "RaftRequest \<Rightarrow> byte_array \<times> byte_array option" where
  "request_write req = (case req of Set k v \<Rightarrow> (k, Some v) | Delete k \<Rightarrow> (k, None))"

definition writes_of :: "('l, 'm) entry \<Rightarrow> (byte_array \<times> byte_array option) list" where
  "writes_of e = (case payload e of Normal req \<Rightarrow> [request_write req] | _ \<Rightarrow> [])"

fun log_revisions :: "history \<Rightarrow> ('l, 'm) entry list \<Rightarrow> i64 list" where
  "log_revisions h [] = []"
| "log_revisions h (e # es) =
     (let h' = hist_writes h (writes_of e) in int (length h') # log_revisions h' es)"

definition log_history :: "history \<Rightarrow> ('l, 'm) entry list \<Rightarrow> history" where
  "log_history h es = hist_writes h (concat (map writes_of es))"

section \<open>Lemmas\<close>

lemma hist_writes_append: "hist_writes h (xs @ ys) = hist_writes (hist_writes h xs) ys"
  by (induction h xs rule: hist_writes.induct) auto

lemma store_set_revision_of:
  assumes "store_repr s h"
  shows "\<exists>s' res w. store_set s k v None = Returns (s', res, w) \<and>
    store_repr s' (hist_writes h [(k, v)]) \<and> revision_of res = int (length (hist_writes h [(k, v)]))"
  using store_set_admitted[OF assms, of k v None] store_set_refused[OF assms, of k v None]
  by (auto simp: admits_unconditional revision_of_def)

lemma apply_request_repr:
  assumes "store_repr s h"
  shows "\<exists>s'. apply_request s req = Returns (s', int (length (hist_writes h [request_write req]))) \<and>
    store_repr s' (hist_writes h [request_write req])"
proof (cases req)
  case (Set k v)
  with store_set_revision_of[OF assms, of k "Some v"] show ?thesis
    by (auto simp: apply_request_def request_write_def)
next
  case (Delete k)
  with store_set_revision_of[OF assms, of k None] show ?thesis
    by (auto simp: apply_request_def request_write_def store_delete_def)
qed

lemma apply_entry_repr:
  assumes "store_repr (sm_store x) h"
  shows "\<exists>x'. apply_entry x e = Returns (x', int (length (hist_writes h (writes_of e)))) \<and>
    store_repr (sm_store x') (hist_writes h (writes_of e)) \<and>
    last_applied_log (sm x') = Some (entry_log_id e) \<and>
    last_membership (sm x') =
      (case payload e of Membership mem \<Rightarrow> (Some (entry_log_id e), mem) | _ \<Rightarrow> last_membership (sm x))"
proof (cases "payload e")
  case (Normal req)
  with apply_request_repr[OF assms, of req] show ?thesis
    by (auto simp: apply_entry_def Let_def writes_of_def simp del: hist_writes.simps)
qed (use assms store_reprD(6)[OF assms] in \<open>auto simp: apply_entry_def Let_def writes_of_def\<close>)

fun membership_after :: "('l, 'm) StoredMembership \<Rightarrow> ('l, 'm) entry list \<Rightarrow> ('l, 'm) StoredMembership" where
  "membership_after m [] = m"
| "membership_after m (e # es) =
     membership_after (case payload e of Membership mem \<Rightarrow> (Some (entry_log_id e), mem) | _ \<Rightarrow> m) es"

lemma sm_apply_repr:
  assumes "store_repr (sm_store x) h"
  shows "\<exists>x'. sm_apply x es = Returns (x', log_revisions h es) \<and> store_repr (sm_store x') (log_history h es) \<and>
    applied_state x' =
      (if es = [] then last_applied_log (sm x) else Some (entry_log_id (last es)),
       membership_after (last_membership (sm x)) es)"
  using assms
proof (induction es arbitrary: x h)
  case Nil
  then show ?case by (simp add: log_history_def applied_state_def)
next
  case (Cons e es)
  from apply_entry_repr[OF Cons.prems, of e] obtain x1 where
    x1: "apply_entry x e = Returns (x1, int (length (hist_writes h (writes_of e))))"
      "store_repr (sm_store x1) (hist_writes h (writes_of e))"
      "last_applied_log (sm x1) = Some (entry_log_id e)"
      "last_membership (sm x1) =
        (case payload e of Membership mem \<Rightarrow> (Some (entry_log_id e), mem) | _ \<Rightarrow> last_membership (sm x))" by blast
  from Cons.IH[OF x1(2)] x1 show ?case
    by (auto simp: Let_def log_history_def hist_writes_append)
qed

lemma store_set_any:
  assumes "bd_invar (values_by_revision s)"
  shows "\<exists>s' w. store_set s k (Some b) None = Returns (s', Inr (current_revision s + 1), w)"
proof -
  obtain s1 r is_new where e: "set_entry s k = (s1, r, is_new)" by (metis prod_cases3)
  have v: "values_by_revision s1 = values_by_revision s"
    using e by (auto simp: set_entry_def insert_item_def Let_def split: option.splits prod.splits)
  have "set_refused n it (Some b) None = None" for n it
    by (auto simp: set_refused_def required_rev_def required_ver_def Let_def)
  moreover have commit: "\<exists>nv s2. commit_value s1 r revs (Some b) = Returns (current_revision s + 1, nv, s2)" for revs
  proof -
    let ?nv = "new_value (latest_value (tree_items s1 r)) (current_revision s + 1) (Some b)"
    obtain d1 d2 where "bd_push (values_by_revision s) placeholder_value = Returns (latest_revision (values_by_revision s), d1)"
      "bd_set d1 (latest_revision (values_by_revision s)) ?nv = Returns (True, d2)"
      using vlog.push_then_put[OF assms, of placeholder_value ?nv] by blast
    then show ?thesis by (simp add: commit_value_def Let_def v current_revision_def rev_index_of_slot)
  qed
  moreover obtain nv s2 where
    "commit_value s1 r (drain_compacted (compacted_revision s1) (revisions (tree_items s1 r))) (Some b) =
      Returns (current_revision s + 1, nv, s2)" using commit by blast
  moreover obtain s3 w where
    "notify_watchers s2 (item_key (tree_items s1 r)) nv (if is_new then None else Some (latest_value (tree_items s1 r)))
       (fst (prefix_split k)) = (s3, w)" by fastforce
  ultimately show ?thesis using e by (simp add: store_set_def Let_def)
qed

section \<open>Properties\<close>

text \<open>
  C8: the state machine is deterministic in the log. Whatever a replica's store looks like inside, if
  it holds the history \<open>h\<close>, applying a list of entries returns, answers every entry with the
  revision that the log alone determines, leaves the history that the log alone determines, and
  records the last entry and the last membership as applied.
\<close>

theorem apply_determined_by_log:
  assumes "store_repr (sm_store x) h"
  shows "\<exists>x'. sm_apply x es = Returns (x', log_revisions h es) \<and> store_repr (sm_store x') (log_history h es) \<and>
    applied_state x' =
      (if es = [] then last_applied_log (sm x) else Some (entry_log_id (last es)),
       membership_after (last_membership (sm x)) es)"
  by (rule sm_apply_repr[OF assms])

definition example_replica :: "(nat, nat list) StateMachineStore" where
  "example_replica = state_machine_new [] example_store"

definition entry_at_index :: "nat \<Rightarrow> nat list entry_payload \<Rightarrow> (nat, nat list) entry" where
  "entry_at_index i p = \<lparr>entry_log_id = \<lparr>leader_id = 1, log_index = i\<rparr>, payload = p\<rparr>"

theorem apply_determined_by_log_witness:
  "\<exists>x'. sm_apply example_replica
      [entry_at_index 6 (Membership [1, 2]), entry_at_index 7 (Normal (Delete key_b)),
       entry_at_index 8 (Normal (Set key_b [8]))] = Returns (x', [5, 5, 6]) \<and>
    applied_state x' = (Some \<lparr>leader_id = 1, log_index = 8\<rparr>, (Some \<lparr>leader_id = 1, log_index = 6\<rparr>, [1, 2]))"
proof -
  have r: "store_repr (sm_store example_replica) example_history"
    by (simp add: example_replica_def state_machine_new_def example_repr)
  have "log_revisions example_history
      [entry_at_index 6 (Membership [1, 2]), entry_at_index 7 (Normal (Delete key_b)),
       entry_at_index 8 (Normal (Set key_b [8]))] = [5, 5, 6]" by code_simp
  with apply_determined_by_log[OF r, of "[entry_at_index 6 (Membership [1, 2]),
      entry_at_index 7 (Normal (Delete key_b)), entry_at_index 8 (Normal (Set key_b [8]))]"]
  show ?thesis by (auto simp: entry_at_index_def)
qed

text \<open>
  How entries are batched does not matter: applying a batch and then another is applying both at
  once, in the resulting state and in the answers, also when a call panics.
\<close>

lemma apply_batches:
  "sm_apply x (es @ es') =
     bind_run (sm_apply x es) (\<lambda>(x1, rs). bind_run (sm_apply x1 es') (\<lambda>(x2, rs'). Returns (x2, rs @ rs')))"
proof (induction es arbitrary: x)
  case Nil
  then show ?case by (cases "sm_apply x es'") auto
next
  case (Cons e es)
  show ?case
  proof (cases "apply_entry x e")
    case (Returns p)
    obtain x1 r where "p = (x1, r)" by fastforce
    with Returns Cons[of x1] show ?thesis
      by (cases "sm_apply x1 es"; cases "sm_apply (fst (the (returned (sm_apply x1 es)))) es'") auto
  qed simp
qed

text \<open>
  A snapshot carries the replica over. If the decoder inverts the encoder on it, installing on any
  replica the snapshot that another one built makes it report the builder's applied entry and
  membership, hold exactly the builder's live keys with their values and revisions, and keep the
  snapshot as its current one.
\<close>

lemma install_built_snapshot:
  assumes "to_vec (snapshot_of order x) = Inr bs" "from_slice bs = Inr (snapshot_of order x)"
    and "store_repr (sm_store x) h" "distinct order" "set order = dom (tree_map (sm_store x))"
    and "bd_invar (values_by_revision (sm_store y))"
  shows "\<exists>x' meta data y'. build_snapshot to_vec order x = (x', Inr (meta, data)) \<and>
    install_snapshot from_slice y meta data = Returns (y', Inr ()) \<and>
    applied_state y' = applied_state x \<and> current (sm_store y') = hist_live h \<and>
    get_current_snapshot y' = Some (meta, data) \<and> get_current_snapshot x' = Some (meta, data)"
proof -
  obtain t where t: "import_snapshot_data (sm_store y) (export_snapshot_data (sm_store x) order) = Returns t"
    "current t = live (sm_store x)" using restore[OF assms(3-6)] by blast
  have "live (sm_store x) = hist_live h" using live_store_repr[OF assms(3)] by auto
  with assms(1,2) t show ?thesis
    by (auto simp: build_snapshot_def install_snapshot_def applied_state_def get_current_snapshot_def
        Let_def snapshot_of_def)
qed

text \<open>A stand-in for the codec that decodes the one snapshot of the example.\<close>

definition example_to_vec :: "(nat, nat list) FullSnapshotData \<Rightarrow> string + byte_array" where
  "example_to_vec d = Inr [123, 125]"

definition example_from_slice :: "byte_array \<Rightarrow> string + (nat, nat list) FullSnapshotData" where
  "example_from_slice bs =
     (if bs = [123, 125] then Inr (snapshot_of [key_b, key_a] example_replica) else Inl ''expected value'')"

lemma example_serde:
  "example_to_vec (snapshot_of [key_b, key_a] example_replica) = Inr [123, 125]"
  "example_from_slice [123, 125] = Inr (snapshot_of [key_b, key_a] example_replica)"
  by (simp_all add: example_to_vec_def example_from_slice_def)

lemma example_replica_repr:
  "store_repr (sm_store example_replica) example_history"
  "set [key_b, key_a] = dom (tree_map (sm_store example_replica))"
  "bd_invar (values_by_revision (sm_store (state_machine_new [] (store_init 2 None))))"
  by (simp_all add: example_replica_def state_machine_new_def example_repr example_keys insert_commute example_log)

lemma install_built_snapshot_witness:
  "\<exists>x' meta data y'. build_snapshot example_to_vec [key_b, key_a] example_replica = (x', Inr (meta, data)) \<and>
    install_snapshot example_from_slice (state_machine_new [] (store_init 2 None)) meta data = Returns (y', Inr ()) \<and>
    applied_state y' = applied_state example_replica \<and> current (sm_store y') = hist_live example_history \<and>
    get_current_snapshot y' = Some (meta, data) \<and> get_current_snapshot x' = Some (meta, data)"
  by (rule install_built_snapshot[where to_vec = example_to_vec and from_slice = example_from_slice and
        order = "[key_b, key_a]" and x = example_replica and y = "state_machine_new [] (store_init 2 None)" and
        bs = "[123, 125]" and h = example_history,
        OF example_serde example_replica_repr(1) example_keys(2) example_replica_repr(2,3)])

text \<open>
  C35: replicas diverge after a snapshot. Take a replica whose last write was a deletion, and another
  that installed its snapshot. The next put is answered with a smaller revision by the second one:
  the two replicas number all later revisions differently.
\<close>

theorem snapshot_diverges:
  assumes "to_vec (snapshot_of order x) = Inr bs" "from_slice bs = Inr (snapshot_of order x)"
    and x: "store_repr (sm_store x) ((k, None) # h)" "distinct order" "set order = dom (tree_map (sm_store x))"
    and y: "bd_invar (values_by_revision (sm_store y))"
    and e: "payload e = Normal (Set k' b)"
  shows "\<exists>x' meta data y' x2 y2 r r'. build_snapshot to_vec order x = (x', Inr (meta, data)) \<and>
    install_snapshot from_slice y meta data = Returns (y', Inr ()) \<and>
    sm_apply x' [e] = Returns (x2, [r]) \<and> sm_apply y' [e] = Returns (y2, [r']) \<and> r' < r"
proof -
  let ?es = "export_snapshot_data (sm_store x) order"
  obtain t where t: "import_snapshot_data (sm_store y) ?es = Returns t" "bd_invar (values_by_revision t)"
    "current_revision t = max_mod_rev ?es" using restore[OF x y] by blast
  have "mod_revision v \<le> int (length h)" if "live (sm_store x) k'' = Some v" for k'' v
    using that hist_live_SomeD[of "(k, None) # h" k'' v] hist_latest_mod_le[of h k'' v]
    by (auto simp: live_store_repr[OF x(1)] split: if_splits)
  then have "max_mod_rev ?es \<le> int (length h)"
    using max_mod_rev_mem[of ?es] set_export[OF x(3)]
    by (cases "?es = []") (auto simp: max_mod_rev_def entry_of_def)
  then have less: "current_revision t + 1 < current_revision (sm_store x) + 1"
    using t(3) store_reprD(6)[OF x(1)] by simp
  obtain x2 w where x2: "store_set (sm_store x) k' (Some b) None = Returns (x2, Inr (current_revision (sm_store x) + 1), w)"
    using store_set_any[OF store_reprD(2)[OF x(1)]] by blast
  obtain y2 w' where y2: "store_set t k' (Some b) None = Returns (y2, Inr (current_revision t + 1), w')"
    using store_set_any[OF t(2)] by blast
  from less assms(1,2) t(1) x2 y2 e show ?thesis
    by (auto simp: build_snapshot_def install_snapshot_def apply_entry_def apply_request_def revision_of_def
        Let_def snapshot_of_def)
qed

theorem snapshot_diverges_witness:
  "\<exists>x' meta data y' x2 y2 r r'. build_snapshot example_to_vec [key_b, key_a] example_replica = (x', Inr (meta, data)) \<and>
    install_snapshot example_from_slice (state_machine_new [] (store_init 2 None)) meta data = Returns (y', Inr ()) \<and>
    sm_apply x' [entry_at_index 9 (Normal (Set key_a [7]))] = Returns (x2, [r]) \<and>
    sm_apply y' [entry_at_index 9 (Normal (Set key_a [7]))] = Returns (y2, [r']) \<and> r' < r"
proof -
  have "(key_b, None) # tl example_history = example_history" by code_simp
  then have "store_repr (sm_store example_replica) ((key_b, None) # tl example_history)"
    using example_replica_repr(1) by simp
  from snapshot_diverges[where to_vec = example_to_vec and from_slice = example_from_slice and
      order = "[key_b, key_a]" and x = example_replica and y = "state_machine_new [] (store_init 2 None)" and
      bs = "[123, 125]" and k = key_b and h = "tl example_history" and
      e = "entry_at_index 9 (Normal (Set key_a [7]))" and k' = key_a and b = "[7]",
      OF example_serde this example_keys(2) example_replica_repr(2,3)]
  show ?thesis by (simp add: entry_at_index_def)
qed

end
