(* ===== verification/Kv_Service.thy ===== *)
theory Kv_Service
  imports Raft_State_Machine Store_Read
begin

text \<open>
  The \<open>KV\<close> service of \<open>src/kv_service.rs\<close>: \<open>range\<close>, \<open>put\<close>, \<open>delete_range\<close>, \<open>txn\<close> and \<open>compact\<close>
  on the store, alone or behind Raft. A handler is one atomic step. The node of \<open>openraft\<close> is a
  parameter: what its metrics say, and what \<open>client_write\<close> leaves in the store of this node and
  answers. Of the protocol messages the records keep the fields the handlers read or write.
\<close>

section \<open>Messages\<close>

record ResponseHeader =
  cluster_id :: nat
  member_id :: nat
  revision :: i64
  raft_term :: nat

definition header :: "i64 \<Rightarrow> ResponseHeader" where
  "header r = \<lparr>cluster_id = 0, member_id = 0, revision = r, raft_term = 0\<rparr>"

record RangeRequest =
  range_key :: byte_array
  range_end :: byte_array
  range_limit :: i64
  range_revision :: i64
  count_only :: bool

record RangeResponse =
  range_header :: ResponseHeader
  range_count :: i64
  range_kvs :: "KeyValue list"
  range_more :: bool

record PutRequest =
  put_key :: byte_array
  put_value :: byte_array
  put_prev_kv :: bool
  ignore_value :: bool

record PutResponse =
  put_header :: ResponseHeader
  put_prev :: "KeyValue option"

record DeleteRangeRequest =
  delete_key :: byte_array
  delete_end :: byte_array
  delete_prev_kv :: bool

record DeleteRangeResponse =
  delete_header :: ResponseHeader
  deleted :: i64
  prev_kvs :: "KeyValue list"

datatype target_union =
  TargetModRevision i64 | TargetVersion i64 | TargetCreateRevision i64
| TargetValue byte_array | TargetLease i64

record Compare =
  cmp_key :: byte_array
  cmp_result :: int
  cmp_target :: "target_union option"

text \<open>A transaction may nest transactions; an operation whose \<open>oneof\<close> is not set is \<open>None\<close>.\<close>

datatype txn_request =
  TxnRequest (txn_compare: "Compare list") (txn_success: "request_op option list")
    (txn_failure: "request_op option list")
and request_op =
  RequestRange RangeRequest | RequestPut PutRequest
| RequestDeleteRange DeleteRangeRequest | RequestTxn txn_request

datatype response_op =
  ResponseRange RangeResponse | ResponsePut PutResponse | ResponseDeleteRange DeleteRangeResponse

record TxnResponse =
  txn_header :: ResponseHeader
  responses :: "response_op list"
  succeeded :: bool

section \<open>The service\<close>

text \<open>
  \<open>client_write\<close> of the Raft node: the store of this node and the answer when the call returns.
\<close>

record 'e RaftNode =
  node_id :: NodeId
  current_leader :: "NodeId option"
  client_write :: "Store \<Rightarrow> RaftRequest \<Rightarrow> (Store \<times> ('e + i64)) run"

record 'e KvService =
  kv_store :: Store
  kv_raft :: "'e RaftNode option"

text \<open>
  The statuses of the service. \<open>Rpc\<close> is a status with a fixed text; the others name the code and
  text in which the code formats the argument.
\<close>

datatype 'e rpc_error =
  Rpc status
| NotLeader NodeId
| RaftWriteFailed 'e
| PutFailed "i64 \<times> KeyValue option"
| CompactionFailed status

fun rpc_code :: "'e rpc_error \<Rightarrow> code" where
  "rpc_code (Rpc (Status c _ _)) = c"
| "rpc_code (NotLeader _) = FailedPrecondition"
| "rpc_code (RaftWriteFailed _) = Internal"
| "rpc_code (PutFailed _) = Internal"
| "rpc_code (CompactionFailed _) = Internal"

abbreviation invalid_argument :: "string \<Rightarrow> 'e rpc_error" where
  "invalid_argument msg \<equiv> Rpc (Status InvalidArgument msg [])"

type_synonym ('e, 'a) rpc = "('e KvService \<times> ('e rpc_error + 'a)) run"

text \<open>Sequencing with the operator \<open>?\<close>: an error ends the handler.\<close>

definition rpc_bind :: "('e, 'a) rpc \<Rightarrow> ('e KvService \<Rightarrow> 'a \<Rightarrow> ('e, 'b) rpc) \<Rightarrow> ('e, 'b) rpc" where
  "rpc_bind m f =
     bind_run m (\<lambda>(sv, r). case r of Inl e \<Rightarrow> Returns (sv, Inl e) | Inr x \<Rightarrow> f sv x)"

definition kv_new :: "Store \<Rightarrow> 'e KvService" where
  "kv_new s = \<lparr>kv_store = s, kv_raft = None\<rparr>"

definition kv_with_raft :: "Store \<Rightarrow> 'e RaftNode \<Rightarrow> 'e KvService" where
  "kv_with_raft s raft = \<lparr>kv_store = s, kv_raft = Some raft\<rparr>"

definition ensure_leader :: "'e KvService \<Rightarrow> 'e rpc_error + unit" where
  "ensure_leader sv =
     (case kv_raft sv of
        None \<Rightarrow> Inr ()
      | Some raft \<Rightarrow>
          (case current_leader raft of
             Some leader \<Rightarrow> if leader = node_id raft then Inr () else Inl (NotLeader leader)
           | None \<Rightarrow> Inl (Rpc (Status Unavailable ''no leader elected'' []))))"

definition raft_write :: "'e KvService \<Rightarrow> RaftRequest \<Rightarrow> ('e, i64) rpc" where
  "raft_write sv req =
     (case kv_raft sv of
        None \<Rightarrow> Returns (sv, Inl (Rpc (Status FailedPrecondition ''raft not enabled'' [])))
      | Some raft \<Rightarrow>
          bind_run (client_write raft (kv_store sv) req)
            (\<lambda>(s', res). Returns (sv\<lparr>kv_store := s'\<rparr>,
               case res of Inl e \<Rightarrow> Inl (RaftWriteFailed e) | Inr r \<Rightarrow> Inr r)))"

definition check_compare :: "KeyValue option \<Rightarrow> SetRequired option \<Rightarrow> bool" where
  "check_compare current_kv required =
     (case current_kv of
        Some x \<Rightarrow>
          \<not> (0 \<le> required_rev required \<and>
             \<not> cmp_satisfied (required_cmp required) (kv_mod_revision x) (required_rev required)) \<and>
          \<not> (0 \<le> required_ver required \<and>
             \<not> cmp_satisfied (required_cmp required) (kv_version x) (required_ver required))
      | None \<Rightarrow> required_rev required \<le> 0 \<and> required_ver required \<le> 0)"

text \<open>\<open>store.range(..)?\<close> and the first key-value of its answer.\<close>

definition rpc_range :: "'e KvService \<Rightarrow> byte_array \<Rightarrow> byte_array \<Rightarrow> i64 \<Rightarrow> usize option \<Rightarrow> ('e, RangeResult) rpc" where
  "rpc_range sv key stop r limit =
     bind_run (store_range (kv_store sv) key stop r limit)
       (\<lambda>res. Returns (sv, case res of Inl st \<Rightarrow> Inl (Rpc st) | Inr x \<Rightarrow> Inr x))"

definition first_kv :: "RangeResult \<Rightarrow> KeyValue option" where
  "first_kv res = (case kvs res of [] \<Rightarrow> None | x # _ \<Rightarrow> Some x)"

section \<open>Range and put\<close>

definition kv_range :: "'e KvService \<Rightarrow> RangeRequest \<Rightarrow> ('e, RangeResponse) rpc" where
  "kv_range sv req =
     (let limit = (if count_only req then Some 0
                   else if range_limit req = 0 then None
                   else Some (as_usize (range_limit req)))
      in rpc_bind (rpc_range sv (range_key req) (range_end req) (range_revision req) limit)
           (\<lambda>sv res.
              let more = (if count_only req then False
                          else case limit of None \<Rightarrow> False | Some l \<Rightarrow> as_i64 l < count res)
              in Returns (sv, Inr \<lparr>range_header = header (latest_rev res), range_count = count res,
                                   range_kvs = kvs res, range_more = more\<rparr>)))"

text \<open>The proposal through Raft, or the write of a single node.\<close>

definition put_revision :: "'e KvService \<Rightarrow> byte_array \<Rightarrow> byte_array option \<Rightarrow> ('e, i64) rpc" where
  "put_revision sv key value =
     (if kv_raft sv \<noteq> None then
        rpc_bind (Returns (sv, ensure_leader sv))
          (\<lambda>sv _. raft_write sv (Set key (case value of None \<Rightarrow> [] | Some b \<Rightarrow> b)))
      else
        bind_run (store_set (kv_store sv) key value None)
          (\<lambda>(s', res, _). Returns (sv\<lparr>kv_store := s'\<rparr>,
             case res of Inl e \<Rightarrow> Inl (PutFailed e) | Inr r \<Rightarrow> Inr r)))"

definition kv_put :: "'e KvService \<Rightarrow> PutRequest \<Rightarrow> ('e, PutResponse) rpc" where
  "kv_put sv req =
     rpc_bind
       (if put_prev_kv req \<or> ignore_value req
        then rpc_bind (rpc_range sv (put_key req) [] 0 (Some 1)) (\<lambda>sv res. Returns (sv, Inr (first_kv res)))
        else Returns (sv, Inr None))
       (\<lambda>sv prev.
          rpc_bind
            (Returns (sv,
               if ignore_value req
               then (case prev of
                       Some x \<Rightarrow> Inr (Some (kv_value x))
                     | None \<Rightarrow> Inl (invalid_argument ''ignore_value set but key does not exist''))
               else Inr (Some (put_value req))))
            (\<lambda>sv value.
               rpc_bind (put_revision sv (put_key req) value)
                 (\<lambda>sv r. Returns (sv, Inr \<lparr>put_header = header r,
                    put_prev = (if put_prev_kv req then prev else None)\<rparr>))))"

section \<open>Delete\<close>

definition delete_revision :: "'e KvService \<Rightarrow> byte_array \<Rightarrow> ('e, i64) rpc" where
  "delete_revision sv key =
     (if kv_raft sv \<noteq> None then
        rpc_bind (Returns (sv, ensure_leader sv)) (\<lambda>sv _. raft_write sv (Delete key))
      else
        bind_run (store_delete (kv_store sv) key None)
          (\<lambda>(s', res, _). Returns (sv\<lparr>kv_store := s'\<rparr>, Inr (case res of Inr r \<Rightarrow> r | Inl (r, _) \<Rightarrow> r))))"

definition kv_delete_range :: "'e KvService \<Rightarrow> DeleteRangeRequest \<Rightarrow> ('e, DeleteRangeResponse) rpc" where
  "kv_delete_range sv req =
     (if delete_end req \<noteq> []
      then Returns (sv, Inl (invalid_argument ''range end not supported in deleteRange''))
      else rpc_bind (rpc_range sv (delete_key req) [] 0 (Some 1))
        (\<lambda>sv res.
           let existing = first_kv res;
               n = (if existing \<noteq> None then 1 else 0);
               prev = (if delete_prev_kv req then existing else None)
           in rpc_bind (delete_revision sv (delete_key req))
                (\<lambda>sv r. Returns (sv, Inr \<lparr>delete_header = header r, deleted = n,
                   prev_kvs = (if delete_prev_kv req then (case prev of None \<Rightarrow> [] | Some x \<Rightarrow> [x]) else [])\<rparr>))))"

section \<open>Transactions\<close>

text \<open>The checks on the shape of the request, in the order of the code.\<close>

definition txn_required :: "Compare list \<Rightarrow> 'e rpc_error + byte_array \<times> SetRequired" where
  "txn_required cs =
     (case cs of
        [c] \<Rightarrow>
          (case cmp_target c of
             None \<Rightarrow> Inl (invalid_argument ''compare target_union is required'')
           | Some (TargetModRevision r) \<Rightarrow>
               Inr (cmp_key c, \<lparr>required_last_revision = Some r, required_version = None, compare_result = cmp_result c\<rparr>)
           | Some (TargetVersion v) \<Rightarrow>
               Inr (cmp_key c, \<lparr>required_last_revision = None, required_version = Some v, compare_result = cmp_result c\<rparr>)
           | Some _ \<Rightarrow> Inl (invalid_argument ''only MOD or VERSION target supported''))
      | _ \<Rightarrow> Inl (invalid_argument ''only one compare supported''))"

definition txn_check_failure :: "byte_array \<Rightarrow> request_op option list \<Rightarrow> 'e rpc_error + unit" where
  "txn_check_failure key fs =
     (if 1 < length fs then Inl (invalid_argument ''only one failure supported'')
      else case fs of
        Some op # _ \<Rightarrow>
          (case op of
             RequestRange r \<Rightarrow>
               if range_key r \<noteq> key then Inl (invalid_argument ''compare key must match failure key'')
               else if range_end r \<noteq> [] then Inl (invalid_argument ''range end not supported in failure'')
               else Inr ()
           | _ \<Rightarrow> Inl (invalid_argument ''only range supported in failure''))
      | _ \<Rightarrow> Inr ())"

text \<open>The operation of the success branch as a write of one key, deletion as \<open>None\<close>.\<close>

definition txn_operation :: "byte_array \<Rightarrow> request_op \<Rightarrow> 'e rpc_error + byte_array option" where
  "txn_operation key op =
     (case op of
        RequestPut put \<Rightarrow>
          if put_key put = [] then Inl (invalid_argument ''key required in success put'')
          else if put_key put \<noteq> key then Inl (invalid_argument ''compare key must match put key'')
          else Inr (Some (put_value put))
      | RequestDeleteRange d \<Rightarrow>
          if delete_key d = [] then Inl (invalid_argument ''key required in success deleteRange'')
          else if delete_end d \<noteq> [] then Inl (invalid_argument ''range end not supported in deleteRange'')
          else if delete_key d \<noteq> key then Inl (invalid_argument ''compare key must match deleteRange key'')
          else Inr None
      | _ \<Rightarrow> Inl (invalid_argument ''only put and deleteRange supported in success''))"

text \<open>
  Behind Raft the comparison is made on the local store before the write is proposed; a single node
  leaves it to \<open>Store::set\<close>.
\<close>

definition txn_write ::
    "'e KvService \<Rightarrow> byte_array \<Rightarrow> byte_array option \<Rightarrow> SetRequired option \<Rightarrow> ('e, set_result) rpc" where
  "txn_write sv key value required =
     (if kv_raft sv \<noteq> None then
        rpc_bind (Returns (sv, ensure_leader sv))
          (\<lambda>sv _. rpc_bind (rpc_range sv key [] 0 (Some 1))
             (\<lambda>sv res.
                let current_kv = first_kv res in
                if \<not> check_compare current_kv required
                then Returns (sv, Inr (Inl (latest_rev res, current_kv)))
                else rpc_bind (raft_write sv (case value of Some b \<Rightarrow> Set key b | None \<Rightarrow> Delete key))
                       (\<lambda>sv r. Returns (sv, Inr (Inr r)))))
      else
        bind_run (store_set (kv_store sv) key value required)
          (\<lambda>(s', res, _). Returns (sv\<lparr>kv_store := s'\<rparr>, Inr res)))"

definition txn_response :: "bool \<Rightarrow> bool \<Rightarrow> set_result \<Rightarrow> TxnResponse" where
  "txn_response is_delete no_failure result =
     (case result of
        Inl (r, current_kv) \<Rightarrow>
          \<lparr>txn_header = header r,
           responses = (if no_failure then []
             else [ResponseRange \<lparr>range_header = header r, range_count = 1,
                     range_kvs = (case current_kv of None \<Rightarrow> [] | Some x \<Rightarrow> [x]), range_more = False\<rparr>]),
           succeeded = False\<rparr>
      | Inr r \<Rightarrow>
          \<lparr>txn_header = header r,
           responses = (if is_delete
             then [ResponseDeleteRange \<lparr>delete_header = header r, deleted = 1, prev_kvs = []\<rparr>]
             else [ResponsePut \<lparr>put_header = header r, put_prev = None\<rparr>]),
           succeeded = True\<rparr>)"

definition kv_txn :: "'e KvService \<Rightarrow> txn_request \<Rightarrow> ('e, TxnResponse) rpc" where
  "kv_txn sv req =
     (case txn_required (txn_compare req) of
        Inl e \<Rightarrow> Returns (sv, Inl e)
      | Inr (key, required) \<Rightarrow>
          if length (txn_success req) \<noteq> 1
          then Returns (sv, Inl (invalid_argument ''only one success supported''))
          else case txn_check_failure key (txn_failure req) of
            Inl e \<Rightarrow> Returns (sv, Inl e)
          | Inr _ \<Rightarrow>
              (case hd (txn_success req) of
                 None \<Rightarrow> Panics
               | Some op \<Rightarrow>
                   (case txn_operation key op of
                      Inl e \<Rightarrow> Returns (sv, Inl e)
                    | Inr value \<Rightarrow>
                        rpc_bind (txn_write sv key value (Some required))
                          (\<lambda>sv result. Returns (sv,
                             Inr (txn_response (value = None) (txn_failure req = []) result))))))"

section \<open>Compaction\<close>

definition kv_compact :: "'e KvService \<Rightarrow> i64 \<Rightarrow> ('e, ResponseHeader) rpc" where
  "kv_compact sv r =
     bind_run (store_compact (kv_store sv) r)
       (\<lambda>(s', res). Returns (sv\<lparr>kv_store := s'\<rparr>,
          case res of Inl st \<Rightarrow> Inl (CompactionFailed st) | Inr _ \<Rightarrow> Inr (header (current_revision s'))))"

section \<open>Lemmas\<close>

lemma rpc_bind_simps [simp, run_simps]:
  "rpc_bind (Returns (sv, Inr x)) f = f sv x"
  "rpc_bind (Returns (sv, Inl e)) f = Returns (sv, Inl e)"
  "rpc_bind Panics f = Panics"
  by (simp_all add: rpc_bind_def)

abbreviation live_kv :: "history \<Rightarrow> byte_array \<Rightarrow> KeyValue option" where
  "live_kv h k \<equiv> map_option (\<lambda>v. as_mvcc_key_value v k) (hist_live h k)"

text \<open>
  A single key is read without a panic once there is a revision, or as long as the key has no item.
\<close>

lemma store_range_unwritten:
  assumes s: "store_repr s []" and "tree_map s k = None"
  shows "store_range s k [] 0 lim = Returns (Inr \<lparr>kvs = [], latest_rev = 0, count = 0\<rparr>)"
proof -
  obtain p sfx where ps: "prefix_split k = (p, sfx)" by fastforce
  have pr: "prefix_and_range_of_key k [] = Inr (p, Included sfx, Included sfx)"
    using ps by (simp add: prefix_and_range_of_key_def)
  have cur: "current_revision s = 0" using store_reprD(6)[OF s] by simp
  have none: "btree_get m sfx = None" if "prefix_map s p = Some m" for m
    using that assms(2) ps index_wf_lookup[OF store_reprD(1)[OF s], of k] by fastforce
  have "filter (\<lambda>(x, _). above (Included sfx) x \<and> below (Included sfx) x) m = []"
    if "prefix_map s p = Some m" for m
    using none[OF that] bt.mem_entries_iff[OF index_wf_prefix_btree[OF store_reprD(1)[OF s] that]]
    by (auto simp: filter_empty_conv)
  then show ?thesis
    by (auto simp: store_range_def Let_def cur pr btree_range_def split: option.split)
qed

lemma rpc_range_single:
  assumes "store_repr (kv_store sv) h" "h \<noteq> [] \<or> tree_map (kv_store sv) k = None"
  obtains res where "rpc_range sv k [] 0 (Some 1) = Returns (sv, Inr res)"
    "first_kv res = live_kv h k" "latest_rev res = int (length h)"
proof (cases "h = []")
  case True
  with assms have "store_range (kv_store sv) k [] 0 (Some 1) = Returns (Inr \<lparr>kvs = [], latest_rev = 0, count = 0\<rparr>)"
    using store_range_unwritten by simp
  with True that show ?thesis by (simp add: rpc_range_def first_kv_def hist_live_def)
next
  case False
  with that store_range_single[OF assms(1), of k 0] show ?thesis
    by (simp add: rpc_range_def first_kv_def split: option.splits)
qed

lemma check_compare_live:
  "check_compare (live_kv h k) required \<longleftrightarrow> admits (hist_live h k) (Some b) required"
  using hist_live_SomeD[of h k]
  by (auto simp: check_compare_def admits_def as_mvcc_key_value_def Let_def not_le split: option.split)

lemma admits_None_live: "hist_live h k \<noteq> None \<Longrightarrow> admits (hist_live h k) v required = admits (hist_live h k) v' required"
  by (auto simp: admits_def split: option.split)

lemma put_revision_single:
  assumes "store_repr (kv_store sv) h" "kv_raft sv = None"
  obtains s' where "put_revision sv k (Some b) = Returns (sv\<lparr>kv_store := s'\<rparr>, Inr (int (length h) + 1))"
    "store_repr s' ((k, Some b) # h)"
proof -
  have "admits (hist_live h k) (Some b) None" by (simp add: admits_unconditional)
  from store_set_admitted[OF assms(1) this] obtain s' w where
    "store_set (kv_store sv) k (Some b) None = Returns (s', Inr (int (length h) + 1), w)"
    "store_repr s' ((k, Some b) # h)" by blast
  with that assms(2) show ?thesis by (simp add: put_revision_def)
qed

lemma delete_revision_single:
  assumes "store_repr (kv_store sv) h" "kv_raft sv = None"
  obtains s' where "store_repr s' (if hist_live h k = None then h else (k, None) # h)"
    "delete_revision sv k = Returns (sv\<lparr>kv_store := s'\<rparr>,
       Inr (if hist_live h k = None then int (length h) else int (length h) + 1))"
proof (cases "hist_live h k = None")
  case True
  then have "\<not> admits (hist_live h k) None None" by (simp add: admits_unconditional)
  from store_set_refused[OF assms(1) this] obtain s' x where
    "store_set (kv_store sv) k None None = Returns (s', Inl (int (length h), x), None)" "store_repr s' h" by blast
  with that True assms(2) show ?thesis by (simp add: delete_revision_def store_delete_def)
next
  case False
  then have "admits (hist_live h k) None None" by (simp add: admits_unconditional)
  from store_set_admitted[OF assms(1) this] obtain s' w where
    "store_set (kv_store sv) k None None = Returns (s', Inr (int (length h) + 1), w)"
    "store_repr s' ((k, None) # h)" by blast
  with that False assms(2) show ?thesis by (simp add: delete_revision_def store_delete_def)
qed

lemma kv_range_single:
  assumes "store_repr (kv_store sv) h" "h \<noteq> []" "\<not> count_only req" "range_end req = []" "range_revision req = 0"
    "0 \<le> range_limit req" "range_limit req < 2 ^ 63"
  shows "kv_range sv req = Returns (sv, Inr \<lparr>range_header = header (int (length h)),
    range_count = (if hist_live h (range_key req) = None then 0 else 1),
    range_kvs = (case live_kv h (range_key req) of None \<Rightarrow> [] | Some x \<Rightarrow> [x]), range_more = False\<rparr>)"
proof -
  obtain l where l: "usize_MAX = Suc l" by (simp add: usize_MAX_def)
  have none: "store_range (kv_store sv) k [] 0 None = store_range (kv_store sv) k [] 0 (Some (Suc l))" for k
    by (simp add: store_range_def l)
  have some: "\<exists>m. as_usize (range_limit req) = Suc m" if "range_limit req \<noteq> 0"
    using that assms(6,7) by (intro exI[of _ "nat (range_limit req) - 1"]) (simp add: casts)
  have rt: "as_i64 (as_usize (range_limit req)) = range_limit req"
    using assms(6,7) by (intro as_i64_as_usize) auto
  show ?thesis
  proof (cases "range_limit req = 0")
    case True
    with assms store_range_single[OF assms(1,2), of "range_key req" l] show ?thesis
      by (auto simp: kv_range_def rpc_range_def none split: option.split)
  next
    case False
    with some obtain m where m: "as_usize (range_limit req) = Suc m" by blast
    from False rt m assms(6) have "\<not> as_i64 (Suc m) < 1" by simp
    with False m assms store_range_single[OF assms(1,2), of "range_key req" m] show ?thesis
      by (auto simp: kv_range_def rpc_range_def split: option.split)
  qed
qed

section \<open>Which transactions are supported\<close>

text \<open>
  One comparison of the modification revision or the version of a key, one put or delete of the same
  key, and at most one get of it for the failure case: the key, the write and the requirement.
\<close>

definition txn_requirement :: "Compare \<Rightarrow> SetRequired option" where
  "txn_requirement c =
     (case cmp_target c of
        Some (TargetModRevision r) \<Rightarrow>
          Some \<lparr>required_last_revision = Some r, required_version = None, compare_result = cmp_result c\<rparr>
      | Some (TargetVersion v) \<Rightarrow>
          Some \<lparr>required_last_revision = None, required_version = Some v, compare_result = cmp_result c\<rparr>
      | _ \<Rightarrow> None)"

definition failure_gets :: "byte_array \<Rightarrow> request_op option list \<Rightarrow> bool" where
  "failure_gets k fs =
     (case fs of
        [] \<Rightarrow> True
      | [None] \<Rightarrow> True
      | [Some (RequestRange g)] \<Rightarrow> range_key g = k \<and> range_end g = []
      | _ \<Rightarrow> False)"

definition success_writes :: "byte_array \<Rightarrow> request_op \<Rightarrow> byte_array option option" where
  "success_writes k op =
     (case op of
        RequestPut p \<Rightarrow> if k \<noteq> [] \<and> put_key p = k then Some (Some (put_value p)) else None
      | RequestDeleteRange d \<Rightarrow> if k \<noteq> [] \<and> delete_key d = k \<and> delete_end d = [] then Some None else None
      | _ \<Rightarrow> None)"

definition txn_shape :: "txn_request \<Rightarrow> (byte_array \<times> byte_array option \<times> SetRequired) option" where
  "txn_shape req =
     (case (txn_compare req, txn_success req) of
        ([c], [Some op]) \<Rightarrow>
          (case (txn_requirement c, success_writes (cmp_key c) op) of
             (Some required, Some v) \<Rightarrow>
               if failure_gets (cmp_key c) (txn_failure req) then Some (cmp_key c, v, required) else None
           | _ \<Rightarrow> None)
      | _ \<Rightarrow> None)"

lemma txn_requirement_required:
  "txn_required [c] = Inr (k, required) \<longleftrightarrow> k = cmp_key c \<and> txn_requirement c = Some required"
  by (auto simp: txn_required_def txn_requirement_def split: option.split target_union.split)

lemma txn_required_error: "txn_required cs = Inl e \<Longrightarrow> \<exists>msg. e = invalid_argument msg"
  by (auto simp: txn_required_def split: list.splits option.splits target_union.splits)

lemma failure_gets_check: "txn_check_failure k fs = Inr () \<longleftrightarrow> failure_gets k fs"
  by (auto simp: txn_check_failure_def failure_gets_def split: list.splits option.splits request_op.splits)

lemma txn_check_failure_error: "txn_check_failure k fs = Inl e \<Longrightarrow> \<exists>msg. e = invalid_argument msg"
  by (auto simp: txn_check_failure_def split: list.splits option.splits request_op.splits if_splits)

lemma success_writes_operation: "txn_operation k op = Inr v \<longleftrightarrow> success_writes k op = Some v"
  by (auto simp: txn_operation_def success_writes_def split: request_op.splits if_splits)

lemma txn_operation_error: "txn_operation k op = Inl e \<Longrightarrow> \<exists>msg. e = invalid_argument msg"
  by (auto simp: txn_operation_def split: request_op.splits if_splits)

lemma txn_checks_pass [run_simps]:
  "txn_requirement c = Some required \<Longrightarrow> txn_required [c] = Inr (cmp_key c, required)"
  "failure_gets k fs \<Longrightarrow> txn_check_failure k fs = Inr ()"
  "success_writes k op = Some v \<Longrightarrow> txn_operation k op = Inr v"
  by (simp_all add: txn_requirement_required failure_gets_check success_writes_operation)

lemma kv_txn_supported:
  assumes "txn_shape req = Some (k, v, required)"
  shows "kv_txn sv req = rpc_bind (txn_write sv k v (Some required))
    (\<lambda>sv result. Returns (sv, Inr (txn_response (v = None) (txn_failure req = []) result)))"
proof -
  obtain c op where "txn_compare req = [c]" "txn_success req = [Some op]" "k = cmp_key c"
    "txn_requirement c = Some required" "success_writes k op = Some v" "failure_gets k (txn_failure req)"
    using assms by (auto simp: txn_shape_def split: list.splits option.splits if_splits)
  then show ?thesis by (simp add: kv_txn_def run_simps)
qed

lemma kv_txn_unsupported:
  fixes sv :: "'e KvService"
  assumes "txn_shape req = None"
  shows "(\<exists>msg. kv_txn sv req = Returns (sv, Inl (invalid_argument msg))) \<or>
    kv_txn sv req = Panics \<and> txn_success req = [None]"
proof (cases "txn_required (txn_compare req) :: 'e rpc_error + byte_array \<times> SetRequired")
  case (Inl e)
  from txn_required_error[OF this] Inl show ?thesis by (auto simp: kv_txn_def)
next
  case (Inr p)
  then obtain c where c: "txn_compare req = [c]" by (auto simp: txn_required_def split: list.splits)
  with Inr obtain required where p: "p = (cmp_key c, required)" "txn_requirement c = Some required"
    by (cases p) (simp add: txn_requirement_required)
  show ?thesis
  proof (cases "txn_check_failure (cmp_key c) (txn_failure req) :: 'e rpc_error + unit")
    case (Inl e)
    from txn_check_failure_error[OF this] Inl Inr p show ?thesis by (auto simp: kv_txn_def)
  next
    case ok: (Inr u)
    then have f: "failure_gets (cmp_key c) (txn_failure req)"
      using failure_gets_check[where 'a = 'e] by (cases u) simp
    show ?thesis
    proof (cases "txn_success req")
      case (Cons op ops)
      show ?thesis
      proof (cases "ops = []")
        case True
        show ?thesis
        proof (cases op)
          case None
          with Inr p ok Cons True show ?thesis by (simp add: kv_txn_def)
        next
          case (Some op')
          with assms c p f Cons True have "success_writes (cmp_key c) op' = None"
            by (auto simp: txn_shape_def split: option.splits)
          then obtain e :: "'e rpc_error" where e: "txn_operation (cmp_key c) op' = Inl e"
            using success_writes_operation[of "cmp_key c" op'] by (metis option.distinct(1) sum.exhaust)
          from txn_operation_error[OF e] e Inr p ok Cons True Some show ?thesis by (auto simp: kv_txn_def)
        qed
      qed (use Inr p Cons in \<open>simp add: kv_txn_def\<close>)
    qed (use Inr p in \<open>simp add: kv_txn_def\<close>)
  qed
qed

lemma admits_mod_equal:
  "admits x0 v (Some \<lparr>required_last_revision = Some r, required_version = None, compare_result = 0\<rparr>) \<longleftrightarrow>
     (case x0 of Some x \<Rightarrow> r < 0 \<or> mod_revision x = r | None \<Rightarrow> r \<le> 0 \<and> v \<noteq> None)"
  by (simp add: admits_def required_rev_def required_ver_def required_cmp_def cmp_satisfied_def split: option.split)

lemma txn_write_single:
  assumes "store_repr (kv_store sv) h" "kv_raft sv = None"
  shows "\<exists>s'. if admits (hist_live h k) v (Some required)
    then txn_write sv k v (Some required) = Returns (sv\<lparr>kv_store := s'\<rparr>, Inr (Inr (int (length h) + 1))) \<and>
      store_repr s' ((k, v) # h)
    else txn_write sv k v (Some required) = Returns (sv\<lparr>kv_store := s'\<rparr>, Inr (Inl (int (length h), live_kv h k))) \<and>
      store_repr s' h"
proof (cases "admits (hist_live h k) v (Some required)")
  case True
  from store_set_admitted[OF assms(1) this] True assms(2) show ?thesis by (auto simp: txn_write_def)
next
  case False
  from store_set_refused[OF assms(1) this] False assms(2) show ?thesis by (auto simp: txn_write_def)
qed

section \<open>Behind Raft\<close>

text \<open>
  What \<open>client_write\<close> does on the leader: it returns when the request has been committed and applied
  to the local state machine. \<open>ws\<close> are the writes of other requests that were committed before it.
\<close>

definition commits_after ::
    "(byte_array \<times> byte_array option) list \<Rightarrow> (Store \<Rightarrow> RaftRequest \<Rightarrow> (Store \<times> ('e + i64)) run) \<Rightarrow> bool" where
  "commits_after ws write \<longleftrightarrow>
     (\<forall>s req. write s req =
        bind_run (store_writes s ws) (\<lambda>s1. bind_run (apply_request s1 req) (\<lambda>(s2, r). Returns (s2, Inr r))))"

abbreviation write_request :: "byte_array \<Rightarrow> byte_array option \<Rightarrow> RaftRequest" where
  "write_request k v \<equiv> (case v of Some b \<Rightarrow> Set k b | None \<Rightarrow> Delete k)"

lemma request_write_request: "request_write (write_request k v) = (k, v)"
  by (simp add: request_write_def split: option.split)

lemma raft_write_commits:
  assumes "store_repr (kv_store sv) h" "kv_raft sv = Some raft" "commits_after ws (client_write raft)"
  obtains s' where "store_repr s' (hist_writes h (ws @ [(k, v)]))"
    "raft_write sv (write_request k v) =
      Returns (sv\<lparr>kv_store := s'\<rparr>, Inr (int (length (hist_writes h (ws @ [(k, v)])))))"
proof -
  obtain s1 where s1: "store_writes (kv_store sv) ws = Returns s1" "store_repr s1 (hist_writes h ws)"
    using store_writes_repr[OF assms(1)] by blast
  obtain s2 where "apply_request s1 (write_request k v) =
      Returns (s2, int (length (hist_writes h (ws @ [(k, v)]))))" "store_repr s2 (hist_writes h (ws @ [(k, v)]))"
    using apply_request_repr[OF s1(2), of "write_request k v"]
    by (auto simp: request_write_request hist_writes_append simp del: hist_writes.simps)
  with that s1(1) assms(2,3) show ?thesis by (simp add: raft_write_def commits_after_def)
qed

lemma txn_write_raft:
  assumes "store_repr (kv_store sv) h" "h \<noteq> [] \<or> tree_map (kv_store sv) k = None"
    and "kv_raft sv = Some raft" "current_leader raft = Some (node_id raft)" "commits_after ws (client_write raft)"
  shows "\<exists>s'. if admits (hist_live h k) (Some []) (Some required)
    then txn_write sv k v (Some required) = Returns (sv\<lparr>kv_store := s'\<rparr>,
        Inr (Inr (int (length (hist_writes h (ws @ [(k, v)])))))) \<and> store_repr s' (hist_writes h (ws @ [(k, v)]))
    else txn_write sv k v (Some required) = Returns (sv, Inr (Inl (int (length h), live_kv h k)))"
proof -
  obtain res where "rpc_range sv k [] 0 (Some 1) = Returns (sv, Inr res)"
    "first_kv res = live_kv h k" "latest_rev res = int (length h)"
    using rpc_range_single[OF assms(1,2)] by metis
  moreover have "ensure_leader sv = Inr ()" using assms(3,4) by (simp add: ensure_leader_def)
  moreover obtain s' where "store_repr s' (hist_writes h (ws @ [(k, v)]))"
    "raft_write sv (write_request k v) =
      Returns (sv\<lparr>kv_store := s'\<rparr>, Inr (int (length (hist_writes h (ws @ [(k, v)])))))"
    using raft_write_commits[OF assms(1,3,5)] by metis
  ultimately show ?thesis
    using check_compare_live[where h = h and k = k and b = "[]"] assms(3) by (auto simp: txn_write_def Let_def)
qed

section \<open>How many keys a range can have\<close>

lemma hist_latest_written: "hist_latest h k \<noteq> None \<Longrightarrow> k \<in> fst ` set h"
  by (induction h) (force split: if_splits)+

lemma range_answer_length:
  assumes "range_answer h e n wanted L"
  shows "length L \<le> length h"
proof -
  have "set (map kv_key L) \<subseteq> fst ` set h"
  proof
    fix k assume "k \<in> set (map kv_key L)"
    then obtain v where "readable h e n k = Some v"
      using assms by (fastforce simp: range_answer_def as_mvcc_key_value_def Let_def)
    then have "hist_latest (hist_at h n) k \<noteq> None"
      by (auto simp: readable_def bind_eq_Some_conv dest: hist_live_SomeD)
    from hist_latest_written[OF this] show "k \<in> fst ` set h"
      by (auto simp: hist_at_def dest!: in_set_dropD)
  qed
  then have "card (set (map kv_key L)) \<le> card (fst ` set h)" by (simp add: card_mono)
  also have "\<dots> \<le> length h" by (meson card_image_le card_length finite_set le_trans)
  finally show ?thesis
    using assms distinct_card[of "map kv_key L"] by (simp add: range_answer_def strict_sorted_iff)
qed

section \<open>Properties\<close>

text \<open>
  A put of a single node is read back. With \<open>ignore_value\<close> on a key that does not exist it is an
  invalid argument and nothing changes. Otherwise it is answered with the next revision and, if
  asked for, the key-value before; the history grows by this write, and a get of the key returns the
  value written with its create revision, modification revision and version.
\<close>

lemma kv_put_then_range:
  assumes "store_repr (kv_store sv) h" "kv_raft sv = None"
    and "h \<noteq> [] \<or> tree_map (kv_store sv) (put_key req) = None"
    and "\<not> count_only get" "range_end get = []" "range_revision get = 0" "range_key get = put_key req"
      "0 \<le> range_limit get" "range_limit get < 2 ^ 63"
  shows "let k = put_key req;
      b = (if ignore_value req then the (val (the (hist_live h k))) else put_value req)
    in if ignore_value req \<and> hist_live h k = None
       then kv_put sv req = Returns (sv, Inl (invalid_argument ''ignore_value set but key does not exist''))
       else \<exists>sv'. kv_put sv req = Returns (sv', Inr \<lparr>put_header = header (int (length h) + 1),
             put_prev = (if put_prev_kv req then live_kv h k else None)\<rparr>) \<and>
           store_repr (kv_store sv') ((k, Some b) # h) \<and>
           kv_range sv' get = Returns (sv', Inr \<lparr>range_header = header (int (length h) + 1), range_count = 1,
             range_kvs = [as_mvcc_key_value (write_value (hist_latest h k) (int (length h) + 1) (Some b)) k],
             range_more = False\<rparr>)"
proof -
  let ?k = "put_key req" and ?e = "Inl (invalid_argument ''ignore_value set but key does not exist'')"
  let ?b = "if ignore_value req then the (val (the (hist_live h ?k))) else put_value req"
  obtain res where res: "rpc_range sv ?k [] 0 (Some 1) = Returns (sv, Inr res)" "first_kv res = live_kv h ?k"
    using rpc_range_single[OF assms(1,3)] by metis
  obtain s' where s': "put_revision sv ?k (Some ?b) = Returns (sv\<lparr>kv_store := s'\<rparr>, Inr (int (length h) + 1))"
    "store_repr s' ((?k, Some ?b) # h)" using put_revision_single[OF assms(1,2)] by metis
  have live: "hist_live ((?k, Some ?b) # h) ?k = Some (write_value (hist_latest h ?k) (int (length h) + 1) (Some ?b))"
    by (simp add: hist_live_def)
  have val: "kv_value (as_mvcc_key_value v ?k) = the (val v)" if "hist_live h ?k = Some v" for v
    using hist_live_SomeD[OF that] by (auto simp: as_mvcc_key_value_def Let_def)
  have "kv_range (sv\<lparr>kv_store := s'\<rparr>) get = Returns (sv\<lparr>kv_store := s'\<rparr>,
      Inr \<lparr>range_header = header (int (length h) + 1), range_count = 1,
        range_kvs = [as_mvcc_key_value (write_value (hist_latest h ?k) (int (length h) + 1) (Some ?b)) ?k],
        range_more = False\<rparr>)"
    using kv_range_single[of "sv\<lparr>kv_store := s'\<rparr>" _ get] s'(2) assms live by (simp add: add.commute)
  moreover have "kv_put sv req =
      (if ignore_value req \<and> hist_live h ?k = None then Returns (sv, ?e)
       else Returns (sv\<lparr>kv_store := s'\<rparr>, Inr \<lparr>put_header = header (int (length h) + 1),
             put_prev = (if put_prev_kv req then live_kv h ?k else None)\<rparr>))"
    using res s'(1) val by (auto simp: kv_put_def split: option.splits if_splits)
  ultimately show ?thesis using s'(2) by (auto simp: Let_def)
qed

definition get_request :: "byte_array \<Rightarrow> RangeRequest" where
  "get_request k = \<lparr>range_key = k, range_end = [], range_limit = 0, range_revision = 0, count_only = False\<rparr>"

lemma kv_put_then_range_witness:
  "\<exists>sv'. kv_put (kv_new example_store :: unit KvService)
      \<lparr>put_key = key_a, put_value = [], put_prev_kv = True, ignore_value = True\<rparr> =
      Returns (sv', Inr \<lparr>put_header = header 6,
        put_prev = Some \<lparr>kv_key = key_a, kv_value = [4], kv_create_revision = 1, kv_mod_revision = 4, kv_version = 3, kv_lease = 0\<rparr>\<rparr>) \<and>
    kv_range sv' (get_request key_a) = Returns (sv', Inr \<lparr>range_header = header 6, range_count = 1,
      range_kvs = [\<lparr>kv_key = key_a, kv_value = [4], kv_create_revision = 1, kv_mod_revision = 6, kv_version = 4, kv_lease = 0\<rparr>],
      range_more = False\<rparr>)"
proof -
  have "example_history \<noteq> []" using example_facts(1) by auto
  with kv_put_then_range[of "kv_new example_store :: unit KvService" example_history
      "\<lparr>put_key = key_a, put_value = [], put_prev_kv = True, ignore_value = True\<rparr>" "get_request key_a"]
    example_repr show ?thesis
    by (auto simp: kv_new_def get_request_def example_facts as_mvcc_key_value_def write_value_def Let_def)
qed


definition put_if_mod :: "byte_array \<Rightarrow> i64 \<Rightarrow> byte_array \<Rightarrow> txn_request" where
  "put_if_mod k r b =
     TxnRequest [\<lparr>cmp_key = k, cmp_result = 0, cmp_target = Some (TargetModRevision r)\<rparr>]
       [Some (RequestPut \<lparr>put_key = k, put_value = b, put_prev_kv = False, ignore_value = False\<rparr>)]
       [Some (RequestRange (get_request k))]"

lemma txn_shape_put_if_mod:
  "k \<noteq> [] \<Longrightarrow> txn_shape (put_if_mod k r b) =
     Some (k, Some b, \<lparr>required_last_revision = Some r, required_version = None, compare_result = 0\<rparr>)"
  by (simp add: txn_shape_def put_if_mod_def txn_requirement_def success_writes_def failure_gets_def get_request_def)

lemma key_ne [simp]: "key_a \<noteq> []" "key_b \<noteq> []"
  by code_simp+


text \<open>
  Of two transactions that compare the same key for equality with the same modification revision,
  whatever they write, at most one succeeds: a client that wins such a comparison has excluded every
  other one.
\<close>

lemma kv_txn_excludes:
  assumes "store_repr (kv_store sv) h" "kv_raft sv = None" "0 \<le> r"
    and "txn_shape req = Some (k, v, \<lparr>required_last_revision = Some r, required_version = None, compare_result = 0\<rparr>)"
    and "txn_shape req' = Some (k, v', \<lparr>required_last_revision = Some r, required_version = None, compare_result = 0\<rparr>)"
  shows "\<exists>sv1 sv2 resp resp'. kv_txn sv req = Returns (sv1, Inr resp) \<and> kv_txn sv1 req' = Returns (sv2, Inr resp') \<and>
    \<not> (succeeded resp \<and> succeeded resp')"
proof -
  let ?q = "\<lparr>required_last_revision = Some r, required_version = None, compare_result = 0\<rparr>"
  obtain s1 res where s1: "txn_write sv k v (Some ?q) = Returns (sv\<lparr>kv_store := s1\<rparr>, Inr res)"
    "if admits (hist_live h k) v (Some ?q) then store_repr s1 ((k, v) # h) else store_repr s1 h \<and> isl res"
    using txn_write_single[OF assms(1,2), of k v ?q] by (auto split: if_splits)
  define h1 where "h1 = (if admits (hist_live h k) v (Some ?q) then (k, v) # h else h)"
  have h1: "store_repr (kv_store (sv\<lparr>kv_store := s1\<rparr>)) h1" "kv_raft (sv\<lparr>kv_store := s1\<rparr>) = None"
    using s1(2) assms(2) by (auto simp: h1_def split: if_splits)
  obtain s2 res' where s2: "txn_write (sv\<lparr>kv_store := s1\<rparr>) k v' (Some ?q) = Returns (sv\<lparr>kv_store := s2\<rparr>, Inr res')"
    "admits (hist_live h1 k) v' (Some ?q) \<or> isl res'"
    using txn_write_single[OF h1, of k v' ?q] by (auto split: if_splits)
  have "\<not> admits (hist_live h1 k) v' (Some ?q)" if adm: "admits (hist_live h k) v (Some ?q)"
  proof (cases "hist_live h k")
    case None
    with adm show ?thesis using assms(3) by (auto simp: h1_def hist_live_def admits_mod_equal)
  next
    case (Some x)
    with adm assms(3) have "mod_revision x = r" by (simp add: admits_mod_equal)
    moreover have "1 \<le> mod_revision x" "mod_revision x \<le> int (length h)"
      using hist_live_SomeD[OF Some] hist_latest_mod_le by auto
    ultimately show ?thesis using adm by (cases v) (auto simp: h1_def hist_live_def admits_mod_equal)
  qed
  with s1 s2 show ?thesis
    by (cases res; cases res')
      (auto simp: kv_txn_supported[OF assms(4)] kv_txn_supported[OF assms(5)] txn_response_def split: if_splits)
qed

lemma kv_txn_excludes_witness:
  "\<exists>sv1 sv2 resp resp'. kv_txn (kv_new example_store :: unit KvService) (put_if_mod key_b 0 [1]) = Returns (sv1, Inr resp) \<and>
    kv_txn sv1 (put_if_mod key_b 0 [2]) = Returns (sv2, Inr resp') \<and> \<not> (succeeded resp \<and> succeeded resp')"
  by (rule kv_txn_excludes[where h = example_history and r = 0, OF _ _ _ txn_shape_put_if_mod txn_shape_put_if_mod])
    (simp_all add: kv_new_def example_repr)

text \<open>
  C31: a transaction behind Raft compares first and writes later. On the leader the comparison is made
  against the history at the time of the call; if it holds, the write is committed after whatever
  else was committed meanwhile, and the transaction succeeds even if the key has changed in between.
  If the comparison fails, nothing is proposed.
\<close>

theorem raft_txn_outcome:
  assumes "store_repr (kv_store sv) h" "h \<noteq> [] \<or> tree_map (kv_store sv) k = None"
    and "kv_raft sv = Some raft" "current_leader raft = Some (node_id raft)" "commits_after ws (client_write raft)"
    and "txn_shape req = Some (k, v, required)"
  shows "if admits (hist_live h k) (Some []) (Some required)
    then \<exists>sv' resp. kv_txn sv req = Returns (sv', Inr resp) \<and> succeeded resp \<and>
      store_repr (kv_store sv') (hist_writes h (ws @ [(k, v)])) \<and>
      txn_header resp = header (int (length (hist_writes h (ws @ [(k, v)]))))
    else \<exists>resp. kv_txn sv req = Returns (sv, Inr resp) \<and> \<not> succeeded resp \<and>
      txn_header resp = header (int (length h))"
  using txn_write_raft[OF assms(1-5), of required v]
  by (auto simp: kv_txn_supported[OF assms(6)] txn_response_def)

definition busy_raft :: "(byte_array \<times> byte_array option) list \<Rightarrow> unit RaftNode" where
  "busy_raft ws = \<lparr>node_id = 1, current_leader = Some 1,
     client_write = (\<lambda>s req. bind_run (store_writes s ws)
       (\<lambda>s1. bind_run (apply_request s1 req) (\<lambda>(s2, r). Returns (s2, Inr r))))\<rparr>"

lemma busy_raft_commits [simp]: "commits_after ws (client_write (busy_raft ws))"
  "current_leader (busy_raft ws) = Some (node_id (busy_raft ws))"
  by (simp_all add: commits_after_def busy_raft_def)

text \<open>A lost update: the put compares with revision 4 and overwrites revision 6.\<close>

theorem raft_txn_outcome_witness:
  "\<exists>sv' resp. kv_txn (kv_with_raft example_store (busy_raft [(key_a, Some [7])])) (put_if_mod key_a 4 [9]) =
      Returns (sv', Inr resp) \<and> succeeded resp \<and> txn_header resp = header 7 \<and>
    store_repr (kv_store sv') ((key_a, Some [9]) # (key_a, Some [7]) # example_history)"
proof -
  have "example_history \<noteq> []" using example_facts(1) by auto
  with raft_txn_outcome[of "kv_with_raft example_store (busy_raft [(key_a, Some [7])])" example_history key_a
      "busy_raft [(key_a, Some [7])]", OF _ _ _ _ _ txn_shape_put_if_mod[of key_a 4 "[9]"], of "[(key_a, Some [7])]"]
  show ?thesis by (auto simp: kv_with_raft_def example_repr example_facts admits_mod_equal)
qed

text \<open>
  With and without Raft. If nothing else is committed during the call, the leader of a cluster
  and a single node leave the same history, and their answers are the same except for one kind of
  transaction: the deletion of an absent key whose comparison holds. The single node reports that it
  did not succeed, the leader that it did and deleted one key.
\<close>

lemma raft_txn_matches_single_node:
  assumes "store_repr s h" "h \<noteq> []" "current_leader raft = Some (node_id raft)" "commits_after [] (client_write raft)"
    and "txn_shape req = Some (k, v, required)"
  shows "\<exists>sv sv' h' resp resp'. kv_txn (kv_new s :: unit KvService) req = Returns (sv, Inr resp) \<and>
    kv_txn (kv_with_raft s raft) req = Returns (sv', Inr resp') \<and>
    store_repr (kv_store sv) h' \<and> store_repr (kv_store sv') h' \<and>
    (resp = resp' \<longleftrightarrow> \<not> (v = None \<and> hist_live h k = None \<and>
       required_rev (Some required) \<le> 0 \<and> required_ver (Some required) \<le> 0)) \<and>
    (resp \<noteq> resp' \<longrightarrow> \<not> succeeded resp \<and> succeeded resp' \<and>
       responses resp' = [ResponseDeleteRange \<lparr>delete_header = header (int (length h)), deleted = 1, prev_kvs = []\<rparr>])"
proof -
  have r: "store_repr (kv_store (kv_with_raft s raft)) h" "kv_raft (kv_with_raft s raft) = Some raft"
    "store_repr (kv_store (kv_new s :: unit KvService)) h" "kv_raft (kv_new s :: unit KvService) = None"
    using assms(1) by (simp_all add: kv_with_raft_def kv_new_def)
  note raft = txn_write_raft[OF r(1) disjI1[OF assms(2)] r(2) assms(3,4), of k required v]
  note single = txn_write_single[OF r(3,4), of k v required]
  show ?thesis
  proof (cases "v = None \<and> hist_live h k = None")
    case True
    then have "admits (hist_live h k) v (Some required) = False" by (simp add: admits_def)
    moreover have "admits (hist_live h k) (Some []) (Some required) \<longleftrightarrow>
        required_rev (Some required) \<le> 0 \<and> required_ver (Some required) \<le> 0" using True by (simp add: admits_def)
    ultimately show ?thesis using raft single True r(1)
      by (auto simp: kv_txn_supported[OF assms(5)] txn_response_def split: if_splits)
  next
    case False
    then have "admits (hist_live h k) v (Some required) = admits (hist_live h k) (Some []) (Some required)"
      using admits_None_live[of h k v "Some required" "Some []"] by (cases v) (auto simp: admits_def split: option.splits)
    with raft single False r(1) show ?thesis
      by (auto simp: kv_txn_supported[OF assms(5)] txn_response_def add.commute split: if_splits)
  qed
qed

definition delete_if_mod :: "byte_array \<Rightarrow> i64 \<Rightarrow> txn_request" where
  "delete_if_mod k r =
     TxnRequest [\<lparr>cmp_key = k, cmp_result = 0, cmp_target = Some (TargetModRevision r)\<rparr>]
       [Some (RequestDeleteRange \<lparr>delete_key = k, delete_end = [], delete_prev_kv = False\<rparr>)] []"

lemma raft_txn_matches_single_node_witness:
  "\<exists>sv sv' resp resp'. kv_txn (kv_new example_store :: unit KvService) (delete_if_mod key_b 0) = Returns (sv, Inr resp) \<and>
    kv_txn (kv_with_raft example_store (busy_raft [])) (delete_if_mod key_b 0) = Returns (sv', Inr resp') \<and>
    \<not> succeeded resp \<and> succeeded resp'"
proof -
  have "example_history \<noteq> []" using example_facts(1) by auto
  moreover have "txn_shape (delete_if_mod key_b 0) = Some (key_b, None,
      \<lparr>required_last_revision = Some 0, required_version = None, compare_result = 0\<rparr>)"
    by (simp add: txn_shape_def delete_if_mod_def txn_requirement_def success_writes_def failure_gets_def)
  ultimately show ?thesis
    using raft_txn_matches_single_node[OF example_repr _ busy_raft_commits(2,1)]
    by (fastforce simp: example_facts required_rev_def required_ver_def)
qed

text \<open>
  The flag \<open>more\<close> of a range answer. A count has no key-values and no flag. With a limit that is
  not negative the flag says exactly that key-values were cut off. A negative limit cuts nothing off
  and yet sets the flag.
\<close>

lemma kv_range_more:
  assumes "store_repr (kv_store sv) h" "h \<noteq> []" "length h < 2 ^ 63"
    and "0 \<le> range_revision req" "range_revision req \<le> int (length h)"
      "range_revision req = 0 \<or> compacted_revision (kv_store sv) < range_revision req"
    and "prefix_and_range_of_key (range_key req) (range_end req) = Inr (p, lo, hi)" "\<not> inverted lo hi"
    and "- (2 ^ 63) \<le> range_limit req" "range_limit req < 2 ^ 63"
  shows "\<exists>resp. kv_range sv req = Returns (sv, Inr resp) \<and>
    (if count_only req then range_kvs resp = [] \<and> \<not> range_more resp
     else if 0 \<le> range_limit req
     then (range_more resp \<longleftrightarrow> int (length (range_kvs resp)) < range_count resp)
     else range_more resp \<and> int (length (range_kvs resp)) = range_count resp)"
proof -
  define lim where "lim = (if count_only req then Some 0 else if range_limit req = 0 then None
    else Some (as_usize (range_limit req)))"
  obtain L where L: "store_range (kv_store sv) (range_key req) (range_end req) (range_revision req) lim =
      Returns (Inr \<lparr>kvs = take (case lim of None \<Rightarrow> usize_MAX | Some l \<Rightarrow> l) L, latest_rev = int (length h), count = int (length L)\<rparr>)"
    "length L \<le> length h"
    using store_range_answers[OF assms(1,7,8,4-6,2), of lim] range_answer_length by blast
  have len: "int (length L) < 2 ^ 63" using L(2) assms(3) by simp
  have rt: "as_i64 (as_usize (range_limit req)) = range_limit req" using assms(9,10) by (intro as_i64_as_usize)
  have big: "length L \<le> as_usize (range_limit req)" if "range_limit req < 0"
  proof -
    have "range_limit req mod 2 ^ 64 = (range_limit req + 2 ^ 64) mod 2 ^ 64" by simp
    also have "\<dots> = range_limit req + 2 ^ 64" using that assms(9) by (intro mod_pos_pos_trivial) auto
    finally show ?thesis using len assms(9) by (simp add: as_usize_def le_nat_iff)
  qed
  have small: "as_usize (range_limit req) = nat (range_limit req)" if "0 \<le> range_limit req"
    using that assms(10) by (simp add: casts)
  have max: "length L \<le> usize_MAX" using len by (simp add: usize_MAX_def)
  show ?thesis
    using L(1) rt big small max
    by (auto simp: kv_range_def Let_def rpc_range_def lim_def[symmetric]) (auto simp: lim_def min_def split: if_splits)
qed

lemma kv_range_more_witness:
  "\<exists>resp. kv_range (kv_new example_store :: unit KvService)
      \<lparr>range_key = pods, range_end = pods_end, range_limit = -1, range_revision = 0, count_only = False\<rparr> =
      Returns (kv_new example_store, Inr resp) \<and> range_more resp \<and> int (length (range_kvs resp)) = range_count resp"
proof -
  have "example_history \<noteq> []" using example_facts(1) by auto
  moreover have "prefix_and_range_of_key pods pods_end = Inr (pods, Included [], Unbounded)" by code_simp
  ultimately show ?thesis
    using kv_range_more[of "kv_new example_store :: unit KvService" example_history
      "\<lparr>range_key = pods, range_end = pods_end, range_limit = -1, range_revision = 0, count_only = False\<rparr>"
      pods "Included []" Unbounded]
    by (simp add: kv_new_def example_repr example_facts)
qed

text \<open>
  Writes need the leader. On a Raft node that is not the leader every put, delete and transaction
  is refused with an error (or dies in reading a key it cannot read), and the store stays as it is.
\<close>

lemma kv_writes_need_leader:
  assumes "kv_raft sv = Some raft" "current_leader raft \<noteq> Some (node_id raft)"
  shows "(kv_put sv put = Panics \<or> (\<exists>e. kv_put sv put = Returns (sv, Inl e))) \<and>
    (kv_delete_range sv del = Panics \<or> (\<exists>e. kv_delete_range sv del = Returns (sv, Inl e))) \<and>
    (kv_txn sv txn = Panics \<or> (\<exists>e. kv_txn sv txn = Returns (sv, Inl e)))"
proof (intro conjI)
  obtain e where e: "ensure_leader sv = Inl e"
    using assms by (cases "current_leader raft") (auto simp: ensure_leader_def)
  have range: "rpc_range sv k b r l = Panics \<or> (\<exists>x. rpc_range sv k b r l = Returns (sv, x))" for k b r l
    by (cases "store_range (kv_store sv) k b r l") (auto simp: rpc_range_def)
  have writes: "put_revision sv k v = Returns (sv, Inl e)" "delete_revision sv k = Returns (sv, Inl e)"
    "txn_write sv k v q = Returns (sv, Inl e)" for k v q
    using assms(1) e by (simp_all add: put_revision_def delete_revision_def txn_write_def)
  show "kv_put sv put = Panics \<or> (\<exists>e. kv_put sv put = Returns (sv, Inl e))"
    using range[of "put_key put" "[]" 0 "Some 1"] writes(1)
    by (cases "ignore_value put") (auto simp: kv_put_def rpc_bind_def split: sum.split option.split)
  show "kv_delete_range sv del = Panics \<or> (\<exists>e. kv_delete_range sv del = Returns (sv, Inl e))"
    using range[of "delete_key del" "[]" 0 "Some 1"] writes(2)
    by (auto simp: kv_delete_range_def rpc_bind_def Let_def split: sum.split)
  show "kv_txn sv txn = Panics \<or> (\<exists>e. kv_txn sv txn = Returns (sv, Inl e))"
    using kv_txn_unsupported[of txn sv] kv_txn_supported[of txn _ _ _ sv] writes(3)
    by (cases "txn_shape txn") auto
qed

lemma kv_writes_need_leader_witness:
  "(\<exists>e. kv_put (kv_with_raft example_store ((busy_raft [])\<lparr>current_leader := Some 2\<rparr>))
      \<lparr>put_key = key_a, put_value = [1], put_prev_kv = False, ignore_value = False\<rparr> =
      Returns (kv_with_raft example_store ((busy_raft [])\<lparr>current_leader := Some 2\<rparr>), Inl e)) \<and>
   kv_put (kv_with_raft example_store ((busy_raft [])\<lparr>current_leader := Some 2\<rparr>))
      \<lparr>put_key = key_a, put_value = [1], put_prev_kv = False, ignore_value = False\<rparr> \<noteq> Panics"
proof -
  have "kv_put (kv_with_raft example_store ((busy_raft [])\<lparr>current_leader := Some 2\<rparr>))
      \<lparr>put_key = key_a, put_value = [1], put_prev_kv = False, ignore_value = False\<rparr> \<noteq> Panics"
    by (simp add: kv_put_def kv_with_raft_def put_revision_def ensure_leader_def busy_raft_def)
  with kv_writes_need_leader[of "kv_with_raft example_store ((busy_raft [])\<lparr>current_leader := Some 2\<rparr>)"
      "(busy_raft [])\<lparr>current_leader := Some 2\<rparr>"] show ?thesis
    by (auto simp: kv_with_raft_def busy_raft_def)
qed

text \<open>
  Which transactions are rejected. A request outside the supported shape is answered with an
  invalid argument and changes nothing; the only other outcome is the panic on a success operation
  whose request is not set.
\<close>

lemma kv_txn_rejects:
  assumes "txn_shape req = None"
  shows "(\<exists>msg. kv_txn sv req = Returns (sv, Inl (invalid_argument msg))) \<or>
    kv_txn sv req = Panics \<and> txn_success req = [None]"
  by (rule kv_txn_unsupported[OF assms])

lemma kv_txn_rejects_witness:
  "kv_txn (kv_new example_store :: unit KvService)
      (TxnRequest [\<lparr>cmp_key = key_a, cmp_result = 0, cmp_target = Some (TargetModRevision 4)\<rparr>] [None] []) = Panics \<and>
   (\<exists>msg. kv_txn (kv_new example_store :: unit KvService)
      (TxnRequest [\<lparr>cmp_key = key_a, cmp_result = 0, cmp_target = Some (TargetLease 4)\<rparr>] [None] []) =
      Returns (kv_new example_store, Inl (invalid_argument msg)))"
proof -
  have "txn_shape (TxnRequest [\<lparr>cmp_key = key_a, cmp_result = 0, cmp_target = Some t\<rparr>] [None] []) = None" for t
    by (simp add: txn_shape_def)
  from kv_txn_rejects[OF this, of "kv_new example_store :: unit KvService"]
  show ?thesis by (auto simp: kv_txn_def txn_required_def txn_check_failure_def)
qed

text \<open>
  The delete of a single node. A range end is not supported. Otherwise the answer counts one
  deleted key exactly if the key existed, with the key-value before if asked for; only then the
  history gets a deletion, at the revision of the answer.
\<close>

lemma kv_delete_range_counts:
  assumes "store_repr (kv_store sv) h" "kv_raft sv = None"
    and "h \<noteq> [] \<or> tree_map (kv_store sv) (delete_key req) = None"
  shows "let k = delete_key req; h' = (if hist_live h k = None then h else (k, None) # h)
    in if delete_end req \<noteq> []
       then kv_delete_range sv req = Returns (sv, Inl (invalid_argument ''range end not supported in deleteRange''))
       else \<exists>sv'. kv_delete_range sv req = Returns (sv', Inr \<lparr>delete_header = header (int (length h')),
             deleted = (if hist_live h k = None then 0 else 1),
             prev_kvs = (if delete_prev_kv req then (case live_kv h k of None \<Rightarrow> [] | Some x \<Rightarrow> [x]) else [])\<rparr>) \<and>
           store_repr (kv_store sv') h'"
proof -
  obtain res where "rpc_range sv (delete_key req) [] 0 (Some 1) = Returns (sv, Inr res)"
    "first_kv res = live_kv h (delete_key req)" using rpc_range_single[OF assms(1,3)] by metis
  moreover obtain s' where "store_repr s' (if hist_live h (delete_key req) = None then h else (delete_key req, None) # h)"
    "delete_revision sv (delete_key req) = Returns (sv\<lparr>kv_store := s'\<rparr>,
       Inr (if hist_live h (delete_key req) = None then int (length h) else int (length h) + 1))"
    using delete_revision_single[OF assms(1,2)] by metis
  ultimately show ?thesis by (auto simp: kv_delete_range_def Let_def add.commute)
qed

lemma kv_delete_range_counts_witness:
  "(\<exists>sv'. kv_delete_range (kv_new example_store :: unit KvService) \<lparr>delete_key = key_a, delete_end = [], delete_prev_kv = False\<rparr> =
      Returns (sv', Inr \<lparr>delete_header = header 6, deleted = 1, prev_kvs = []\<rparr>) \<and>
    store_repr (kv_store sv') ((key_a, None) # example_history)) \<and>
   (\<exists>sv'. kv_delete_range (kv_new example_store :: unit KvService) \<lparr>delete_key = key_b, delete_end = [], delete_prev_kv = True\<rparr> =
      Returns (sv', Inr \<lparr>delete_header = header 5, deleted = 0, prev_kvs = []\<rparr>) \<and> store_repr (kv_store sv') example_history)"
proof -
  have "example_history \<noteq> []" using example_facts(1) by auto
  with kv_delete_range_counts[of "kv_new example_store :: unit KvService" example_history
      "\<lparr>delete_key = key_a, delete_end = [], delete_prev_kv = False\<rparr>"]
    kv_delete_range_counts[of "kv_new example_store :: unit KvService" example_history
      "\<lparr>delete_key = key_b, delete_end = [], delete_prev_kv = True\<rparr>"]
  show ?thesis by (auto simp: kv_new_def example_repr example_facts Let_def)
qed

text \<open>
  The first request. On a store without revisions, deleting a key answers that nothing was
  deleted; from then on every delete and every get of the same key, at the current revision, panics,
  until something is written.
\<close>

lemma delete_on_empty_store_panics:
  assumes "0 < bs" "delete_key req = k" "delete_end req = []" "range_key get = k" "range_end get = []" "range_revision get = 0"
  shows "\<exists>sv' resp. kv_delete_range (kv_new (store_init bs mode) :: 'e KvService) req = Returns (sv', Inr resp) \<and>
    deleted resp = 0 \<and> kv_range sv' get = Panics \<and> kv_delete_range sv' req = Panics"
proof -
  let ?s = "store_init bs mode"
  obtain p sfx where ps: "prefix_split k = (p, sfx)" by fastforce
  have r: "store_repr ?s []" and none: "tree_map ?s k = None"
    using store_repr_init[OF assms(1)] by (auto simp: store_init_def)
  let ?s' = "insert_item ?s k (placeholder_item k)"
  have s': "store_set ?s k None None = Returns (?s', Inl (0, None), None)"
    using none store_reprD(6)[OF r] index_wf_insert_item[OF store_reprD(1)[OF r] none, of "placeholder_item k"]
    by (simp add: store_set_def set_entry_def set_refused_def insert_item_def ps placeholder_item_def
        required_rev_def required_ver_def Let_def)
  have "store_range ?s' k [] 0 lim = Panics" for lim
    using store_reprD(6)[OF r]
    by (simp add: store_range_def prefix_and_range_of_key_def ps insert_item_def current_revision_def Let_def
        store_init_def btree_range_def btree_new_def find_value_for_revision_def has_value_for_revision_def)
  then have panics: "rpc_range (kv_new ?s' :: 'e KvService) k [] 0 lim = Panics" for lim
    by (simp add: rpc_range_def kv_new_def)
  have "kv_delete_range (kv_new ?s :: 'e KvService) req =
      Returns (kv_new ?s', Inr \<lparr>delete_header = header 0, deleted = 0, prev_kvs = []\<rparr>)"
    using store_range_unwritten[OF r none, of "Some 1"] assms s'
    by (simp add: kv_delete_range_def rpc_range_def kv_new_def first_kv_def delete_revision_def store_delete_def)
  moreover have "kv_range (kv_new ?s' :: 'e KvService) get = Panics" "kv_delete_range (kv_new ?s' :: 'e KvService) req = Panics"
    using panics assms by (simp_all add: kv_range_def kv_delete_range_def)
  ultimately show ?thesis by simp
qed

lemma delete_on_empty_store_panics_witness:
  "\<exists>sv' resp. kv_delete_range (kv_new (store_init STORE_BLOCK_SIZE None) :: unit KvService)
      \<lparr>delete_key = key_a, delete_end = [], delete_prev_kv = False\<rparr> = Returns (sv', Inr resp) \<and>
    deleted resp = 0 \<and> kv_range sv' (get_request key_a) = Panics \<and>
    kv_delete_range sv' \<lparr>delete_key = key_a, delete_end = [], delete_prev_kv = False\<rparr> = Panics"
  by (rule delete_on_empty_store_panics[where k = key_a]) (simp_all add: get_request_def STORE_BLOCK_SIZE_def)

end
