(* ===== verification/Store_Watch.thy ===== *)
theory Store_Watch
  imports Store_Read
begin

text \<open>
  \<open>Store::watch\<close> and \<open>Store::unwatch\<close> of \<open>src/store.rs\<close>: registration of a watcher and the past
  changes it is owed. The lemmas compute the past changes from the history: for every key of the
  range, in key order, every write from the requested revision on, in revision order, with the
  value before it as far as compaction has kept it.
\<close>

section \<open>Operations\<close>

definition WATCH_CHANNEL_SIZE :: usize where
  "WATCH_CHANNEL_SIZE = 10000"

text \<open>The loop over the revisions of one item.\<close>

fun past_loop ::
    "Store \<Rightarrow> byte_array \<Rightarrow> i64 \<Rightarrow> bool \<Rightarrow> i64 list \<Rightarrow> KeyValue option \<Rightarrow> KeyValueWithPrev list \<Rightarrow>
       KeyValueWithPrev list run" where
  "past_loop s key start_rev want_prev_kv [] prev past_changes = Returns past_changes"
| "past_loop s key start_rev want_prev_kv (item_rev # revs) prev past_changes =
     bind_run (bd_get (values_by_revision s) (rev_index item_rev))
       (\<lambda>found. case found of
           Some v \<Rightarrow>
             past_loop s key start_rev want_prev_kv revs
               (if want_prev_kv then Some (as_mvcc_key_value v key) else None)
               (if start_rev \<le> item_rev
                then past_changes @ [\<lparr>prev_kv = prev, kv = as_mvcc_key_value v key\<rparr>]
                else past_changes)
         | None \<Rightarrow> past_loop s key start_rev want_prev_kv revs None past_changes)"

definition past_changes_item ::
    "Store \<Rightarrow> i64 \<Rightarrow> bool \<Rightarrow> TreeItem \<Rightarrow> KeyValueWithPrev list \<Rightarrow> KeyValueWithPrev list run" where
  "past_changes_item s start_rev want_prev_kv item past_changes =
     (let pos = (case binary_search (revisions item) start_rev of Inr i \<Rightarrow> i | Inl i \<Rightarrow> i);
          start_pos = (if 0 < pos \<and> want_prev_kv then pos - 1 else pos)
      in past_loop s (item_key item) start_rev want_prev_kv (drop start_pos (revisions item)) None past_changes)"

fun past_changes_items ::
    "Store \<Rightarrow> i64 \<Rightarrow> bool \<Rightarrow> (byte_array \<times> item_ref) list \<Rightarrow> KeyValueWithPrev list \<Rightarrow>
       KeyValueWithPrev list run" where
  "past_changes_items s start_rev want_prev_kv [] past_changes = Returns past_changes"
| "past_changes_items s start_rev want_prev_kv ((_, ref) # es) past_changes =
     bind_run (past_changes_item s start_rev want_prev_kv (tree_items s ref) past_changes)
       (past_changes_items s start_rev want_prev_kv es)"

text \<open>The channel is allocated first, and the watcher is registered before the past is read.\<close>

definition store_watch ::
    "Store \<Rightarrow> byte_array \<Rightarrow> byte_array \<Rightarrow> i64 \<Rightarrow> bool \<Rightarrow>
       (Store \<times> (i64 + KeyValueWithPrev list \<times> i64 \<times> channel_ref)) run" where
  "store_watch s start end r want_prev_kv =
     (let tx = next_channel s;
          s0 = s\<lparr>next_channel := tx + 1\<rparr>;
          start_rev = (if r \<le> 0 then current_revision s else r);
          compact_revision = int (earliest_revision (values_by_revision s))
      in if 0 < r \<and> r \<le> compact_revision then Returns (s0, Inl compact_revision)
         else
           let watcher_id = watch_counter s + 1;
               w = \<lparr>start_revision = start_rev, key_range_start = start, key_range_end = end, ch = tx\<rparr>;
               s1 = s0\<lparr>watch_counter := watcher_id, watchers := btree_insert (start, watcher_id) w (watchers s)\<rparr>
           in if 0 < r then
                case prefix_and_range_of_key start end of
                  Inr (prefix, lo, hi) \<Rightarrow>
                    (case prefix_map s1 prefix of
                       Some btree \<Rightarrow>
                         bind_run (btree_range lo hi btree)
                           (\<lambda>es. bind_run (past_changes_items s1 start_rev want_prev_kv es [])
                              (\<lambda>past_changes. Returns (s1, Inr (past_changes, watcher_id, tx))))
                     | None \<Rightarrow> Returns (s1, Inr ([], watcher_id, tx)))
                | Inl _ \<Rightarrow> Returns (s1, Inl compact_revision)
              else Returns (s1, Inr ([], watcher_id, tx)))"

definition store_unwatch :: "Store \<Rightarrow> byte_array \<Rightarrow> i64 \<Rightarrow> Store" where
  "store_unwatch s start watcher_id = s\<lparr>watchers := btree_remove (start, watcher_id) (watchers s)\<rparr>"

section \<open>Watchers\<close>

text \<open>
  Watchers are indexed by the key their range starts at and an id that was never given before.
\<close>

definition watchers_wf :: "Store \<Rightarrow> bool" where
  "watchers_wf s \<longleftrightarrow>
     btree_wf (watchers s) \<and>
     (\<forall>((k, i), w)\<in>set (watchers s).
        key_range_start w = k \<and> 1 \<le> i \<and> i \<le> watch_counter s \<and> ch w < next_channel s)"

section \<open>Specification of the past changes\<close>

definition value_at :: "history \<Rightarrow> byte_array \<Rightarrow> i64 \<Rightarrow> KeyValue" where
  "value_at h k x = as_mvcc_key_value (hist_values h ! nat (x - 1)) k"

text \<open>The value of the key just before its write at \<open>x\<close>, unless it was compacted away.\<close>

definition before :: "history \<Rightarrow> nat \<Rightarrow> byte_array \<Rightarrow> i64 \<Rightarrow> KeyValue option" where
  "before h e k x =
     (let ys = filter (\<lambda>y. int e < y \<and> y < x) (hist_revs h k)
      in if ys = [] then None else Some (value_at h k (last ys)))"

definition events_from :: "history \<Rightarrow> nat \<Rightarrow> i64 \<Rightarrow> bool \<Rightarrow> byte_array \<Rightarrow> KeyValueWithPrev list" where
  "events_from h e r want k =
     map (\<lambda>x. \<lparr>prev_kv = (if want then before h e k x else None), kv = value_at h k x\<rparr>)
       (filter (\<lambda>x. r \<le> x) (hist_revs h k))"

section \<open>Lemmas\<close>

lemma watch_registers:
  assumes "\<not> (0 < r \<and> r \<le> compacted_revision s)"
    and "store_watch s start end r want = Returns (s', res)"
  shows "watchers s' = btree_insert (start, watch_counter s + 1)
      \<lparr>start_revision = (if r \<le> 0 then current_revision s else r),
       key_range_start = start, key_range_end = end, ch = next_channel s\<rparr> (watchers s)"
    "watch_counter s' = watch_counter s + 1" "next_channel s' = next_channel s + 1"
    "store_repr s' h = store_repr s h" "notify_tx s' = notify_tx s"
proof -
  let ?w = "\<lparr>start_revision = (if r \<le> 0 then current_revision s else r),
       key_range_start = start, key_range_end = end, ch = next_channel s\<rparr>"
  have s': "s' = s\<lparr>next_channel := next_channel s + 1, watch_counter := watch_counter s + 1,
      watchers := btree_insert (start, watch_counter s + 1) ?w (watchers s)\<rparr>"
    using assms
    by (auto simp: store_watch_def Let_def compacted_revision_def bind_run_eq_Returns
        split: if_splits sum.splits option.splits)
  show "watchers s' = btree_insert (start, watch_counter s + 1) ?w (watchers s)"
    "watch_counter s' = watch_counter s + 1" "next_channel s' = next_channel s + 1"
    "notify_tx s' = notify_tx s"
    by (simp_all add: s')
  show "store_repr s' h = store_repr s h" by (rule store_repr_cong) (simp_all add: s')
qed

text \<open>The log gives the value of every revision of a key, as far as it is kept.\<close>

definition gets_revs :: "Store \<Rightarrow> history \<Rightarrow> byte_array \<Rightarrow> bool" where
  "gets_revs s h k \<longleftrightarrow> (\<forall>x\<in>set (hist_revs h k). bd_get (values_by_revision s) (rev_index x) =
     Returns (if int (earliest_revision (values_by_revision s)) < x then Some (hist_values h ! nat (x - 1)) else None))"

lemma gets_revs_log:
  assumes "log_ok F h (values_by_revision s)" "\<And>x. x \<in> set (hist_revs h k) \<Longrightarrow> nat (x - 1) \<notin> F"
  shows "gets_revs s h k"
  unfolding gets_revs_def
proof
  fix x assume x: "x \<in> set (hist_revs h k)"
  from log_get[OF assms(1) _ _ assms(2)[OF x], of "\<lambda>y. y"] hist_revs_bounds[OF x]
  show "bd_get (values_by_revision s) (rev_index x) =
      Returns (if int (earliest_revision (values_by_revision s)) < x then Some (hist_values h ! nat (x - 1)) else None)"
    by (simp add: bd_get_def rev_index_pos id_def)
qed

lemma gets_revs_repr: "store_repr s h \<Longrightarrow> gets_revs s h k"
  by (rule gets_revs_log[OF store_repr_log]) simp_all

text \<open>The loop, run over the part \<open>xs\<close> of the revisions that follows \<open>ys\<close>.\<close>

lemma past_loop_events:
  assumes s: "gets_revs s h k" and e: "int (earliest_revision (values_by_revision s)) < r"
    and rs: "hist_revs h k = ys @ xs" and ge: "\<forall>x\<in>set xs. r \<le> x"
    and p: "p = (if want then (let zs = filter (\<lambda>y. int (earliest_revision (values_by_revision s)) < y) ys
        in if zs = [] then None else Some (value_at h k (last zs))) else None)"
  shows "past_loop s k r want xs p acc = Returns (acc @
    map (\<lambda>x. \<lparr>prev_kv = (if want then before h (earliest_revision (values_by_revision s)) k x else None),
      kv = value_at h k x\<rparr>) xs)"
  using rs ge p
proof (induction xs arbitrary: ys p acc)
  case Nil
  then show ?case by simp
next
  case (Cons x xs)
  let ?e = "earliest_revision (values_by_revision s)"
  have x: "x \<in> set (hist_revs h k)" "r \<le> x" using Cons.prems by auto
  have "sorted_wrt (<) (ys @ x # xs)" using hist_revs_ascending[of h k] Cons.prems(1) by simp
  then have ys: "filter (\<lambda>y. int ?e < y \<and> y < x) (hist_revs h k) = filter (\<lambda>y. int ?e < y) ys"
    unfolding Cons.prems(1) filter_append
    by (subst (2) filter_False; fastforce simp: sorted_wrt_append intro!: filter_cong)
  have p: "p = (if want then before h ?e k x else None)"
    using Cons.prems(3) by (simp add: before_def ys)
  have "past_loop s k r want xs (if want then Some (value_at h k x) else None)
      (acc @ [\<lparr>prev_kv = p, kv = value_at h k x\<rparr>]) =
    Returns ((acc @ [\<lparr>prev_kv = p, kv = value_at h k x\<rparr>]) @
      map (\<lambda>x. \<lparr>prev_kv = (if want then before h ?e k x else None), kv = value_at h k x\<rparr>) xs)"
    using Cons.prems x e by (intro Cons.IH[of "ys @ [x]"]) auto
  with s x e p show ?case by (cases want) (simp_all add: value_at_def gets_revs_def)
qed

lemma split_at_revision:
  fixes xs :: "int list"
  assumes "sorted_wrt (<) xs"
  shows "xs = filter (\<lambda>x. x < r) xs @ filter (\<lambda>x. r \<le> x) xs"
proof -
  have "sorted xs" using assms strict_sorted_iff by blast
  then have "takeWhile (\<lambda>y. y < r) xs = filter (\<lambda>x. x < r) xs"
    "drop (length (takeWhile (\<lambda>y. y < r) xs)) xs = filter (\<lambda>x. r \<le> x) xs"
    using takeWhile_less_sorted drop_partition_point by (auto simp: partition_point_def)
  then show ?thesis by (metis dropWhile_eq_drop takeWhile_dropWhile_id)
qed

lemma past_changes_of_item:
  assumes s: "gets_revs s h k" and it: "item_repr h (earliest_revision (values_by_revision s)) k it"
    and key: "item_key it = k" and e: "int (earliest_revision (values_by_revision s)) < r"
  shows "past_changes_item s r want it acc =
    Returns (acc @ events_from h (earliest_revision (values_by_revision s)) r want k)"
proof -
  let ?e = "earliest_revision (values_by_revision s)" and ?it = it
  let ?lo = "filter (\<lambda>x. x < r) (hist_revs h k)" and ?hi = "filter (\<lambda>x. r \<le> x) (hist_revs h k)"
  obtain c where c: "c \<le> int ?e" "revisions ?it = filter (\<lambda>x. c \<le> x) (hist_revs h k)"
    using item_repr_revs[OF it] by blast
  define zs where "zs = filter (\<lambda>x. c \<le> x) ?lo"
  have hr: "hist_revs h k = ?lo @ ?hi" by (rule split_at_revision[OF hist_revs_ascending])
  have "filter (\<lambda>x. c \<le> x) ?hi = ?hi" using c(1) e by (auto intro!: filter_cong)
  then have revs: "revisions ?it = zs @ ?hi"
    using c(2) hr filter_append[of "\<lambda>x. c \<le> x" ?lo ?hi] by (simp add: zs_def)
  have srt: "sorted_wrt (<) (revisions ?it)" by (rule sorted_item_revs[OF it])
  have "takeWhile (\<lambda>y. y < r) (revisions ?it) = zs"
    unfolding revs zs_def by (subst takeWhile_append2) (auto simp: takeWhile_eq_Nil_iff dest: hd_in_set)
  then have pos: "(case binary_search (revisions ?it) r of Inr i \<Rightarrow> i | Inl i \<Rightarrow> i) = length zs"
    by (simp add: binary_search_def partition_point_def Let_def)
  have kept: "filter (\<lambda>y. int ?e < y) ?lo = filter (\<lambda>y. int ?e < y) zs"
    using c(1) by (auto simp: zs_def intro!: filter_cong)
  note loop = past_loop_events[OF s e hr, where want = want and acc = acc]
  show ?thesis
  proof (cases "zs = [] \<or> \<not> want")
    case True
    then have "past_changes_item s r want ?it acc = past_loop s k r want ?hi None acc"
      using pos key revs by (auto simp: past_changes_item_def Let_def)
    also have "\<dots> = Returns (acc @ events_from h ?e r want k)"
      unfolding events_from_def
      by (rule loop) (use True kept in \<open>auto simp: Let_def\<close>)
    finally show ?thesis .
  next
    case False
    then obtain us u where zs: "zs = us @ [u]" and want by (meson rev_exhaust)
    have "u \<in> set zs" by (simp add: zs)
    then have u: "u \<in> set (hist_revs h k)" "u < r" by (simp_all add: zs_def)
    have p: "(if int ?e < u then Some (value_at h k u) else None) =
        (let zs' = filter (\<lambda>y. int ?e < y) ?lo in if zs' = [] then None else Some (value_at h k (last zs')))"
      using srt unfolding kept revs zs by (auto simp: sorted_wrt_append filter_empty_conv Let_def)
    have "drop (length zs - 1) (revisions ?it) = u # ?hi" by (simp add: revs zs)
    then have "past_changes_item s r want ?it acc = past_loop s k r want (u # ?hi) None acc"
      using pos key zs \<open>want\<close> by (simp add: past_changes_item_def Let_def)
    also have "\<dots> = past_loop s k r want ?hi (if int ?e < u then Some (value_at h k u) else None) acc"
      using s u \<open>want\<close> by (auto simp: value_at_def gets_revs_def)
    also have "\<dots> = Returns (acc @ events_from h ?e r want k)"
      unfolding events_from_def by (rule loop) (use p \<open>want\<close> in \<open>auto simp: Let_def\<close>)
    finally show ?thesis .
  qed
qed

lemma past_changes_item_events:
  assumes "store_repr s h" "tree_map s k = Some ref" "int (earliest_revision (values_by_revision s)) < r"
  shows "past_changes_item s r want (tree_items s ref) acc =
    Returns (acc @ events_from h (earliest_revision (values_by_revision s)) r want k)"
  by (rule past_changes_of_item[OF gets_revs_repr[OF assms(1)] store_repr_item[OF assms(1,2)] _ assms(3)])
    (rule index_wf_tree_map(2)[OF store_reprD(1)[OF assms(1)] assms(2)])

lemma past_changes_items_events:
  assumes "store_repr s h" "int (earliest_revision (values_by_revision s)) < r"
    and "\<forall>(sfx, ref)\<in>set es. tree_map s (p @ sfx) = Some ref"
  shows "past_changes_items s r want es acc =
    Returns (acc @ concat (map (\<lambda>(sfx, _). events_from h (earliest_revision (values_by_revision s)) r want (p @ sfx)) es))"
  using assms(3)
proof (induction es arbitrary: acc)
  case Nil
  then show ?case by simp
next
  case (Cons x es)
  obtain sfx ref where x: "x = (sfx, ref)" by fastforce
  with Cons.prems have "tree_map s (p @ sfx) = Some ref" by simp
  with past_changes_item_events[OF assms(1) this assms(2)] Cons show ?case by (simp add: x)
qed

lemma watchers_wfD:
  assumes "watchers_wf s" "((k, i), w) \<in> set (watchers s)"
  shows "key_range_start w = k" "1 \<le> i" "i \<le> watch_counter s" "ch w < next_channel s"
  using assms by (auto simp: watchers_wf_def)

lemma watchers_wf_init: "watchers_wf (store_init bs mode)"
  using bt.wf_empty by (simp add: watchers_wf_def store_init_def btree_new_def)

lemma mem_btree_insert:
  assumes "btree_wf m"
  shows "(x, w') \<in> set (btree_insert k w m) \<longleftrightarrow> (if x = k then w' = w else (x, w') \<in> set m)"
  using bt.mem_entries_iff[OF bt.wf_insert[OF assms]] bt.mem_entries_iff[OF assms] bt.lookup_insert[OF assms] by auto

lemma watchers_wf_enter:
  assumes "watchers_wf s" "key_range_start w = k" "1 \<le> i" "i \<le> watch_counter s" "ch w < next_channel s"
  shows "watchers_wf (s\<lparr>watchers := btree_insert (k, i) w (watchers s)\<rparr>)"
proof -
  have wf: "btree_wf (watchers s)" using assms(1) by (simp add: watchers_wf_def)
  with bt.wf_insert[OF wf, of "(k, i)" w] assms show ?thesis
    by (auto simp: watchers_wf_def mem_btree_insert[OF wf] split: if_splits)
qed

lemma watchers_wf_wider:
  assumes "watchers_wf s" "watchers s' = watchers s" "watch_counter s \<le> watch_counter s'" "next_channel s \<le> next_channel s'"
  shows "watchers_wf s'"
  using assms by (fastforce simp: watchers_wf_def)

lemma watchers_wf_insert:
  assumes "watchers_wf s" "key_range_start w = k" "ch w = next_channel s" "0 \<le> watch_counter s"
  shows "watchers_wf (s\<lparr>next_channel := next_channel s + 1, watch_counter := watch_counter s + 1,
    watchers := btree_insert (k, watch_counter s + 1) w (watchers s)\<rparr>)"
proof -
  let ?s = "s\<lparr>next_channel := next_channel s + 1, watch_counter := watch_counter s + 1\<rparr>"
  have "watchers_wf ?s" by (rule watchers_wf_wider[OF assms(1)]) simp_all
  from watchers_wf_enter[OF this assms(2), of "watch_counter s + 1"] assms(3,4) show ?thesis by simp
qed

lemma watchers_wf_remove: "watchers_wf s \<Longrightarrow> watchers_wf (store_unwatch s k i)"
  using bt.wf_remove[of "watchers s" "(k, i)"]
  by (auto simp: watchers_wf_def store_unwatch_def btree_remove_def)

lemma bounded_scan_complete:
  assumes "watchers_wf s" "watch_counter s < i64_MAX"
  shows "filter (\<lambda>(_, w). watcher_matches key v w) (filter (\<lambda>(k, _). k < (key, i64_MAX)) (watchers s)) =
    filter (\<lambda>(_, w). watcher_matches key v w) (watchers s)"
proof -
  have "k < (key, i64_MAX)" if "(k, w) \<in> set (watchers s)" "watcher_matches key v w" for k w
    using that watchers_wfD[OF assms(1), of "fst k" "snd k" w] assms(2)
    by (cases k) (auto simp: watcher_matches_def less_prod_def' split: if_splits)
  then show ?thesis by (auto simp: filter_filter intro!: filter_cong)
qed

lemma written_indexed: "store_repr s h \<Longrightarrow> hist_latest h k \<noteq> None \<Longrightarrow> \<exists>ref. tree_map s k = Some ref"
  by (cases "tree_map s k") (auto simp: store_repr_def)

text \<open>The keys of a scan that were ever written, as the B-tree of the prefix gives them.\<close>

lemma scan_unwritten:
  assumes s: "store_repr s h" and "prefix_map s p = None"
  shows "{k. in_scan p lo hi k \<and> hist_latest h k \<noteq> None} = {}"
proof -
  have "hist_latest h k = None" if "in_scan p lo hi k" for k
    using written_indexed[OF s, of k] index_wf_lookup[OF store_reprD(1)[OF s], of k] assms(2) that
    by (cases "hist_latest h k") (auto simp: in_scan_alt)
  then show ?thesis by auto
qed

lemma scan_written:
  fixes lo hi :: "byte_array bound"
  assumes s: "store_repr s h" and p: "prefix_map s p = Some m"
  defines "ks \<equiv> filter (\<lambda>k. hist_latest h k \<noteq> None) (map (\<lambda>(sfx, _). p @ sfx) (filter (\<lambda>(k, _). above lo k \<and> below hi k) m))"
  shows "sorted_wrt (<) ks" "set ks = {k. in_scan p lo hi k \<and> hist_latest h k \<noteq> None}"
proof -
  define es where "es = filter (\<lambda>(k, _). above lo k \<and> below hi k) m"
  have bm: "btree_wf m" using index_wf_prefix_btree[OF store_reprD(1)[OF s] p] .
  show "sorted_wrt (<) ks"
    using bt.filter_entries_ascending[OF bm, of "\<lambda>k. above lo k \<and> below hi k"]
    unfolding ks_def by (intro sorted_wrt_filter) (simp add: sorted_wrt_map split_def)
  have "k \<in> set (map (\<lambda>(sfx, _). p @ sfx) es) \<longleftrightarrow> in_scan p lo hi k" if k: "hist_latest h k \<noteq> None" for k
  proof -
    obtain ref where ref: "tree_map s k = Some ref" using written_indexed[OF s k] by blast
    show ?thesis
      using ref index_wf_lookup[OF store_reprD(1)[OF s], of k ref] p bt.mem_entries_iff[OF bm]
        store_reprD(1)[OF s] prefix_split_key[of k]
      by (force simp: in_scan_alt es_def index_wf_def)
  qed
  then show "set ks = {k. in_scan p lo hi k \<and> hist_latest h k \<noteq> None}"
    unfolding ks_def es_def[symmetric] set_filter by (intro Collect_cong) blast
qed

lemma store_watch_past:
  assumes s: "store_repr s h" and r: "compacted_revision s < r"
    and pr: "prefix_and_range_of_key start end = Inr (p, lo, hi)" "\<not> inverted lo hi"
  shows "\<exists>s' ks. store_watch s start end r want = Returns (s', Inr
      (concat (map (events_from h (earliest_revision (values_by_revision s)) r want) ks),
       watch_counter s + 1, next_channel s)) \<and>
    sorted_wrt (<) ks \<and> set ks = {k. in_scan p lo hi k \<and> hist_latest h k \<noteq> None}"
proof -
  let ?e = "earliest_revision (values_by_revision s)"
  let ?ev = "events_from h ?e r want"
  define s1 where "s1 = s\<lparr>next_channel := next_channel s + 1, watch_counter := watch_counter s + 1,
    watchers := btree_insert (start, watch_counter s + 1)
      \<lparr>start_revision = r, key_range_start = start, key_range_end = end, ch = next_channel s\<rparr> (watchers s)\<rparr>"
  have s1: "store_repr s1 h" using s store_repr_cong[of s1 s h] by (simp add: s1_def)
  have r': "0 < r" "int (earliest_revision (values_by_revision s1)) < r" "\<not> r \<le> int ?e"
    using r by (auto simp: compacted_revision_def s1_def)
  have vals: "values_by_revision s1 = values_by_revision s" by (simp add: s1_def)
  show ?thesis
  proof (cases "prefix_map s p")
    case None
    with None r' pr(1) scan_unwritten[OF s None] show ?thesis
      by (intro exI[of _ s1] exI[of _ "[]"]) (simp add: store_watch_def Let_def s1_def)
  next
    case (Some m)
    define es where "es = filter (\<lambda>(k, _). above lo k \<and> below hi k) m"
    define ks where "ks = filter (\<lambda>k. hist_latest h k \<noteq> None) (map (\<lambda>(sfx, _). p @ sfx) es)"
    note tm = btree_scan_visible(1)[OF s order_refl Some, of lo hi, folded es_def]
    have "?ev k = []" if "hist_latest h k = None" for k
      using that by (simp add: events_from_def hist_latest_None_iff)
    then have ev: "concat (map (\<lambda>(sfx, _). ?ev (p @ sfx)) es) = concat (map ?ev ks)"
      unfolding ks_def by (induction es) auto
    have tm1: "\<forall>(sfx, ref)\<in>set es. tree_map s1 (p @ sfx) = Some ref" using tm by (simp add: s1_def)
    have "store_watch s start end r want = Returns (s1, Inr (concat (map ?ev ks), watch_counter s + 1, next_channel s))"
      using past_changes_items_events[OF s1 r'(2) tm1, of want "[]"] Some pr r'(1,3)
      by (simp add: store_watch_def Let_def s1_def[symmetric] vals ev btree_range_def es_def[symmetric])
         (simp add: s1_def)
    with scan_written[OF s Some, of lo hi] show ?thesis unfolding ks_def es_def by blast
  qed
qed

lemma set_watchers_to_notify:
  assumes "watchers_wf s" "watch_counter s < i64_MAX"
  shows "set (watchers_to_notify s key v) = {ch w | k w. (k, w) \<in> set (watchers s) \<and> watcher_matches key v w}"
  unfolding watchers_to_notify_def bounded_scan_complete[OF assms] by force

lemma watchers_wf_watch:
  assumes "watchers_wf s" "0 \<le> watch_counter s" "\<not> (0 < r \<and> r \<le> compacted_revision s)"
    and "store_watch s start end r want = Returns (s', res)"
  shows "watchers_wf s'"
proof -
  note w = watch_registers[OF assms(3,4)]
  let ?w = "\<lparr>start_revision = (if r \<le> 0 then current_revision s else r),
       key_range_start = start, key_range_end = end, ch = next_channel s\<rparr>"
  have "watchers_wf (s\<lparr>next_channel := next_channel s + 1, watch_counter := watch_counter s + 1,
      watchers := btree_insert (start, watch_counter s + 1) ?w (watchers s)\<rparr>)"
    by (rule watchers_wf_insert[OF assms(1)]) (simp_all add: assms(2))
  with w show ?thesis by (simp add: watchers_wf_def)
qed

lemma mem_watchers_after_watch:
  assumes "watchers_wf s" "\<not> (0 < r \<and> r \<le> compacted_revision s)"
    and "store_watch s start end r want = Returns (s', res)"
  shows "(x, w) \<in> set (watchers s') \<longleftrightarrow>
    (x = (start, watch_counter s + 1) \<and> w = \<lparr>start_revision = (if r \<le> 0 then current_revision s else r),
       key_range_start = start, key_range_end = end, ch = next_channel s\<rparr>) \<or> (x, w) \<in> set (watchers s)"
proof -
  have wf: "btree_wf (watchers s)" using assms(1) by (simp add: watchers_wf_def)
  have "((start, watch_counter s + 1), w') \<notin> set (watchers s)" for w'
    using watchers_wfD(3)[OF assms(1), of start "watch_counter s + 1" w'] by auto
  then have "btree_get (watchers s) (start, watch_counter s + 1) = None"
    using bt.mem_entries_iff[OF wf] by (metis not_Some_eq)
  then show ?thesis
    unfolding watch_registers(1)[OF assms(2,3)]
    using bt.mem_entries_iff[OF bt.wf_insert[OF wf]] bt.mem_entries_iff[OF wf] bt.lookup_insert[OF wf] by auto
qed

lemma watch_result:
  assumes "store_watch s start end r want = Returns (s', Inr (past, i, c))"
  shows "i = watch_counter s + 1" "c = next_channel s" "\<not> (0 < r \<and> r \<le> compacted_revision s)"
  using assms
  by (auto simp: store_watch_def Let_def compacted_revision_def bind_run_eq_Returns
      split: if_splits sum.splits option.splits)

text \<open>The new channel is notified exactly when its own watcher matches.\<close>

lemma new_channel_notified:
  assumes wf: "watchers_wf s" "0 \<le> watch_counter s" "watch_counter s + 1 < i64_MAX"
    and w: "store_watch s start end r want = Returns (s', Inr (past, i, c))"
  shows "c \<in> set (watchers_to_notify s' k v) \<longleftrightarrow>
    (if r \<le> 0 then current_revision s else r) \<le> mod_revision v \<and>
    (if end = [] then k = start else k < end \<and> start \<le> k)"
proof -
  note res = watch_result[OF w]
  have "watch_counter s' < i64_MAX" using watch_registers(2)[OF res(3) w] wf(3) by simp
  note set = set_watchers_to_notify[OF watchers_wf_watch[OF wf(1,2) res(3) w] this, of k v]
  define W where "W = \<lparr>start_revision = (if r \<le> 0 then current_revision s else r),
       key_range_start = start, key_range_end = end, ch = next_channel s\<rparr>"
  have old: "ch w' \<noteq> c" if "(x, w') \<in> set (watchers s)" for x w'
    using watchers_wfD(4)[OF wf(1), of "fst x" "snd x" w'] that res(2) by simp
  have "ch W = c" using res(2) by (simp add: W_def)
  with old have "c \<in> set (watchers_to_notify s' k v) \<longleftrightarrow> watcher_matches k v W"
    unfolding set mem_watchers_after_watch[OF wf(1) res(3) w] W_def[symmetric] by blast
  then show ?thesis by (simp add: watcher_matches_def W_def)
qed

lemma length_btree_insert_new: "k \<notin> fst ` set m \<Longrightarrow> length (btree_insert k v m) = length m + 1"
  by (induction k v m rule: btree_insert.induct) auto

section \<open>Properties\<close>

text \<open>
  C27: the past changes of a watch. From a requested revision that is not compacted on, the watcher is
  given, for each key of the range that was ever written, in key order, every write to that key
  at or after the revision, in revision order, and with it (if asked for) the value the key had
  just before, when compaction has kept it.
\<close>

theorem watch_past_changes:
  assumes "store_repr s h" "compacted_revision s < r"
    and "prefix_and_range_of_key start end = Inr (p, lo, hi)" "\<not> inverted lo hi"
  shows "\<exists>s' ks. store_watch s start end r want = Returns (s', Inr
      (concat (map (events_from h (earliest_revision (values_by_revision s)) r want) ks),
       watch_counter s + 1, next_channel s)) \<and>
    sorted_wrt (<) ks \<and> set ks = {k. in_scan p lo hi k \<and> hist_latest h k \<noteq> None}"
  by (rule store_watch_past[OF assms])

theorem watch_past_changes_witness:
  "\<exists>s'. store_watch example_store key_b [] 2 True = Returns (s', Inr
      ([\<lparr>prev_kv = None, kv = as_mvcc_key_value
          \<lparr>create_revision = 2, mod_revision = 2, version = 1, val = Some [2]\<rparr> key_b\<rparr>,
        \<lparr>prev_kv = Some (as_mvcc_key_value
          \<lparr>create_revision = 2, mod_revision = 2, version = 1, val = Some [2]\<rparr> key_b),
         kv = as_mvcc_key_value
          \<lparr>create_revision = 2, mod_revision = 5, version = 2, val = None\<rparr> key_b\<rparr>], 1, 0))"
proof -
  have pr: "prefix_and_range_of_key key_b [] = Inr (pods, Included [98], Included [98])"
    "hist_latest example_history key_b \<noteq> None" "watch_counter example_store = 0" "next_channel example_store = 0"
    by code_simp+
  have ev: "events_from example_history (earliest_revision (values_by_revision example_store)) 2 True key_b =
      [\<lparr>prev_kv = None, kv = as_mvcc_key_value
          \<lparr>create_revision = 2, mod_revision = 2, version = 1, val = Some [2]\<rparr> key_b\<rparr>,
        \<lparr>prev_kv = Some (as_mvcc_key_value
          \<lparr>create_revision = 2, mod_revision = 2, version = 1, val = Some [2]\<rparr> key_b),
         kv = as_mvcc_key_value
          \<lparr>create_revision = 2, mod_revision = 5, version = 2, val = None\<rparr> key_b\<rparr>]" by code_simp
  have "{k. in_scan pods (Included [98]) (Included [98]) k \<and> hist_latest example_history k \<noteq> None} = {key_b}"
    using range_of_key_single[OF pr(1)] pr(2) by (auto simp: in_scan_alt)
  with watch_past_changes[OF example_repr _ pr(1), of 2 True] example_facts(5) obtain s' ks where
    "store_watch example_store key_b [] 2 True = Returns (s', Inr
      (concat (map (events_from example_history (earliest_revision (values_by_revision example_store)) 2 True) ks), 1, 0))"
    "sorted_wrt (<) ks" "set ks = {key_b}" by (auto simp: pr)
  moreover from this have "ks = [key_b]"
    by (cases ks) (auto simp: strict_sorted_iff distinct_singleton subset_singleton_iff)
  ultimately show ?thesis by (auto simp: ev)
qed

text \<open>
  No event is lost between the past and the present of a watch. After a watch on a plain range
  was accepted, the job of the next write goes to the new channel exactly when the key lies in the
  range and the revision is not before the requested one. An end of one NUL byte, which a range
  reads as no bound, is here an end below every non-empty key.
\<close>

lemma watch_then_write:
  assumes "store_repr s h" "watchers_wf s" "0 \<le> watch_counter s" "watch_counter s + 1 < i64_MAX"
    and "store_watch s start end r want = Returns (s1, Inr (past, i, c))"
    and "admits (hist_live h k) v required"
  shows "\<exists>s2 job w. store_set s1 k v required = Returns (s2, Inr (int (length h) + 1), w) \<and>
    notify_tx s2 = notify_tx s @ [job] \<and>
    (c \<in> set (job_watchers job) \<longleftrightarrow>
       r \<le> int (length h) + 1 \<and> (if end = [] then k = start else start \<le> k \<and> k < end))"
proof -
  note res = watch_result[OF assms(5)]
  note reg = watch_registers(4,5)[OF res(3) assms(5)]
  have "store_repr s1 h" using reg(1) assms(1) by simp
  from store_set_admitted[OF this assms(6)] reg(2)
    new_channel_notified[OF assms(2-5), of k "write_value (hist_latest h k) (int (length h) + 1) v"]
    store_reprD(6)[OF assms(1)]
  show ?thesis by (auto split: if_splits)
qed

lemma example_watchers: "watchers_wf example_store" "watch_counter example_store = 0"
proof -
  have "watchers example_store = btree_new" by code_simp
  then show "watchers_wf example_store" using bt.wf_empty by (simp add: watchers_wf_def btree_new_def)
  show "watch_counter example_store = 0" by code_simp
qed

lemma watch_then_write_witness:
  "\<exists>s1 past s2 job w. store_watch example_store [47] [0] 0 False = Returns (s1, Inr (past, 1, 0)) \<and>
    store_set s1 key_a (Some [9]) None = Returns (s2, Inr 6, w) \<and>
    notify_tx s2 = notify_tx example_store @ [job] \<and> 0 \<notin> set (job_watchers job)"
proof -
  obtain s1 where w: "store_watch example_store [47] [0] 0 False = Returns (s1, Inr ([], 1, 0))"
  proof
    have "next_channel example_store = 0" by code_simp
    then show "store_watch example_store [47] [0] 0 False = Returns (
        example_store\<lparr>next_channel := 1, watch_counter := 1, watchers := btree_insert ([47], 1)
          \<lparr>start_revision = current_revision example_store, key_range_start = [47], key_range_end = [0], ch = 0\<rparr>
          (watchers example_store)\<rparr>, Inr ([], 1, 0))"
      by (simp add: store_watch_def Let_def example_watchers)
  qed
  have nul: "\<not> key_a < [0]" by code_simp
  have "admits (hist_live example_history key_a) (Some [9]) None" by (simp add: admits_unconditional)
  from watch_then_write[OF example_repr example_watchers(1) _ _ w this] example_watchers(2) example_facts(1) nul
  show ?thesis using w by (fastforce simp: i64_MAX_def)
qed

text \<open>
  The failing watches. A watch on a compacted revision registers nothing and reports the
  compacted revision; a watch whose ends lie in different prefixes reports it too, but its watcher
  stays registered, although the caller holds no id to remove it and its channel is closed.
\<close>

lemma watch_failures:
  assumes "store_repr s h" "watchers_wf s" "0 < r"
  shows "if r \<le> compacted_revision s
    then \<exists>s'. store_watch s start end r want = Returns (s', Inl (compacted_revision s)) \<and> watchers s' = watchers s
    else \<forall>e. prefix_and_range_of_key start end = Inl e \<longrightarrow>
      (\<exists>s'. store_watch s start end r want = Returns (s', Inl (compacted_revision s)) \<and>
         watcher_count s' = watcher_count s + 1)"
proof (cases "r \<le> compacted_revision s")
  case True
  with assms(3) show ?thesis by (simp add: store_watch_def Let_def compacted_revision_def)
next
  case False
  have "(start, watch_counter s + 1) \<notin> fst ` set (watchers s)"
    using watchers_wfD(3)[OF assms(2)] by fastforce
  with False assms(3) show ?thesis
    by (auto simp: store_watch_def Let_def compacted_revision_def watcher_count_def length_btree_insert_new)
qed

lemma watch_failures_witness:
  "\<exists>s'. store_watch example_store key_a (bytes ''/registry/roles/x'') 1 False = Returns (s', Inl 0) \<and>
     watcher_count s' = 1"
proof -
  have "prefix_and_range_of_key key_a (bytes ''/registry/roles/x'') =
      Inl (err_prefix pods (bytes ''/registry/roles/''))" "watcher_count example_store = 0" by code_simp+
  with watch_failures[OF example_repr example_watchers(1), of 1 key_a "bytes ''/registry/roles/x''" False]
  show ?thesis by (simp add: example_facts)
qed

end
