(* ===== verification/Watch_Service.thy ===== *)
theory Watch_Service
  imports Kv_Service Store_Watch
begin

text \<open>
  The watch stream of \<open>src/watch_service.rs\<close>: its opening, the responses it starts with, and the loop
  that turns the messages of the watcher's channel and the client's messages into responses. One
  iteration of the loop is one poll of the \<open>select!\<close>; the channel, the client and the progress
  revision of the notification thread are the environment, which acts between the polls.
\<close>

section \<open>Messages\<close>

datatype event_type = EventPut | EventDelete

record Event =
  event_type :: event_type
  event_kv :: KeyValue
  event_prev_kv :: "KeyValue option"

record WatchCreateRequest =
  create_key :: byte_array
  create_range_end :: byte_array
  create_start_revision :: i64
  create_prev_kv :: bool

datatype request_union = CreateRequest WatchCreateRequest | CancelRequest i64 | ProgressRequest

text \<open>What \<open>req_inner.message()\<close> gives: an error of the transport, the end of the stream, or a message.\<close>

datatype client_message = MessageError status | MessageEnd | Message "request_union option"

record WatchResponse =
  watch_header :: ResponseHeader
  watch_id :: i64
  created :: bool
  compact_revision :: i64
  events :: "Event list"

section \<open>The stream\<close>

text \<open>
  The local variables of the stream, the messages waiting in its channel, the responses it has
  yielded, and whether it has returned.
\<close>

record WatchStream =
  ws_key :: byte_array
  ws_watcher_id :: i64
  ws_prev_kv :: bool
  max_event_stream_rev :: i64
  ws_rx :: "KeyValueWithPrev list"
  ws_rx_closed :: bool
  ws_yielded :: "WatchResponse list"
  ws_returned :: bool

definition watch_event :: "bool \<Rightarrow> KeyValueWithPrev \<Rightarrow> Event" where
  "watch_event want c =
     \<lparr>event_type = (if kv_version (kv c) = 0 then EventDelete else EventPut), event_kv = kv c,
      event_prev_kv = (if want then prev_kv c else None)\<rparr>"

definition watch_response :: "i64 \<Rightarrow> i64 \<Rightarrow> Event list \<Rightarrow> WatchResponse" where
  "watch_response r i evs =
     \<lparr>watch_header = header r, watch_id = i, created = False, compact_revision = 0, events = evs\<rparr>"

definition yield_response :: "WatchStream \<Rightarrow> WatchResponse \<Rightarrow> WatchStream" where
  "yield_response ws resp = ws\<lparr>ws_yielded := ws_yielded ws @ [resp]\<rparr>"

text \<open>
  Opening: the first message must be a create request. A failed watch gives a stream of one response;
  otherwise the watcher's id, channel and past changes come from the store.
\<close>

datatype watch_opened =
  WatchOnce WatchResponse
| WatchOpened "KeyValueWithPrev list" i64 channel_ref WatchCreateRequest

definition watch_open :: "Store \<Rightarrow> client_message \<Rightarrow> (Store \<times> (status + watch_opened)) run" where
  "watch_open s msg =
     (case msg of
        MessageError e \<Rightarrow> Returns (s, Inl e)
      | MessageEnd \<Rightarrow> Returns (s, Inl (Status Cancelled ''client closed stream before sending request'' []))
      | Message (Some (CreateRequest req)) \<Rightarrow>
          bind_run (store_watch s (create_key req) (create_range_end req) (create_start_revision req) (create_prev_kv req))
            (\<lambda>(s', res). Returns (s', Inr (case res of
               Inl compacted \<Rightarrow> WatchOnce \<lparr>watch_header = header 0, watch_id = 0, created = False,
                 compact_revision = compacted, events = []\<rparr>
             | Inr (past_changes, watcher_id, rx) \<Rightarrow> WatchOpened past_changes watcher_id rx req)))
      | Message _ \<Rightarrow> Returns (s, Inl (Status InvalidArgument ''Not supported'' [])))"

text \<open>
  The start of the stream: the confirmation and the past changes, with the current revision of the
  store at the time of each, and the revision below which the channel holds only duplicates.
\<close>

definition watch_start :: "i64 \<Rightarrow> i64 \<Rightarrow> KeyValueWithPrev list \<Rightarrow> i64 \<Rightarrow> WatchCreateRequest \<Rightarrow> WatchStream" where
  "watch_start r r' past_changes watcher_id req =
     (let max_past_rev = (if past_changes = [] then 0 else kv_mod_revision (kv (last past_changes)));
          confirmed = (watch_response r watcher_id [])\<lparr>created := True\<rparr>
      in \<lparr>ws_key = create_key req, ws_watcher_id = watcher_id, ws_prev_kv = create_prev_kv req,
          max_event_stream_rev = max_past_rev, ws_rx = [], ws_rx_closed = False,
          ws_yielded = confirmed #
            (if past_changes \<noteq> []
             then [watch_response r' watcher_id (map (watch_event (create_prev_kv req)) past_changes)] else []),
          ws_returned = False\<rparr>)"

text \<open>The first branch of the \<open>select!\<close>: up to 1000 messages, without those already delivered.\<close>

definition watch_deliver :: "WatchStream \<Rightarrow> WatchStream" where
  "watch_deliver ws =
     (let read_many = filter (\<lambda>c. max_event_stream_rev ws < kv_mod_revision (kv c)) (take 1000 (ws_rx ws));
          ws' = ws\<lparr>ws_rx := drop 1000 (ws_rx ws)\<rparr>
      in if read_many = [] then ws'
         else let last_rev = kv_mod_revision (kv (last read_many)) in
           yield_response (ws'\<lparr>max_event_stream_rev := max last_rev (max_event_stream_rev ws)\<rparr>)
             (watch_response last_rev (ws_watcher_id ws) (map (watch_event (ws_prev_kv ws)) read_many)))"

text \<open>The second branch: a message of the client.\<close>

definition watch_client :: "i64 \<Rightarrow> client_message \<Rightarrow> Store \<Rightarrow> WatchStream \<Rightarrow> Store \<times> WatchStream" where
  "watch_client progress_rev msg s ws =
     (let stop = (store_unwatch s (ws_key ws) (ws_watcher_id ws), ws\<lparr>ws_returned := True\<rparr>) in
      case msg of
        MessageError _ \<Rightarrow> stop
      | MessageEnd \<Rightarrow> stop
      | Message (Some (CancelRequest i)) \<Rightarrow> if i = ws_watcher_id ws then stop else (s, ws)
      | Message (Some ProgressRequest) \<Rightarrow>
          (s, yield_response ws
             (watch_response (max progress_rev (max_event_stream_rev ws)) (ws_watcher_id ws) []))
      | Message _ \<Rightarrow> (s, ws))"

text \<open>One poll, biased towards the channel; with nothing to read the stream waits.\<close>

definition watch_poll :: "i64 \<Rightarrow> client_message option \<Rightarrow> Store \<Rightarrow> WatchStream \<Rightarrow> Store \<times> WatchStream" where
  "watch_poll progress_rev msg s ws =
     (if ws_returned ws then (s, ws)
      else if ws_rx ws \<noteq> [] then (s, watch_deliver ws)
      else if ws_rx_closed ws
      then (store_unwatch s (ws_key ws) (ws_watcher_id ws), ws\<lparr>ws_returned := True\<rparr>)
      else case msg of
        Some m \<Rightarrow> watch_client progress_rev m s ws
      | None \<Rightarrow> (s, ws))"

section \<open>Runs\<close>

text \<open>
  The environment puts messages into the channel and closes it; a poll finds the progress revision
  and perhaps a message of the client.
\<close>

datatype watch_action = Enqueue KeyValueWithPrev | CloseChannel | Poll i64 "client_message option"

fun watch_act :: "watch_action \<Rightarrow> Store \<times> WatchStream \<Rightarrow> Store \<times> WatchStream" where
  "watch_act (Enqueue c) (s, ws) = (s, ws\<lparr>ws_rx := ws_rx ws @ [c]\<rparr>)"
| "watch_act CloseChannel (s, ws) = (s, ws\<lparr>ws_rx_closed := True\<rparr>)"
| "watch_act (Poll p msg) (s, ws) = watch_poll p msg s ws"

definition watch_run :: "watch_action list \<Rightarrow> Store \<times> WatchStream \<Rightarrow> Store \<times> WatchStream" where
  "watch_run acts x = fold watch_act acts x"

fun enqueued :: "watch_action list \<Rightarrow> KeyValueWithPrev list" where
  "enqueued [] = []"
| "enqueued (Enqueue c # acts) = c # enqueued acts"
| "enqueued (_ # acts) = enqueued acts"

definition yielded_events :: "WatchStream \<Rightarrow> Event list" where
  "yielded_events ws = concat (map events (ws_yielded ws))"

section \<open>Lemmas\<close>

abbreviation rev_of :: "KeyValueWithPrev \<Rightarrow> i64" where
  "rev_of c \<equiv> kv_mod_revision (kv c)"

abbreviation ascending :: "KeyValueWithPrev list \<Rightarrow> bool" where
  "ascending cs \<equiv> sorted_wrt (\<lambda>c d. rev_of c < rev_of d) cs"

text \<open>What is still to be delivered, when \<open>fut\<close> arrives later.\<close>

definition undelivered :: "WatchStream \<Rightarrow> KeyValueWithPrev list \<Rightarrow> KeyValueWithPrev list" where
  "undelivered ws fut = filter (\<lambda>c. max_event_stream_rev ws < rev_of c) (ws_rx ws @ fut)"

lemma yielded_events_simps [simp]:
  "yielded_events (yield_response ws resp) = yielded_events ws @ events resp"
  "yielded_events (ws\<lparr>ws_rx := q\<rparr>) = yielded_events ws" "yielded_events (ws\<lparr>ws_rx_closed := b\<rparr>) = yielded_events ws"
  "yielded_events (ws\<lparr>ws_returned := b\<rparr>) = yielded_events ws"
  "yielded_events (ws\<lparr>max_event_stream_rev := m\<rparr>) = yielded_events ws"
  "events (watch_response r i evs) = evs"
  by (simp_all add: yielded_events_def yield_response_def watch_response_def)

lemma yield_response_simps [simp]:
  "ws_rx (yield_response ws resp) = ws_rx ws" "ws_prev_kv (yield_response ws resp) = ws_prev_kv ws"
  "max_event_stream_rev (yield_response ws resp) = max_event_stream_rev ws"
  "ws_returned (yield_response ws resp) = ws_returned ws" "ws_key (yield_response ws resp) = ws_key ws"
  "ws_watcher_id (yield_response ws resp) = ws_watcher_id ws"
  "ws_yielded (yield_response ws resp) = ws_yielded ws @ [resp]"
  by (simp_all add: yield_response_def)

lemma watch_deliver_read:
  defines "read ws \<equiv> filter (\<lambda>c. max_event_stream_rev ws < rev_of c) (take 1000 (ws_rx ws))"
  shows "yielded_events (watch_deliver ws) = yielded_events ws @ map (watch_event (ws_prev_kv ws)) (read ws)"
    "ws_rx (watch_deliver ws) = drop 1000 (ws_rx ws)"
    "max_event_stream_rev (watch_deliver ws) =
      (if read ws = [] then max_event_stream_rev ws else max (rev_of (last (read ws))) (max_event_stream_rev ws))"
    "ws_prev_kv (watch_deliver ws) = ws_prev_kv ws"
  by (auto simp: watch_deliver_def Let_def read_def)

lemma watch_deliver_conserves:
  assumes "ascending (ws_rx ws @ fut)"
  shows "yielded_events (watch_deliver ws) @ map (watch_event (ws_prev_kv ws)) (undelivered (watch_deliver ws) fut) =
    yielded_events ws @ map (watch_event (ws_prev_kv ws)) (undelivered ws fut)"
proof -
  let ?m = "max_event_stream_rev ws"
  define read where "read = filter (\<lambda>c. ?m < rev_of c) (take 1000 (ws_rx ws))"
  note d = watch_deliver_read[of ws, folded read_def]
  have split: "ws_rx ws @ fut = take 1000 (ws_rx ws) @ drop 1000 (ws_rx ws) @ fut" by simp
  have "filter (\<lambda>c. max_event_stream_rev (watch_deliver ws) < rev_of c) (drop 1000 (ws_rx ws) @ fut) =
      filter (\<lambda>c. ?m < rev_of c) (drop 1000 (ws_rx ws) @ fut)"
  proof (cases "read = []")
    case False
    then have l: "last read \<in> set read" by simp
    then have l': "?m < rev_of (last read)" "last read \<in> set (take 1000 (ws_rx ws))" by (auto simp: read_def)
    have "rev_of (last read) < rev_of c" if "c \<in> set (drop 1000 (ws_rx ws) @ fut)" for c
      using assms l'(2) that split sorted_wrt_append[of _ "take 1000 (ws_rx ws)" "drop 1000 (ws_rx ws) @ fut"] by metis
    with l'(1) False show ?thesis by (intro filter_cong refl) (fastforce simp: d(3))
  qed (simp add: d(3))
  moreover have "undelivered ws fut = read @ filter (\<lambda>c. ?m < rev_of c) (drop 1000 (ws_rx ws) @ fut)"
    unfolding undelivered_def by (subst split) (simp only: filter_append read_def)
  ultimately show ?thesis by (simp add: undelivered_def d)
qed

lemma watch_client_keeps:
  assumes "watch_client p m s ws = (s', ws')"
  shows "yielded_events ws' = yielded_events ws" "ws_rx ws' = ws_rx ws" "ws_prev_kv ws' = ws_prev_kv ws"
    "max_event_stream_rev ws' = max_event_stream_rev ws"
  using assms
  by (auto simp: watch_client_def Let_def split: client_message.splits option.splits request_union.splits if_splits)

lemma watch_poll_conserves:
  assumes "ascending (ws_rx ws @ fut)" "watch_poll p msg s ws = (s', ws')"
  shows "yielded_events ws' @ map (watch_event (ws_prev_kv ws')) (undelivered ws' fut) =
      yielded_events ws @ map (watch_event (ws_prev_kv ws)) (undelivered ws fut)"
    "ws_prev_kv ws' = ws_prev_kv ws" "ascending (ws_rx ws' @ fut)"
proof -
  consider "s' = s" "ws' = watch_deliver ws" | "ws_rx ws' = ws_rx ws" "yielded_events ws' = yielded_events ws"
      "max_event_stream_rev ws' = max_event_stream_rev ws" "ws_prev_kv ws' = ws_prev_kv ws"
    using assms(2) watch_client_keeps[of p _ s ws s' ws']
    by (auto simp: watch_poll_def split: if_splits option.splits)
  note cases = this
  show "yielded_events ws' @ map (watch_event (ws_prev_kv ws')) (undelivered ws' fut) =
      yielded_events ws @ map (watch_event (ws_prev_kv ws)) (undelivered ws fut)"
    by (rule cases) (simp add: watch_deliver_conserves[OF assms(1)] watch_deliver_read(4), simp add: undelivered_def)
  show "ws_prev_kv ws' = ws_prev_kv ws" by (rule cases) (simp_all add: watch_deliver_read(4))
  show "ascending (ws_rx ws' @ fut)"
  proof (rule cases)
    assume "s' = s" "ws' = watch_deliver ws"
    moreover have "ascending (drop 1000 (ws_rx ws) @ fut)"
      using sorted_wrt_drop[OF assms(1), of "min 1000 (length (ws_rx ws))"] by (simp add: min_def split: if_splits)
    ultimately show ?thesis by (simp add: watch_deliver_read(2))
  qed (use assms(1) in simp)
qed

lemma watch_run_conserves:
  assumes "ascending (ws_rx ws @ enqueued acts)" "watch_run acts (s, ws) = (s', ws')"
  shows "yielded_events ws' @ map (watch_event (ws_prev_kv ws')) (undelivered ws' []) =
    yielded_events ws @ map (watch_event (ws_prev_kv ws)) (undelivered ws (enqueued acts)) \<and>
    ws_prev_kv ws' = ws_prev_kv ws"
  using assms
proof (induction acts arbitrary: s ws)
  case Nil
  then show ?case by (simp add: watch_run_def)
next
  case (Cons a acts)
  obtain s1 ws1 where a: "watch_act a (s, ws) = (s1, ws1)" by fastforce
  with Cons.prems(2) have run: "watch_run acts (s1, ws1) = (s', ws')" by (simp add: watch_run_def)
  show ?case
  proof (cases a)
    case (Poll p msg)
    with a Cons.prems(1) watch_poll_conserves[of ws "enqueued acts" p msg s s1 ws1] Cons.IH[OF _ run]
    show ?thesis by auto
  qed (use a Cons.prems(1) Cons.IH[OF _ run] in \<open>auto simp: undelivered_def\<close>)
qed

lemma watch_start_simps:
  "ws_rx (watch_start r r' past i req) = []" "ws_prev_kv (watch_start r r' past i req) = create_prev_kv req"
  "max_event_stream_rev (watch_start r r' past i req) = (if past = [] then 0 else rev_of (last past))"
  "yielded_events (watch_start r r' past i req) = map (watch_event (create_prev_kv req)) past"
  "\<not> ws_returned (watch_start r r' past i req)"
  by (simp_all add: watch_start_def Let_def yielded_events_def watch_response_def)

text \<open>What a run yields lies above everything that was a lower bound of the stream and its channel.\<close>

lemma watch_deliver_above:
  assumes "\<forall>c\<in>set (ws_rx ws). p < rev_of c" "q \<le> max_event_stream_rev ws"
  shows "\<exists>new. ws_yielded (watch_deliver ws) = ws_yielded ws @ new \<and>
      (\<forall>resp\<in>set new. \<forall>e\<in>set (events resp). max p q < kv_mod_revision (event_kv e))"
    "q \<le> max_event_stream_rev (watch_deliver ws)"
  using assms by (auto simp: watch_deliver_def Let_def watch_event_def watch_response_def dest: in_set_takeD)

lemma watch_act_above:
  assumes "\<forall>c\<in>set (ws_rx ws) \<union> set (enqueued [a]). p < rev_of c" "q \<le> max_event_stream_rev ws"
    and "watch_act a (s, ws) = (s', ws')"
  shows "\<exists>new. ws_yielded ws' = ws_yielded ws @ new \<and>
      (\<forall>resp\<in>set new. \<forall>e\<in>set (events resp). max p q < kv_mod_revision (event_kv e))"
    "q \<le> max_event_stream_rev ws'" "set (ws_rx ws') \<subseteq> set (ws_rx ws) \<union> set (enqueued [a])"
proof -
  have deliver: "\<exists>new. ws_yielded (watch_deliver ws) = ws_yielded ws @ new \<and>
      (\<forall>resp\<in>set new. \<forall>e\<in>set (events resp). max p q < kv_mod_revision (event_kv e))"
    using watch_deliver_above(1)[of ws p q] assms(1,2) by blast
  show "\<exists>new. ws_yielded ws' = ws_yielded ws @ new \<and>
      (\<forall>resp\<in>set new. \<forall>e\<in>set (events resp). max p q < kv_mod_revision (event_kv e))"
    using assms(3) deliver
    by (cases a) (auto simp: watch_poll_def watch_client_def Let_def
        split: if_splits option.splits client_message.splits request_union.splits)
  show "q \<le> max_event_stream_rev ws'"
    using assms(2,3) watch_deliver_above(2)[of ws p q] assms(1)
    by (cases a) (auto simp: watch_poll_def watch_client_def Let_def
        split: if_splits option.splits client_message.splits request_union.splits)
  show "set (ws_rx ws') \<subseteq> set (ws_rx ws) \<union> set (enqueued [a])"
    using assms(3)
    by (cases a) (auto simp: watch_poll_def watch_client_def watch_deliver_read(2) Let_def dest: in_set_dropD
        split: if_splits option.splits client_message.splits request_union.splits)
qed

lemma enqueued_Cons: "enqueued (a # acts) = enqueued [a] @ enqueued acts"
  by (cases a) auto

lemma watch_run_above:
  assumes "\<forall>c\<in>set (ws_rx ws) \<union> set (enqueued acts). p < rev_of c" "q \<le> max_event_stream_rev ws"
    and "watch_run acts (s, ws) = (s', ws')"
  shows "\<exists>new. ws_yielded ws' = ws_yielded ws @ new \<and>
    (\<forall>resp\<in>set new. \<forall>e\<in>set (events resp). max p q < kv_mod_revision (event_kv e))"
  using assms
proof (induction acts arbitrary: s ws)
  case Nil
  then show ?case by (simp add: watch_run_def)
next
  case (Cons a acts)
  obtain s1 ws1 where a: "watch_act a (s, ws) = (s1, ws1)" by fastforce
  with Cons.prems(3) have run: "watch_run acts (s1, ws1) = (s', ws')" by (simp add: watch_run_def)
  have pre: "\<forall>c\<in>set (ws_rx ws) \<union> set (enqueued [a]). p < rev_of c" "\<forall>c\<in>set (enqueued acts). p < rev_of c"
    using Cons.prems(1) by (auto simp: enqueued_Cons[of a acts])
  note step = watch_act_above[OF pre(1) Cons.prems(2) a]
  have "\<forall>c\<in>set (ws_rx ws1) \<union> set (enqueued acts). p < rev_of c" using step(3) pre by blast
  from Cons.IH[OF this step(2) run] step(1) show ?case by fastforce
qed

lemma watch_act_store:
  assumes "watch_act a (s, ws) = (s', ws')" "\<not> ws_returned ws"
  shows "s' = (if ws_returned ws' then store_unwatch s (ws_key ws) (ws_watcher_id ws) else s)"
    "ws_key ws' = ws_key ws" "ws_watcher_id ws' = ws_watcher_id ws"
  using assms
  by (cases a; auto simp: watch_poll_def watch_client_def watch_deliver_def Let_def
      split: if_splits option.splits client_message.splits request_union.splits)+

lemma watch_act_returned:
  assumes "watch_act a (s, ws) = (s', ws')" "ws_returned ws"
  shows "s' = s" "ws_returned ws'" "ws_yielded ws' = ws_yielded ws"
  using assms by (cases a; auto simp: watch_poll_def)+

lemma watch_run_returned:
  "ws_returned ws \<Longrightarrow> watch_run acts (s, ws) = (s', ws') \<Longrightarrow> s' = s \<and> ws_returned ws'"
proof (induction acts arbitrary: ws)
  case (Cons a acts)
  obtain s1 ws1 where a: "watch_act a (s, ws) = (s1, ws1)" by fastforce
  with watch_act_returned[OF a Cons.prems(1)] Cons show ?case by (simp add: watch_run_def)
qed (simp add: watch_run_def)

lemma watch_run_store:
  assumes "\<not> ws_returned ws" "watch_run acts (s, ws) = (s', ws')"
  shows "s' = (if ws_returned ws' then store_unwatch s (ws_key ws) (ws_watcher_id ws) else s)"
  using assms
proof (induction acts arbitrary: ws)
  case (Cons a acts)
  obtain s1 ws1 where a: "watch_act a (s, ws) = (s1, ws1)" by fastforce
  with Cons.prems(2) have run: "watch_run acts (s1, ws1) = (s', ws')" by (simp add: watch_run_def)
  note step = watch_act_store[OF a Cons.prems(1)]
  show ?case
  proof (cases "ws_returned ws1")
    case True
    with watch_run_returned[OF True run] step show ?thesis by simp
  next
    case False
    with Cons.IH[OF False] run step show ?thesis by simp
  qed
qed (simp add: watch_run_def)

section \<open>Properties\<close>

text \<open>
  Nothing is lost between the store and the client. If the channel carries its messages in
  revision order, then at any time the events sent, followed by those still waiting in the channel,
  are the past changes followed by the messages above the revision of the last past change, each
  with its type and, if asked for, its previous value.
\<close>

lemma watch_stream_delivers:
  assumes "ascending (enqueued acts)"
    and "watch_run acts (s, watch_start r r' past i req) = (s', ws)"
  shows "yielded_events ws @ map (watch_event (create_prev_kv req))
      (filter (\<lambda>c. max_event_stream_rev ws < kv_mod_revision (kv c)) (ws_rx ws)) =
    map (watch_event (create_prev_kv req))
      (past @ filter (\<lambda>c. (if past = [] then 0 else kv_mod_revision (kv (last past))) < kv_mod_revision (kv c)) (enqueued acts))"
  using watch_run_conserves[of "watch_start r r' past i req" acts s s' ws] assms
  by (auto simp: watch_start_simps undelivered_def)

definition change :: "byte_array \<Rightarrow> i64 \<Rightarrow> byte_array \<Rightarrow> KeyValueWithPrev" where
  "change k r b = \<lparr>prev_kv = None, kv = \<lparr>kv_key = k, kv_value = b, kv_create_revision = 1,
     kv_mod_revision = r, kv_version = 1, kv_lease = 0\<rparr>\<rparr>"

definition watch_pods :: WatchCreateRequest where
  "watch_pods = \<lparr>create_key = pods, create_range_end = pods_end, create_start_revision = 1, create_prev_kv = False\<rparr>"

lemma watch_stream_delivers_witness:
  "\<exists>s' ws. watch_run [Enqueue (change key_a 4 [4]), Enqueue (change key_a 6 [9]), Poll 6 None, Enqueue (change key_b 7 [1])]
      (example_store, watch_start 5 5 [change key_a 3 [3], change key_a 4 [4]] 1 watch_pods) = (s', ws) \<and>
    yielded_events ws = map (watch_event False) [change key_a 3 [3], change key_a 4 [4], change key_a 6 [9]] \<and>
    ws_rx ws = [change key_b 7 [1]]"
proof -
  let ?acts = "[Enqueue (change key_a 4 [4]), Enqueue (change key_a 6 [9]), Poll 6 None, Enqueue (change key_b 7 [1])]"
  let ?ws0 = "watch_start 5 5 [change key_a 3 [3], change key_a 4 [4]] 1 watch_pods"
  obtain s' ws where run: "watch_run ?acts (example_store, ?ws0) = (s', ws)" by fastforce
  have rx: "ws_rx ws = [change key_b 7 [1]]" "max_event_stream_rev ws = 6"
    using run by (auto simp: watch_run_def watch_poll_def watch_start_def watch_deliver_def change_def Let_def)
  have "ascending (enqueued ?acts)" by (simp add: change_def)
  from watch_stream_delivers[OF this run] rx have "yielded_events ws @ map (watch_event False) [change key_b 7 [1]] =
      map (watch_event False) [change key_a 3 [3], change key_a 4 [4], change key_a 6 [9], change key_b 7 [1]]"
    by (simp add: change_def watch_pods_def)
  with run rx show ?thesis by auto
qed

text \<open>
  A write can be sent twice. Past changes are ordered by key, so their last one need not be the
  newest. A newer write that is among the past changes and also in the channel (it was made between
  the registration of the watcher and the reading of the past) is above the bound the stream uses,
  and the client gets it once in the past changes and once more as a live event.
\<close>

lemma watch_range_resends:
  assumes "ascending (enqueued acts)" "c \<in> set past" "c \<in> set (enqueued acts)"
    and "kv_mod_revision (kv (last past)) < kv_mod_revision (kv c)"
    and "watch_run acts (s, watch_start r r' past i req) = (s', ws)" "ws_rx ws = []"
  shows "\<exists>xs ys zs. yielded_events ws =
    xs @ watch_event (create_prev_kv req) c # ys @ watch_event (create_prev_kv req) c # zs"
proof -
  let ?e = "watch_event (create_prev_kv req)"
  let ?live = "filter (\<lambda>c. rev_of (last past) < rev_of c) (enqueued acts)"
  have "past \<noteq> []" using assms(2) by auto
  with watch_run_conserves[of "watch_start r r' past i req" acts s s' ws] assms(1,5,6)
  have "yielded_events ws = map ?e past @ map ?e ?live" by (simp add: watch_start_simps undelivered_def)
  moreover obtain a b where "past = a @ c # b" using assms(2) by (meson split_list)
  moreover have "c \<in> set ?live" using assms(3,4) by simp
  then obtain a' b' where "?live = a' @ c # b'" by (meson split_list)
  ultimately have "yielded_events ws = map ?e a @ ?e c # (map ?e b @ map ?e a') @ ?e c # map ?e b'" by simp
  then show ?thesis by blast
qed

lemma watch_range_resends_witness:
  "\<exists>s' ws xs ys zs. watch_run [Enqueue (change key_a 6 [9]), Poll 6 None]
      (example_store, watch_start 6 6 [change key_a 6 [9], change key_b 2 [2]] 1 watch_pods) = (s', ws) \<and>
    yielded_events ws = xs @ watch_event False (change key_a 6 [9]) # ys @ watch_event False (change key_a 6 [9]) # zs"
proof -
  let ?ws0 = "watch_start 6 6 [change key_a 6 [9], change key_b 2 [2]] 1 watch_pods"
  obtain s' ws where run: "watch_run [Enqueue (change key_a 6 [9]), Poll 6 None] (example_store, ?ws0) = (s', ws)" by fastforce
  have rx: "ws_rx ws = []"
    using run by (auto simp: watch_run_def watch_poll_def watch_start_def watch_deliver_def change_def Let_def)
  have "create_prev_kv watch_pods = False" by (simp add: watch_pods_def)
  with watch_range_resends[OF _ _ _ _ run rx, of "change key_a 6 [9]"] run show ?thesis
    by (auto simp: change_def)
qed

text \<open>
  Progress is a promise. When the stream answers a progress request, and the messages that enter
  its channel later are above the progress revision of the notification thread, then no event it
  sends afterwards has a revision up to the one it announced, and the announced revision is at least
  that progress revision.
\<close>

lemma watch_progress_holds:
  assumes "\<not> ws_returned ws" "ws_rx ws = []" "\<not> ws_rx_closed ws"
    and "\<forall>c\<in>set (enqueued acts). p < kv_mod_revision (kv c)"
    and "watch_run (Poll p (Some (Message (Some ProgressRequest))) # acts) (s, ws) = (s', ws')"
  shows "\<exists>R new. ws_yielded ws' = ws_yielded ws @ watch_response R (ws_watcher_id ws) [] # new \<and> p \<le> R \<and>
    (\<forall>resp\<in>set new. \<forall>e\<in>set (events resp). R < kv_mod_revision (event_kv e))"
proof -
  let ?R = "max p (max_event_stream_rev ws)"
  let ?ws1 = "yield_response ws (watch_response ?R (ws_watcher_id ws) [])"
  have run: "watch_run acts (s, ?ws1) = (s', ws')"
    using assms(1-3,5) by (simp add: watch_run_def watch_poll_def watch_client_def Let_def)
  from watch_run_above[of ?ws1 acts p "max_event_stream_rev ws", OF _ _ run] assms(2,4) show ?thesis
    by (auto intro!: exI[of _ ?R])
qed

lemma watch_progress_holds_witness:
  "\<exists>s' ws R new. watch_run [Poll 5 (Some (Message (Some ProgressRequest))), Enqueue (change key_a 6 [9]), Poll 6 None]
      (example_store, watch_start 5 5 [] 1 watch_pods) = (s', ws) \<and>
    ws_yielded ws = ws_yielded (watch_start 5 5 [] 1 watch_pods) @ watch_response R 1 [] # new \<and> 5 \<le> R \<and>
    (\<forall>resp\<in>set new. \<forall>e\<in>set (events resp). R < kv_mod_revision (event_kv e))"
proof -
  obtain s' ws where run: "watch_run [Poll 5 (Some (Message (Some ProgressRequest))), Enqueue (change key_a 6 [9]), Poll 6 None]
      (example_store, watch_start 5 5 [] 1 watch_pods) = (s', ws)" by fastforce
  have "ws_watcher_id (watch_start 5 5 [] 1 watch_pods) = 1" "\<not> ws_rx_closed (watch_start 5 5 [] 1 watch_pods)"
    by (simp_all add: watch_start_def Let_def)
  with watch_progress_holds[OF watch_start_simps(5,1) _ _ run] run show ?thesis by (simp add: change_def)
qed

text \<open>
  A stream that ends has removed its watcher, and only it. As long as the stream has not returned
  the store is untouched; once it has, whichever of the channel, the client or a cancellation ended
  it, the watcher is gone and no other watcher is affected.
\<close>

lemma watch_stream_unwatches:
  assumes "\<not> ws_returned ws" "watch_run acts (s, ws) = (s', ws')" "btree_wf (watchers s)"
  shows "if ws_returned ws'
    then s' = s\<lparr>watchers := watchers s'\<rparr> \<and> btree_get (watchers s') (ws_key ws, ws_watcher_id ws) = None \<and>
      (\<forall>x. x \<noteq> (ws_key ws, ws_watcher_id ws) \<longrightarrow> btree_get (watchers s') x = btree_get (watchers s) x)
    else s' = s"
  using watch_run_store[OF assms(1,2)] bt.lookup_remove[OF assms(3)]
  by (auto simp: store_unwatch_def)

lemma watch_stream_unwatches_witness:
  "\<exists>s' ws. watch_run [Poll 5 (Some (Message (Some (CancelRequest 2)))), Poll 5 (Some (Message (Some (CancelRequest 1))))]
      (example_store\<lparr>watchers := [((pods, 1), \<lparr>start_revision = 1, key_range_start = pods, key_range_end = pods_end, ch = 0\<rparr>)]\<rparr>,
       watch_start 5 5 [] 1 watch_pods) = (s', ws) \<and>
    ws_returned ws \<and> btree_get (watchers s') (pods, 1) = None"
proof -
  let ?s = "example_store\<lparr>watchers := [((pods, 1), \<lparr>start_revision = 1, key_range_start = pods, key_range_end = pods_end, ch = 0\<rparr>)]\<rparr>"
  let ?acts = "[Poll 5 (Some (Message (Some (CancelRequest 2)))), Poll 5 (Some (Message (Some (CancelRequest 1))))]"
  obtain s' ws where run: "watch_run ?acts (?s, watch_start 5 5 [] 1 watch_pods) = (s', ws)" by fastforce
  have "ws_returned ws" "btree_wf (watchers ?s)" "ws_key (watch_start 5 5 [] 1 watch_pods) = pods"
    "ws_watcher_id (watch_start 5 5 [] 1 watch_pods) = 1"
    using run by (auto simp: watch_run_def watch_poll_def watch_client_def watch_start_def watch_pods_def Let_def btree_wf_def)
  with watch_stream_unwatches[OF watch_start_simps(5) run] run show ?thesis by simp
qed

end
