(* ===== verification/Min_Heap.thy ===== *)
theory Min_Heap
  imports Etcd_Prelude "HOL-Library.Multiset"
begin

text \<open>
  \<open>std::collections::BinaryHeap\<close> with the reversed order that both of its uses define (the spool of
  the notification thread and the merge of the WAL files): \<open>pop\<close> removes an element of least
  revision. Only what the standard library documents is used; among equals the model takes the one
  pushed last, and no theorem depends on it. The locale \<open>min_queue\<close> is the contract.
\<close>

section \<open>Operations\<close>

definition heap_push :: "'a \<Rightarrow> 'a list \<Rightarrow> 'a list" where
  "heap_push x h = x # h"

fun heap_pop :: "('a \<Rightarrow> int) \<Rightarrow> 'a list \<Rightarrow> ('a \<times> 'a list) option" where
  "heap_pop f [] = None"
| "heap_pop f (x # h) =
     (case heap_pop f h of
        None \<Rightarrow> Some (x, [])
      | Some (y, h') \<Rightarrow> if f x \<le> f y then Some (x, h) else Some (y, x # h'))"

section \<open>The contract\<close>

locale min_queue =
  fixes push :: "'a \<Rightarrow> 'q \<Rightarrow> 'q"
    and pop :: "'q \<Rightarrow> ('a \<times> 'q) option"
    and elems :: "'q \<Rightarrow> 'a multiset"
    and key :: "'a \<Rightarrow> int"
  assumes push_elems: "elems (push x q) = add_mset x (elems q)"
    and pop_None: "pop q = None \<longleftrightarrow> elems q = {#}"
    and pop_elems: "pop q = Some (x, q') \<Longrightarrow> elems q = add_mset x (elems q')"
    and pop_least: "pop q = Some (x, q') \<Longrightarrow> y \<in># elems q' \<Longrightarrow> key x \<le> key y"
begin

lemma pop_member: "pop q = Some (x, q') \<Longrightarrow> x \<in># elems q"
  by (simp add: pop_elems)

lemma pop_size: "pop q = Some (x, q') \<Longrightarrow> size (elems q') < size (elems q)"
  by (simp add: pop_elems)

lemma pop_le: "pop q = Some (x, q') \<Longrightarrow> y \<in># elems q \<Longrightarrow> key x \<le> key y"
  using pop_elems[of q x q'] pop_least[of q x q' y] by auto

text \<open>The element popped is the one sought, when that is the only one of the least key.\<close>

lemma pop_found:
  assumes "y \<in># elems q" "\<forall>z\<in>#elems q. key y \<le> key z" "\<forall>z\<in>#elems q. key z = key y \<longrightarrow> z = y"
  obtains q' where "pop q = Some (y, q')"
proof (cases "pop q")
  case None
  with assms(1) pop_None show thesis by auto
next
  case (Some p)
  obtain x q' where p: "p = (x, q')" by fastforce
  have "key x \<le> key y" "key y \<le> key x" "x \<in># elems q"
    using Some p pop_le pop_member assms by blast+
  with assms(3) Some p that show thesis by force
qed

end

section \<open>The model meets the contract\<close>

lemma heap_pop_None: "heap_pop f h = None \<longleftrightarrow> h = []"
  by (cases h) (auto split: option.splits)

lemma heap_pop_Some:
  "heap_pop f h = Some (x, h') \<Longrightarrow> mset h = add_mset x (mset h') \<and> (\<forall>y\<in>set h'. f x \<le> f y)"
proof (induction h arbitrary: x h')
  case (Cons z h)
  show ?case
  proof (cases "heap_pop f h")
    case None
    with Cons.prems heap_pop_None[of f h] show ?thesis by simp
  next
    case (Some p)
    obtain y q where p: "p = (y, q)" by fastforce
    with Cons.IH[of y q] Some have "mset h = add_mset y (mset q)" "\<forall>w\<in>set q. f y \<le> f w" by auto
    moreover from this have "set h = insert y (set q)" by (metis set_mset_add_mset_insert set_mset_mset)
    ultimately show ?thesis using Cons.prems Some p by (auto split: if_splits)
  qed
qed simp

interpretation mh: min_queue heap_push "heap_pop f" mset f for f :: "'a \<Rightarrow> int"
  by unfold_locales (auto simp: heap_push_def heap_pop_None dest: heap_pop_Some)

end
