(* ===== verification/Wal_Manager.thy ===== *)
theory Wal_Manager
  imports Wal_Record Min_Heap
begin

text \<open>
  \<open>WalManager\<close>, \<open>PerPrefixWriter\<close> and \<open>load_wal_dir\<close> of \<open>src/wal.rs\<close>. The clock and the results of
  \<open>libc::write\<close> are inputs of \<open>write_locked\<close>: how many iterations the batching loop is given before
  its deadline, and what each call of \<open>write\<close> returned. \<open>notified\<close> lists the waiters that were
  woken. Opening a file succeeds. The directory is the list of its entries in the order \<open>read_dir\<close>
  gives them.
\<close>

section \<open>The manager\<close>

record PerPrefixWriter =
  wal_path :: string
  to_write :: "WalRecord list"
  pw_mode :: wal_mode

record WalManager =
  default_mode :: wal_mode
  prefix_modes_no_persist :: "byte_array set"
  writers :: "byte_array \<rightharpoonup> PerPrefixWriter"
  writers_with_work :: "byte_array list"
  notified :: "notify_ref list"

definition wal_manager_new :: "wal_mode \<Rightarrow> byte_array set \<Rightarrow> WalManager" where
  "wal_manager_new mode no_persist =
     \<lparr>default_mode = mode, prefix_modes_no_persist = no_persist, writers = Map.empty,
      writers_with_work = [], notified = []\<rparr>"

definition hex_digit :: "nat \<Rightarrow> char" where
  "hex_digit n = ''0123456789abcdef'' ! n"

definition hex2 :: "u8 \<Rightarrow> string" where
  "hex2 b = [hex_digit (unat b div 16), hex_digit (unat b mod 16)]"

definition file_name_for_prefix :: "byte_array \<Rightarrow> string" where
  "file_name_for_prefix prefix = ''prefix_'' @ concat (map hex2 prefix) @ ''.wal''"

definition open_for_prefix :: "byte_array \<Rightarrow> wal_mode \<Rightarrow> PerPrefixWriter" where
  "open_for_prefix prefix mode = \<lparr>wal_path = file_name_for_prefix prefix, to_write = [], pw_mode = mode\<rparr>"

definition notify_one :: "WalManager \<Rightarrow> notify_ref option \<Rightarrow> WalManager" where
  "notify_one m n = (case n of None \<Rightarrow> m | Some i \<Rightarrow> m\<lparr>notified := notified m @ [i]\<rparr>)"

definition wal_append ::
    "WalManager \<Rightarrow> byte_array \<Rightarrow> i64 \<Rightarrow> byte_array \<Rightarrow> byte_array option \<Rightarrow> notify_ref option \<Rightarrow> WalManager" where
  "wal_append m prefix r key value waiter =
     (if default_mode m = WalNone \<or> prefix \<in> prefix_modes_no_persist m then notify_one m waiter
      else let w = (case writers m prefix of Some w \<Rightarrow> w | None \<Rightarrow> open_for_prefix prefix (default_mode m));
               rec = \<lparr>wr_rev = r, wr_key = key, wr_value = value, written_notify = waiter\<rparr>
           in m\<lparr>writers := (writers m)(prefix \<mapsto> w\<lparr>to_write := to_write w @ [rec]\<rparr>),
                writers_with_work := writers_with_work m @ [prefix]\<rparr>)"

section \<open>Writing a batch\<close>

definition end_size :: usize where
  "end_size = 16384"

definition record_size :: "WalRecord \<Rightarrow> usize" where
  "record_size rec = length (wr_key rec) + (case wr_value rec of Some v \<Rightarrow> length v | None \<Rightarrow> 0) + 16"

fun batch :: "nat \<Rightarrow> usize \<Rightarrow> WalRecord list \<Rightarrow> byte_array \<Rightarrow> notify_ref list \<Rightarrow>
    byte_array \<times> notify_ref list \<times> WalRecord list" where
  "batch 0 current_size queue buffer notify_vec = (buffer, notify_vec, queue)"
| "batch (Suc ticks) current_size queue buffer notify_vec =
     (if current_size < end_size then
        (case queue of
           [] \<Rightarrow> (buffer, notify_vec, [])
         | rec # queue' \<Rightarrow>
             batch ticks (current_size + record_size rec) queue' (buffer @ encode_record rec)
               (case written_notify rec of Some n \<Rightarrow> notify_vec @ [n] | None \<Rightarrow> notify_vec))
      else (buffer, notify_vec, queue))"

datatype write_result = Wrote usize | Interrupted | Failed

text \<open>\<open>None\<close>: the calls of \<open>write\<close> so far did not finish the buffer.\<close>

fun write_loop :: "write_result list \<Rightarrow> byte_array \<Rightarrow> byte_array \<Rightarrow> (byte_array \<times> bool) option" where
  "write_loop rs [] file = Some (file, True)"
| "write_loop [] (b # bs) file = None"
| "write_loop (Interrupted # rs) (b # bs) file = write_loop rs (b # bs) file"
| "write_loop (Failed # rs) (b # bs) file = Some (file, False)"
| "write_loop (Wrote n # rs) (b # bs) file = write_loop rs (drop n (b # bs)) (file @ take n (b # bs))"

record write_outcome =
  wo_writer :: PerPrefixWriter
  wo_file :: byte_array
  wo_ok :: bool
  wo_synced :: bool
  wo_notified :: "notify_ref list"

definition write_locked ::
    "nat \<Rightarrow> write_result list \<Rightarrow> PerPrefixWriter \<Rightarrow> byte_array \<Rightarrow> write_outcome option" where
  "write_locked ticks rs w file =
     (case batch ticks 0 (to_write w) [] [] of
        (buffer, notify_vec, queue) \<Rightarrow>
          map_option (\<lambda>(file', ok).
            \<lparr>wo_writer = w\<lparr>to_write := queue\<rparr>, wo_file = file', wo_ok = ok,
             wo_synced = (ok \<and> pw_mode w = WalSync), wo_notified = notify_vec\<rparr>)
            (write_loop rs buffer file))"

section \<open>Loading the directory\<close>

definition extension :: "string \<Rightarrow> string option" where
  "extension name =
     (case dropWhile (\<lambda>c. c \<noteq> CHR ''.'') (rev name) of
        [] \<Rightarrow> None
      | _ # stem \<Rightarrow> if stem = [] then None else Some (rev (takeWhile (\<lambda>c. c \<noteq> CHR ''.'') (rev name))))"

type_synonym dir_entry = "string \<times> bool \<times> byte_array"
type_synonym wal_reader = "byte_array \<times> WalRecord option"

fun open_readers :: "dir_entry list \<Rightarrow> io_error + wal_reader list" where
  "open_readers [] = Inr []"
| "open_readers ((name, is_file, content) # es) =
     (if is_file \<and> extension name = Some ''wal'' then
        (case read_from content of
           Inl e \<Rightarrow> Inl e
         | Inr None \<Rightarrow> map_sum id (\<lambda>rs. ([], None) # rs) (open_readers es)
         | Inr (Some (rec, rest)) \<Rightarrow> map_sum id (\<lambda>rs. (rest, Some rec) # rs) (open_readers es))
      else open_readers es)"

text \<open>\<open>HeapItem\<close> is the pair of the reader's index and the revision of its next record.\<close>

fun init_heap :: "usize \<Rightarrow> wal_reader list \<Rightarrow> (usize \<times> i64) list" where
  "init_heap i [] = []"
| "init_heap i ((_, None) # rs) = init_heap (i + 1) rs"
| "init_heap i ((_, Some rec) # rs) = heap_push (i, wr_rev rec) (init_heap (i + 1) rs)"

lemma sum_list_update_less:
  fixes xs :: "nat list"
  shows "i < length xs \<Longrightarrow> v < xs ! i \<Longrightarrow> sum_list (xs[i := v]) < sum_list xs"
proof (induction xs arbitrary: i)
  case (Cons x xs)
  then show ?case by (cases i) auto
qed simp

function merge_loop ::
    "wal_reader list \<Rightarrow> (usize \<times> i64) list \<Rightarrow> WalRecord list \<Rightarrow> (WalRecord list \<times> (io_error + unit)) run" where
  "merge_loop readers heap entries =
     (case heap_pop snd heap of
        None \<Rightarrow> Returns (entries, Inr ())
      | Some ((idx, _), heap') \<Rightarrow>
          if length readers \<le> idx then Panics
          else case readers ! idx of
              (reader, None) \<Rightarrow> merge_loop readers heap' entries
            | (reader, Some rec) \<Rightarrow>
                (case read_from reader of
                   Inl e \<Rightarrow> Returns (entries @ [rec], Inl e)
                 | Inr None \<Rightarrow> merge_loop (readers[idx := (reader, None)]) heap' (entries @ [rec])
                 | Inr (Some (next, rest)) \<Rightarrow>
                     merge_loop (readers[idx := (rest, Some next)])
                       (heap_push (idx, wr_rev next) heap') (entries @ [rec])))"
  by pat_completeness auto
termination
proof (relation "measures [\<lambda>(rs, _, _). sum_list (map (length \<circ> fst) rs), \<lambda>(_, h, _). length h]",
    goal_cases)
  case (2 readers heap entries a b heap' idx)
  then have "length heap' < length heap" using mh.pop_size[of snd heap b heap'] by simp
  then show ?case by simp
next
  case (3 readers heap entries a b heap' idx)
  then have "length heap' < length heap" using mh.pop_size[of snd heap b heap'] by simp
  moreover have "map (length \<circ> fst) (readers[idx := (fst (readers ! idx), None)]) = map (length \<circ> fst) readers"
    using 3 by (intro nth_equalityI) (auto simp: nth_list_update)
  moreover have "fst (readers ! idx) = reader" if "(reader, r) = readers ! idx" for reader :: byte_array and r
    using that by (metis fst_conv)
  ultimately show ?case using 3 by auto
next
  case (4 readers heap entries a b heap' idx rv reader r rec n p nxt rest)
  have "length rest < length reader" using 4 read_from_shorter by blast
  moreover have "fst (readers ! idx) = reader" "idx < length readers" using 4 by (metis fst_conv, simp)
  ultimately show ?case
    using sum_list_update_less[of idx "map (length \<circ> fst) readers" "length rest"]
    by (simp add: map_update)
qed simp

declare merge_loop.simps [simp del]

text \<open>The records handed to \<open>on_entry\<close>, in order, and the result.\<close>

definition load_wal_dir :: "dir_entry list \<Rightarrow> (WalRecord list \<times> (io_error + unit)) run" where
  "load_wal_dir entries =
     (case open_readers entries of
        Inl e \<Rightarrow> Returns ([], Inl e)
      | Inr readers \<Rightarrow> merge_loop readers (init_heap 0 readers) [])"

section \<open>Lemmas on writing\<close>

definition waiters :: "WalRecord list \<Rightarrow> notify_ref list" where
  "waiters recs = List.map_filter written_notify recs"

lemma batch_takes:
  "\<exists>k. batch ticks sz queue buffer ns =
     (buffer @ concat (map encode_record (take k queue)), ns @ waiters (take k queue), drop k queue)"
proof (induction ticks sz queue buffer ns rule: batch.induct)
  case (1 sz queue buffer ns)
  show ?case by (intro exI[of _ 0]) (simp add: waiters_def List.map_filter_def)
next
  case (2 ticks sz queue buffer ns)
  show ?case
  proof (cases "sz < end_size \<and> queue \<noteq> []")
    case True
    then obtain rec queue' where q: "queue = rec # queue'" by (cases queue) auto
    from 2[OF _ q] True obtain k where
      "batch ticks (sz + record_size rec) queue' (buffer @ encode_record rec)
         (case written_notify rec of Some n \<Rightarrow> ns @ [n] | None \<Rightarrow> ns) =
       ((buffer @ encode_record rec) @ concat (map encode_record (take k queue')),
        (case written_notify rec of Some n \<Rightarrow> ns @ [n] | None \<Rightarrow> ns) @ waiters (take k queue'), drop k queue')"
      by blast
    with True q show ?thesis
      by (intro exI[of _ "Suc k"]) (auto simp: waiters_def List.map_filter_def split: option.splits)
  next
    case False
    then show ?thesis
      by (intro exI[of _ 0]) (auto simp: waiters_def List.map_filter_def split: list.splits)
  qed
qed

lemma write_loop_prefix:
  "write_loop rs buffer file = Some (file', ok) \<Longrightarrow>
     (\<exists>n. file' = file @ take n buffer) \<and> (ok \<longrightarrow> file' = file @ buffer)"
proof (induction rs buffer "file" rule: write_loop.induct)
  case (5 n rs b bs fl)
  then obtain k where k: "file' = (fl @ take n (b # bs)) @ take k (drop n (b # bs))"
    "ok \<longrightarrow> file' = (fl @ take n (b # bs)) @ drop n (b # bs)" by auto
  have "take n (b # bs) @ take k (drop n (b # bs)) = take (n + k) (b # bs)" by (rule take_add[symmetric])
  moreover have "take n (b # bs) @ drop n (b # bs) = b # bs" by (rule append_take_drop_id)
  ultimately show ?case using k by (metis append.assoc)
qed auto

fun progress :: "write_result \<Rightarrow> bool" where
  "progress (Wrote n) = (0 < n)"
| "progress Interrupted = False"
| "progress Failed = False"

lemma write_loop_returns:
  "Failed \<notin> set rs \<Longrightarrow> length buffer \<le> length (filter progress rs) \<Longrightarrow>
     write_loop rs buffer file = Some (file @ buffer, True)"
proof (induction rs buffer "file" rule: write_loop.induct)
  case (5 n rs b bs fl)
  show ?case
  proof (cases n)
    case 0
    with 5 show ?thesis by simp
  next
    case (Suc m)
    with 5 have "length (drop n (b # bs)) \<le> length (filter progress rs)" by simp
    with 5 show ?thesis by (simp add: append_take_drop_id del: drop_Suc_Cons take_Suc_Cons)
  qed
qed auto

lemma hex_digit_inj: "m < 16 \<Longrightarrow> n < 16 \<Longrightarrow> hex_digit m = hex_digit n \<Longrightarrow> m = n"
  unfolding hex_digit_def by (rule nth_eq_iff_index_eq[THEN iffD1, of "''0123456789abcdef''"]) simp_all

lemma hex2_inj: "hex2 a = hex2 b \<Longrightarrow> a = b"
proof -
  assume h: "hex2 a = hex2 b"
  have "unat a < 256" "unat b < 256" using unsigned_less[of a] unsigned_less[of b] by (simp_all add: unat_arith_simps)
  then have "unat a div 16 < 16" "unat b div 16 < 16" by simp_all
  with h have "unat a div 16 = unat b div 16" "unat a mod 16 = unat b mod 16"
    by (auto simp: hex2_def intro: hex_digit_inj)
  then have "unat a = unat b" by (metis div_mult_mod_eq)
  then show "a = b" by (rule unsigned_word_eqI)
qed

lemma hex_inj: "concat (map hex2 p) = concat (map hex2 q) \<Longrightarrow> p = q"
proof (induction p arbitrary: q)
  case Nil
  then show ?case by (cases q) (auto simp: hex2_def)
next
  case (Cons a p)
  obtain b q' where q: "q = b # q'" using Cons.prems by (cases q) (auto simp: hex2_def)
  have "length (hex2 a) = length (hex2 b)" by (simp add: hex2_def)
  with Cons.prems q have "hex2 a = hex2 b" "concat (map hex2 p) = concat (map hex2 q')" by auto
  with Cons.IH hex2_inj q show ?case by auto
qed

lemma extension_wal: "name \<noteq> [] \<Longrightarrow> extension (name @ ''.wal'') = Some ''wal''"
  by (simp add: extension_def)

section \<open>Lemmas on the merge\<close>

text \<open>The records a reader still has to deliver, and when it will reach the end of its file.\<close>

definition pending :: "wal_reader \<Rightarrow> WalRecord list" where
  "pending r = (case snd r of None \<Rightarrow> [] | Some rec \<Rightarrow> rec # fst (read_all (fst r)))"

lemma pending_simps [simp]:
  "pending (bs, None) = []" "pending (bs, Some rec) = rec # fst (read_all bs)"
  by (simp_all add: pending_def)

definition reader_ok :: "wal_reader \<Rightarrow> bool" where
  "reader_ok r \<longleftrightarrow> (snd r \<noteq> None \<longrightarrow> snd (read_all (fst r)) = Inr ()) \<and> sorted (map wr_rev (pending r))"

definition heap_ok :: "wal_reader list \<Rightarrow> (usize \<times> i64) list \<Rightarrow> bool" where
  "heap_ok rs heap \<longleftrightarrow>
     distinct heap \<and>
     set heap = {(i, wr_rev rec) | i rec. i < length rs \<and> snd (rs ! i) = Some rec}"

lemma heap_ok_pop:
  assumes "heap_ok rs heap" "heap_pop snd heap = Some (x, heap')"
  shows "distinct heap'" "set heap' = set heap - {x}" "x \<in> set heap" "\<forall>y\<in>set heap. snd x \<le> snd y"
proof -
  have m: "mset heap = add_mset x (mset heap')" using mh.pop_elems[OF assms(2)] .
  have d: "distinct heap" using assms(1) by (simp add: heap_ok_def)
  have "mset heap = mset (x # heap')" using m by simp
  then have "distinct (x # heap')" "set heap = set (x # heap')"
    using d mset_eq_imp_distinct_iff mset_eq_setD by blast+
  then show "distinct heap'" "set heap' = set heap - {x}" "x \<in> set heap" by auto
  show "\<forall>y\<in>set heap. snd x \<le> snd y" using mh.pop_le[OF assms(2)] by auto
qed

lemma mset_concat_update:
  "i < length xss \<Longrightarrow> xss ! i = x # ys \<Longrightarrow> mset (concat xss) = add_mset x (mset (concat (xss[i := ys])))"
proof (induction xss arbitrary: i)
  case (Cons xs xss)
  then show ?case by (cases i) auto
qed simp

lemma pending_read:
  assumes "read_from reader = Inr nxt" "snd (read_all reader) = Inr ()"
  shows "pending (case nxt of None \<Rightarrow> (reader, None) | Some (rec, rest) \<Rightarrow> (rest, Some rec)) = fst (read_all reader)"
    and "snd (case nxt of None \<Rightarrow> (reader, None) | Some (rec, rest) \<Rightarrow> (rest, Some rec)) \<noteq> None \<Longrightarrow>
      snd (read_all (fst (case nxt of None \<Rightarrow> (reader, None) | Some (rec, rest) \<Rightarrow> (rest, Some rec)))) = Inr ()"
  using assms read_all.simps[of reader]
  by (auto simp: pending_def split: option.splits prod.splits)

text \<open>One round: the reader at the least revision gives its record and advances.\<close>

lemma heap_ok_advance:
  assumes h: "heap_ok rs heap" and p: "heap_pop snd heap = Some ((idx, rv), heap')"
    and i: "idx < length rs"
  shows "heap_ok (rs[idx := (reader, None)]) heap'"
    and "heap_ok (rs[idx := (rest, Some rec)]) (heap_push (idx, wr_rev rec) heap')"
proof -
  note d = heap_ok_pop[OF h p]
  have set: "set heap = {(i, wr_rev rec) | i rec. i < length rs \<and> snd (rs ! i) = Some rec}"
    using h by (simp add: heap_ok_def)
  have "set heap' = {(i, wr_rev rec) | i rec. i < length rs \<and> i \<noteq> idx \<and> snd (rs ! i) = Some rec}"
    using d(2,3) unfolding set by auto
  then show "heap_ok (rs[idx := (reader, None)]) heap'"
    and "heap_ok (rs[idx := (rest, Some rec)]) (heap_push (idx, wr_rev rec) heap')"
    using d(1) i by (auto simp: heap_ok_def heap_push_def nth_list_update)
qed

lemma least_pending:
  assumes ok: "\<forall>r\<in>set rs. reader_ok r" and h: "heap_ok rs heap"
    and p: "heap_pop snd heap = Some ((idx, rv), heap')" and x: "x \<in> set (concat (map pending rs))"
  shows "rv \<le> wr_rev x"
proof -
  from x obtain r where "r \<in> set rs" "x \<in> set (pending r)" by auto
  then obtain i where i: "i < length rs" "x \<in> set (pending (rs ! i))" by (metis in_set_conv_nth)
  then obtain rec where rec: "snd (rs ! i) = Some rec" "pending (rs ! i) = rec # fst (read_all (fst (rs ! i)))"
    using i(2) by (cases "snd (rs ! i)") (auto simp: pending_def)
  then have "(i, wr_rev rec) \<in> set heap" using h i(1) by (auto simp: heap_ok_def)
  then have "rv \<le> wr_rev rec" using heap_ok_pop(4)[OF h p] by fastforce
  moreover have "sorted (map wr_rev (pending (rs ! i)))" using ok i(1) by (simp add: reader_ok_def)
  then have "wr_rev rec \<le> wr_rev x" using i(2) rec(2) by auto
  ultimately show ?thesis by simp
qed

lemma nothing_pending:
  assumes "heap_ok rs []"
  shows "concat (map pending rs) = []"
proof -
  have "snd (rs ! i) = None" if "i < length rs" for i
    using assms that by (cases "snd (rs ! i)") (auto simp: heap_ok_def)
  then have "pending r = []" if "r \<in> set rs" for r
    using that by (metis in_set_conv_nth option.simps(4) pending_def)
  then show ?thesis by simp
qed

text \<open>One turn of the loop: the reader that is popped gives its record and reads the one after it.\<close>

definition after_read :: "byte_array \<Rightarrow> (WalRecord \<times> byte_array) option \<Rightarrow> wal_reader" where
  "after_read reader nxt = (case nxt of None \<Rightarrow> (reader, None) | Some (rec, rest) \<Rightarrow> (rest, Some rec))"

definition heap_after :: "usize \<Rightarrow> (WalRecord \<times> byte_array) option \<Rightarrow> (usize \<times> i64) list \<Rightarrow> (usize \<times> i64) list" where
  "heap_after idx nxt heap = (case nxt of None \<Rightarrow> heap | Some (rec, rest) \<Rightarrow> heap_push (idx, wr_rev rec) heap)"

lemma merge_turn:
  assumes ok: "\<forall>r\<in>set rs. reader_ok r" and h: "heap_ok rs heap" and pop: "heap_pop snd heap = Some ((idx, rv), heap')"
  obtains reader rec nxt where "idx < length rs" "rs ! idx = (reader, Some rec)" "rv = wr_rev rec" "read_from reader = Inr nxt"
    "\<forall>r\<in>set (rs[idx := after_read reader nxt]). reader_ok r"
    "heap_ok (rs[idx := after_read reader nxt]) (heap_after idx nxt heap')"
    "mset (concat (map pending rs)) = add_mset rec (mset (concat (map pending (rs[idx := after_read reader nxt]))))"
proof -
  obtain rec where rec: "idx < length rs" "snd (rs ! idx) = Some rec" "rv = wr_rev rec"
    using heap_ok_pop(3)[OF h pop] h by (auto simp: heap_ok_def)
  obtain reader where rd: "rs ! idx = (reader, Some rec)" using rec(2) by (metis prod.collapse)
  have okr: "reader_ok (reader, Some rec)" using ok rec(1) rd by (metis nth_mem)
  then have clean: "snd (read_all reader) = Inr ()" by (simp add: reader_ok_def)
  obtain nxt where nxt: "read_from reader = Inr nxt"
    using clean read_all.simps[of reader] by (cases "read_from reader") auto
  let ?r = "after_read reader nxt"
  note pr = pending_read[OF nxt clean, folded after_read_def]
  have "reader_ok ?r" using okr pr by (auto simp: reader_ok_def pending_def[of "(reader, Some rec)"])
  then have "\<forall>r\<in>set (rs[idx := ?r]). reader_ok r" using ok set_update_subset_insert[of rs idx ?r] by blast
  moreover have "heap_ok (rs[idx := ?r]) (heap_after idx nxt heap')"
    using heap_ok_advance[OF h pop rec(1)] by (auto simp: after_read_def heap_after_def split: option.splits)
  moreover have "mset (concat (map pending rs)) = add_mset rec (mset (concat ((map pending rs)[idx := pending ?r])))"
    by (rule mset_concat_update) (use rec(1) rd pr(1) in \<open>simp_all add: pending_def[of "(reader, Some rec)"]\<close>)
  ultimately show thesis using that[OF rec(1) rd rec(3) nxt] by (simp add: map_update)
qed

lemma merge_loop_merges:
  assumes "\<forall>r\<in>set readers. reader_ok r" "heap_ok readers heap"
  shows "\<exists>L. merge_loop readers heap entries = Returns (entries @ L, Inr ()) \<and>
    mset L = mset (concat (map pending readers)) \<and> sorted (map wr_rev L)"
  using assms
proof (induction readers heap entries rule: merge_loop.induct)
  case (1 readers heap entries)
  show ?case
  proof (cases "heap_pop snd heap")
    case None
    then have "concat (map pending readers) = []" using "1.prems"(2) by (intro nothing_pending) (simp add: heap_pop_None)
    with None show ?thesis by (simp add: merge_loop.simps[of readers heap])
  next
    case (Some p)
    obtain idx rv heap' where p: "p = ((idx, rv), heap')" by (metis prod_cases3 surj_pair)
    note pop = Some[unfolded p]
    obtain reader rec nxt where t: "idx < length readers" "readers ! idx = (reader, Some rec)" "rv = wr_rev rec"
      "read_from reader = Inr nxt" "\<forall>r\<in>set (readers[idx := after_read reader nxt]). reader_ok r"
      "heap_ok (readers[idx := after_read reader nxt]) (heap_after idx nxt heap')"
      and all: "mset (concat (map pending readers)) =
        add_mset rec (mset (concat (map pending (readers[idx := after_read reader nxt]))))"
      by (rule merge_turn[OF "1.prems" pop])
    have "\<exists>L. merge_loop readers heap entries = Returns ((entries @ [rec]) @ L, Inr ()) \<and>
        mset L = mset (concat (map pending (readers[idx := after_read reader nxt]))) \<and> sorted (map wr_rev L)"
    proof (cases nxt)
      case None
      with "1.IH"(2)[OF pop refl refl _ t(2)[symmetric] refl t(4)] t pop show ?thesis
        by (simp add: after_read_def heap_after_def merge_loop.simps[of readers heap])
    next
      case (Some q)
      obtain rec2 rest where q: "q = (rec2, rest)" by fastforce
      with "1.IH"(3)[OF pop refl refl _ t(2)[symmetric] refl t(4) Some q[symmetric]] t pop Some show ?thesis
        by (simp add: after_read_def heap_after_def merge_loop.simps[of readers heap])
    qed
    then obtain L where L: "merge_loop readers heap entries = Returns (entries @ rec # L, Inr ())"
      "mset (concat (map pending readers)) = mset (rec # L)" "sorted (map wr_rev L)"
      using all by auto
    then have "\<forall>x\<in>set L. wr_rev rec \<le> wr_rev x"
      using least_pending[OF "1.prems" pop] t(3) by (metis list.set_intros(2) set_mset_mset)
    with L show ?thesis by (intro exI[of _ "rec # L"]) simp
  qed
qed

section \<open>Lemmas on opening the files\<close>

text \<open>The directory after the records \<open>recs\<close> of each prefix were written: one file per prefix.\<close>

definition dir_of :: "(byte_array \<times> WalRecord list) list \<Rightarrow> dir_entry list" where
  "dir_of logs = map (\<lambda>(p, recs). (file_name_for_prefix p, True, concat (map encode_record recs))) logs"

lemma extension_file_name: "extension (file_name_for_prefix p) = Some ''wal''"
  using extension_wal[of "''prefix_'' @ concat (map hex2 p)"] by (simp add: file_name_for_prefix_def)

lemma open_readers_dir:
  assumes "\<forall>(p, recs)\<in>set logs. (\<forall>rec\<in>set recs. encodable rec) \<and> sorted (map wr_rev recs)"
  shows "\<exists>rs. open_readers (dir_of logs) = Inr rs \<and> (\<forall>r\<in>set rs. reader_ok r) \<and>
    map pending rs = map (\<lambda>(p, recs). map stored recs) logs"
  using assms
proof (induction logs)
  case (Cons l logs)
  obtain p recs where l: "l = (p, recs)" by fastforce
  from Cons obtain rs where rs: "open_readers (dir_of logs) = Inr rs" "\<forall>r\<in>set rs. reader_ok r"
    "map pending rs = map (\<lambda>(p, recs). map stored recs) logs" by auto
  have srt: "sorted (map wr_rev (map stored recs))"
    using Cons.prems by (simp add: l stored_def comp_def)
  show ?case
  proof (cases recs)
    case Nil
    with rs show ?thesis
      by (simp add: l dir_of_def extension_file_name read_from_def read_exact_def reader_ok_def)
  next
    case (Cons rec recs')
    with Cons.prems have e: "encodable rec" "\<forall>rec\<in>set recs'. encodable rec" by (auto simp: l)
    have "read_all (concat (map encode_record recs')) = (map stored recs', Inr ())"
      using read_all_encoded[OF e(2), of "[]"] by (simp add: read_all_empty)
    with rs srt Cons read_encode[OF e(1)] show ?thesis
      by (simp add: l dir_of_def extension_file_name reader_ok_def)
  qed
qed (simp add: dir_of_def)

lemma set_init_heap:
  "x \<in> set (init_heap n rs) \<longleftrightarrow>
     (\<exists>i<length rs. \<exists>rec. snd (rs ! i) = Some rec \<and> x = (n + i, wr_rev rec))"
  by (induction n rs rule: init_heap.induct) (simp_all add: Ex_less_Suc2 heap_push_def)

lemma init_heap_ok: "heap_ok rs (init_heap 0 rs)"
proof -
  have "distinct (init_heap n rs)" for n
    by (induction n rs rule: init_heap.induct) (auto simp: heap_push_def set_init_heap)
  moreover have "set (init_heap 0 rs) = {(i, wr_rev rec) | i rec. i < length rs \<and> snd (rs ! i) = Some rec}"
    by (intro set_eqI) (auto simp: set_init_heap)
  ultimately show ?thesis by (simp add: heap_ok_def)
qed

lemma load_dir_sorted:
  assumes "\<forall>(p, recs)\<in>set logs. (\<forall>rec\<in>set recs. encodable rec) \<and> sorted (map wr_rev recs)"
  shows "\<exists>L. load_wal_dir (dir_of logs) = Returns (L, Inr ()) \<and>
    mset L = mset (map stored (concat (map snd logs))) \<and> sorted (map wr_rev L)"
proof -
  from open_readers_dir[OF assms] obtain rs where rs: "open_readers (dir_of logs) = Inr rs"
    "\<forall>r\<in>set rs. reader_ok r" "map pending rs = map (\<lambda>(p, recs). map stored recs) logs" by blast
  have "concat (map pending rs) = map stored (concat (map snd logs))"
    unfolding rs(3) by (simp add: map_concat comp_def split_def)
  with merge_loop_merges[OF rs(2) init_heap_ok, of "[]"] rs(1) show ?thesis
    by (simp add: load_wal_dir_def)
qed

section \<open>Properties\<close>

text \<open>
  Loading the log directory. Whatever the order in which the directory lists the files, if each
  holds records in revision order then the loader delivers all the records of all the files, each
  once, in revision order, and ends without error.
\<close>

lemma load_wal_dir_merges:
  assumes "\<forall>(p, recs)\<in>set logs. (\<forall>rec\<in>set recs. encodable rec) \<and> sorted (map wr_rev recs)"
  shows "\<exists>L. load_wal_dir (dir_of logs) = Returns (L, Inr ()) \<and>
    mset L = mset (map stored (concat (map snd logs))) \<and> sorted (map wr_rev L)"
  by (rule load_dir_sorted[OF assms])

definition example_logs :: "(byte_array \<times> WalRecord list) list" where
  "example_logs =
     [([47], [\<lparr>wr_rev = 1, wr_key = [97], wr_value = Some [1], written_notify = None\<rparr>,
              \<lparr>wr_rev = 4, wr_key = [97], wr_value = None, written_notify = None\<rparr>]),
      ([48], [\<lparr>wr_rev = 2, wr_key = [98], wr_value = Some [2], written_notify = Some 0\<rparr>])]"

lemma load_wal_dir_merges_witness:
  "\<exists>L. load_wal_dir (dir_of example_logs) = Returns (L, Inr ()) \<and>
    mset L = mset (map stored (concat (map snd example_logs))) \<and> sorted (map wr_rev L)"
  by (rule load_wal_dir_merges) (simp add: example_logs_def encodable_def DELETE_MARKER_def)

text \<open>
  C33: what a batch does. A call of \<open>write_locked\<close> that ends has taken a prefix of the queue and left
  the rest; the file is extended by the encoding of the taken records, or by a part of it when
  \<open>write\<close> failed. All waiters of the taken records are woken in both cases, so a waiter cannot
  tell a failed write from a durable one; \<open>fsync\<close> is called only after a complete write.
\<close>

theorem write_locked_outcome:
  assumes "write_locked ticks rs w fl = Some out"
  shows "\<exists>k n. let taken = take k (to_write w); bytes = concat (map encode_record taken) in
    to_write (wo_writer out) = drop k (to_write w) \<and>
    wo_file out = fl @ take n bytes \<and> (wo_ok out \<longrightarrow> wo_file out = fl @ bytes) \<and>
    wo_notified out = waiters taken \<and> wo_synced out = (wo_ok out \<and> pw_mode w = WalSync)"
proof -
  from batch_takes[of ticks 0 "to_write w" "[]" "[]"] obtain k where
    k: "batch ticks 0 (to_write w) [] [] =
      (concat (map encode_record (take k (to_write w))), waiters (take k (to_write w)), drop k (to_write w))"
    by auto
  with assms obtain file' ok where l: "write_loop rs (concat (map encode_record (take k (to_write w)))) fl = Some (file', ok)"
    and out: "out = \<lparr>wo_writer = w\<lparr>to_write := drop k (to_write w)\<rparr>, wo_file = file', wo_ok = ok,
             wo_synced = (ok \<and> pw_mode w = WalSync), wo_notified = waiters (take k (to_write w))\<rparr>"
    by (auto simp: write_locked_def)
  from write_loop_prefix[OF l] obtain n where
    "file' = fl @ take n (concat (map encode_record (take k (to_write w))))"
    "ok \<longrightarrow> file' = fl @ concat (map encode_record (take k (to_write w)))" by blast
  then show ?thesis unfolding Let_def out by (intro exI[of _ k] exI[of _ n]) simp
qed

definition example_writer :: PerPrefixWriter where
  "example_writer = \<lparr>wal_path = ''prefix_2f.wal'', to_write =
     [\<lparr>wr_rev = 1, wr_key = [97], wr_value = Some [1], written_notify = Some 5\<rparr>,
      \<lparr>wr_rev = 4, wr_key = [97], wr_value = None, written_notify = Some 6\<rparr>], pw_mode = WalSync\<rparr>"

theorem write_locked_outcome_witness:
  "\<exists>out k n. write_locked 2 [Failed] example_writer [7] = Some out \<and> \<not> wo_ok out \<and>
    wo_notified out = [5, 6] \<and> wo_notified out = waiters (take k (to_write example_writer)) \<and>
    wo_file out = [7] @ take n (concat (map encode_record (take k (to_write example_writer)))) \<and>
    wo_file out = [7] \<and> to_write (wo_writer out) = []"
proof -
  have ne: "encode_record rec @ bs \<noteq> []" for rec bs
    using length_encode_header[of rec] by (auto simp: encode_record_def simp del: length_encode_header)
  have failed: "write_loop [Failed] (encode_record rec @ bs) fl = Some (fl, False)" for rec bs fl
    using ne[of rec bs] by (cases "encode_record rec @ bs") simp_all
  have "\<exists>out. write_locked 2 [Failed] example_writer [7] = Some out \<and> \<not> wo_ok out \<and>
      wo_notified out = [5, 6] \<and> wo_file out = [7] \<and> to_write (wo_writer out) = []"
    by (simp add: write_locked_def numeral_2_eq_2 example_writer_def end_size_def record_size_def failed)
  then obtain out where o: "write_locked 2 [Failed] example_writer [7] = Some out" "\<not> wo_ok out"
      "wo_notified out = [5, 6]" "wo_file out = [7]" "to_write (wo_writer out) = []" by blast
  from write_locked_outcome[OF o(1)] o show ?thesis by (auto simp: Let_def)
qed

text \<open>
  C38: a batch is written. If no call of \<open>write\<close> fails and enough of them make progress, one per byte
  at worst, \<open>write_locked\<close> returns with success, however often it was interrupted or wrote a part.
\<close>

theorem write_locked_returns:
  assumes "Failed \<notin> set rs"
    and "length (concat (map encode_record (to_write w))) \<le> length (filter progress rs)"
  shows "\<exists>out k. write_locked ticks rs w fl = Some out \<and> wo_ok out \<and>
    wo_file out = fl @ concat (map encode_record (take k (to_write w))) \<and>
    to_write (wo_writer out) = drop k (to_write w)"
proof -
  from batch_takes[of ticks 0 "to_write w" "[]" "[]"] obtain k where
    k: "batch ticks 0 (to_write w) [] [] =
      (concat (map encode_record (take k (to_write w))), waiters (take k (to_write w)), drop k (to_write w))"
    by auto
  have "length (concat (map encode_record (to_write w))) =
      length (concat (map encode_record (take k (to_write w)))) + length (concat (map encode_record (drop k (to_write w))))"
    by (metis append_take_drop_id concat_append length_append map_append)
  then have "length (concat (map encode_record (take k (to_write w)))) \<le> length (filter progress rs)"
    using assms(2) by linarith
  from write_loop_returns[OF assms(1) this, of fl] k show ?thesis
    by (auto simp: write_locked_def)
qed

theorem write_locked_returns_witness:
  "\<exists>out k. write_locked 1 (Interrupted # replicate 40 (Wrote 1)) example_writer [7] = Some out \<and> wo_ok out \<and>
    wo_file out = [7] @ concat (map encode_record (take k (to_write example_writer))) \<and>
    to_write (wo_writer out) = drop k (to_write example_writer)"
  by (rule write_locked_returns) (simp_all add: example_writer_def encode_record_def)

text \<open>
  C28: \<open>append\<close>. A record of a persisted prefix is queued behind the earlier records of that prefix
  only, the writer is announced, and nobody is woken yet; with the log off, or a prefix that is not
  persisted, nothing is queued and the waiter is woken at once, so that it does not hang.
\<close>

lemma wal_append_cases:
  "let m' = wal_append m p r k v n;
       queue = (\<lambda>m q. case writers m q of None \<Rightarrow> [] | Some w \<Rightarrow> to_write w)
   in if default_mode m = WalNone \<or> p \<in> prefix_modes_no_persist m
      then writers m' = writers m \<and> writers_with_work m' = writers_with_work m \<and>
        notified m' = notified m @ (case n of None \<Rightarrow> [] | Some i \<Rightarrow> [i])
      else queue m' = (queue m)(p := queue m p @ [\<lparr>wr_rev = r, wr_key = k, wr_value = v, written_notify = n\<rparr>]) \<and>
        writers_with_work m' = writers_with_work m @ [p] \<and> notified m' = notified m"
  by (auto simp: wal_append_def notify_one_def Let_def open_for_prefix_def fun_eq_iff split: option.splits)

text \<open>
  Prefixes do not share a file: the hexadecimal file names of two prefixes are equal only for
  equal prefixes, and every such name has the extension the loader looks for.
\<close>

lemma file_name_for_prefix_inj:
  "(file_name_for_prefix p = file_name_for_prefix q \<longleftrightarrow> p = q) \<and>
   extension (file_name_for_prefix p) = Some ''wal''"
  using hex_inj[of p q] extension_file_name[of p] by (auto simp: file_name_for_prefix_def)

end
