(* ===== verification/Notify_Thread.thy ===== *)
theory Notify_Thread
  imports Store_Watch Wal_Manager
begin

text \<open>
  The thread of \<open>Store::setup_notify_thread\<close> (\<open>src/store.rs\<close>). Jobs may arrive out of order, since
  concurrent writers take their revision before they send; the thread spools a job until its turn,
  appends it to the WAL and hands it to the channels of the watchers. \<open>notify_env\<close> holds what it
  acts on: the bounded channels and the WAL manager. The lemmas show that the effects happen in
  revision order for every order of arrival.
\<close>

section \<open>Operations\<close>

record channel =
  buffered :: "KeyValueWithPrev list"
  receiver_dropped :: bool

record notify_env =
  channels :: "channel_ref \<Rightarrow> channel"
  nt_wal :: "WalManager option"

record notify_state =
  next_rev :: i64
  job_spool :: "NotifyJob list"
  nt_env :: notify_env
  rev_written :: i64

text \<open>\<open>try_send\<close>: a closed channel is skipped, and a full one loses the message.\<close>

definition try_send :: "KeyValueWithPrev \<Rightarrow> channel \<Rightarrow> channel" where
  "try_send msg c =
     (if receiver_dropped c then c
      else if length (buffered c) < WATCH_CHANNEL_SIZE then c\<lparr>buffered := buffered c @ [msg]\<rparr>
      else c)"

definition do_send :: "NotifyJob \<Rightarrow> notify_env \<Rightarrow> notify_env" where
  "do_send job env =
     (let msg = job_msg job;
          v = (if kv_version (kv msg) = 0 then None else Some (kv_value (kv msg)));
          env1 = (case nt_wal env of
                    None \<Rightarrow> env
                  | Some wal \<Rightarrow> env\<lparr>nt_wal :=
                      Some (wal_append wal (prefix_str job) (job_rev job) (kv_key (kv msg)) v (wal_handled job))\<rparr>)
      in if length (job_watchers job) = 0 then env1
         else env1\<lparr>channels :=
           fold (\<lambda>c chs. chs(c := try_send msg (chs c))) (job_watchers job) (channels env1)\<rparr>)"

definition notify_init :: "notify_env \<Rightarrow> notify_state" where
  "notify_init env = \<lparr>next_rev = 1, job_spool = [], nt_env = env, rev_written = 0\<rparr>"

text \<open>The inner loop: send spooled jobs while the least one is next.\<close>

function drain_spool :: "notify_state \<Rightarrow> notify_state" where
  "drain_spool st =
     (case heap_pop job_rev (job_spool st) of
        None \<Rightarrow> st
      | Some (job, rest) \<Rightarrow>
          if job_rev job = next_rev st
          then drain_spool (st\<lparr>job_spool := rest, nt_env := do_send job (nt_env st), next_rev := next_rev st + 1\<rparr>)
          else st)"
  by pat_completeness auto
termination
  using mh.pop_size[of job_rev] by (relation "measure (length \<circ> job_spool)") auto

declare drain_spool.simps [simp del]

definition notify_recv :: "NotifyJob \<Rightarrow> notify_state \<Rightarrow> notify_state" where
  "notify_recv job st =
     (if next_rev st < job_rev job then st\<lparr>job_spool := heap_push job (job_spool st)\<rparr>
      else let st1 = drain_spool (st\<lparr>nt_env := do_send job (nt_env st), next_rev := next_rev st + 1\<rparr>)
           in st1\<lparr>rev_written := next_rev st1 - 1\<rparr>)"

definition notify_run :: "NotifyJob list \<Rightarrow> notify_state \<Rightarrow> notify_state" where
  "notify_run jobs st = fold notify_recv jobs st"

section \<open>The invariant\<close>

text \<open>
  After the arrival of \<open>jobs\<close>: those sent are the first revisions in order, the others wait in the
  spool, each beyond the next revision (\<open>gap\<close> says how far beyond).
\<close>

definition spooled :: "i64 \<Rightarrow> notify_env \<Rightarrow> NotifyJob list \<Rightarrow> notify_state \<Rightarrow> bool" where
  "spooled gap env jobs st \<longleftrightarrow>
     (\<exists>sent. nt_env st = fold do_send sent env \<and> map job_rev sent = [1..next_rev st - 1] \<and>
        mset sent + mset (job_spool st) = mset jobs) \<and>
     (\<forall>j\<in>set (job_spool st). next_rev st + gap \<le> job_rev j) \<and> 1 \<le> next_rev st"

lemma upto_snoc: "1 \<le> n \<Longrightarrow> [1..n - 1] @ [n] = [1..n]" for n :: int
  by (simp add: upto_rec2)

lemma spooled_send:
  assumes "spooled gap env jobs st" "0 \<le> gap" "job_rev j = next_rev st"
    and "mset (job_spool st) = add_mset j (mset rest)" "\<forall>j'\<in>set rest. next_rev st + 1 \<le> job_rev j'"
  shows "spooled 0 env jobs (st\<lparr>job_spool := rest, nt_env := do_send j (nt_env st), next_rev := next_rev st + 1\<rparr>)"
proof -
  obtain sent where s: "nt_env st = fold do_send sent env" "map job_rev sent = [1..next_rev st - 1]"
    "mset sent + mset (job_spool st) = mset jobs" and n: "1 \<le> next_rev st"
    using assms(1) by (auto simp: spooled_def)
  have "map job_rev (sent @ [j]) = [1..next_rev st]" using s(2) assms(3) upto_snoc[OF n] by simp
  moreover have "mset (sent @ [j]) + mset rest = mset jobs" using s(3) assms(4) by simp
  ultimately show ?thesis
    unfolding spooled_def using s(1) assms(5) n by (auto intro!: exI[of _ "sent @ [j]"])
qed

lemma distinct_spool:
  assumes "spooled gap env jobs st" "distinct (map job_rev jobs)"
    and "mset (job_spool st) = add_mset j (mset rest)" "j' \<in> set rest"
  shows "job_rev j' \<noteq> job_rev j"
proof -
  obtain sent where "mset sent + mset (job_spool st) = mset jobs" using assms(1) by (auto simp: spooled_def)
  then have "mset (sent @ j # rest) = mset jobs" using assms(3) by simp
  then have "mset (map job_rev (sent @ j # rest)) = mset (map job_rev jobs)" by (simp only: mset_map)
  then have "distinct (map job_rev (sent @ j # rest))" using assms(2) mset_eq_imp_distinct_iff by blast
  then have "job_rev j \<notin> job_rev ` set rest" by simp
  with assms(4) show ?thesis by (metis imageI)
qed

lemma drain_spooled:
  assumes "spooled 0 env jobs st" "distinct (map job_rev jobs)"
  shows "spooled 1 env jobs (drain_spool st)"
  using assms
proof (induction st rule: drain_spool.induct)
  case (1 st)
  show ?case
  proof (cases "heap_pop job_rev (job_spool st)")
    case None
    then have "drain_spool st = st" "job_spool st = []"
      by (simp_all add: drain_spool.simps[of st] heap_pop_None)
    with "1.prems" show ?thesis by (simp add: spooled_def)
  next
    case (Some p)
    obtain j rest where p: "p = (j, rest)" by fastforce
    note pop = Some[unfolded p]
    have m: "mset (job_spool st) = add_mset j (mset rest)" by (rule mh.pop_elems[OF pop])
    have least: "\<forall>j'\<in>set (job_spool st). job_rev j \<le> job_rev j'" using mh.pop_le[OF pop] by simp
    have ge: "\<forall>j'\<in>set (job_spool st). next_rev st \<le> job_rev j'" using "1.prems"(1) by (simp add: spooled_def)
    have sub: "set (job_spool st) = insert j (set rest)" using arg_cong[OF m, of set_mset] by simp
    show ?thesis
    proof (cases "job_rev j = next_rev st")
      case True
      have "next_rev st + 1 \<le> job_rev j'" if "j' \<in> set rest" for j'
        using distinct_spool[OF "1.prems" m that] ge sub that True by force
      then have "spooled 0 env jobs (st\<lparr>job_spool := rest, nt_env := do_send j (nt_env st), next_rev := next_rev st + 1\<rparr>)"
        using spooled_send[OF "1.prems"(1) _ True m] by simp
      with "1.IH"[OF Some p[symmetric] True] "1.prems"(2) pop True show ?thesis by (simp add: drain_spool.simps[of st])
    next
      case False
      then have "\<forall>j'\<in>set (job_spool st). next_rev st + 1 \<le> job_rev j'" using least ge sub by force
      with False pop "1.prems"(1) show ?thesis by (simp add: drain_spool.simps[of st] spooled_def)
    qed
  qed
qed

lemma drain_spool_frame: "rev_written (drain_spool st) = rev_written st"
  by (induction st rule: drain_spool.induct)
    (subst drain_spool.simps, auto split: option.splits)

lemma notify_recv_spooled:
  assumes s: "spooled 1 env jobs st" and d: "distinct (map job_rev (jobs @ [j]))" and pos: "1 \<le> job_rev j"
  shows "spooled 1 env (jobs @ [j]) (notify_recv j st)"
proof (cases "next_rev st < job_rev j")
  case True
  with s show ?thesis
    by (auto simp: notify_recv_def spooled_def heap_push_def)
next
  case False
  obtain sent where sent: "nt_env st = fold do_send sent env" "map job_rev sent = [1..next_rev st - 1]"
    "mset sent + mset (job_spool st) = mset jobs" and n: "1 \<le> next_rev st"
    and gt: "\<forall>j'\<in>set (job_spool st). next_rev st + 1 \<le> job_rev j'"
    using s by (auto simp: spooled_def)
  have "job_rev j \<notin> set (map job_rev jobs)" using d by simp
  moreover have "set sent \<subseteq> set jobs" by (metis sent(3) mset_subset_eq_add_left set_mset_mono set_mset_mset)
  ultimately have "job_rev j \<notin> set [1..next_rev st - 1]" unfolding sent(2)[symmetric] by auto
  with False pos have j: "job_rev j = next_rev st" by auto
  let ?st = "st\<lparr>job_spool := j # job_spool st\<rparr>"
  have "spooled 0 env (jobs @ [j]) ?st"
    using sent n gt j unfolding spooled_def by (auto intro!: exI[of _ sent])
  from spooled_send[OF this order_refl, of j "job_spool st"] j gt
  have "spooled 0 env (jobs @ [j]) (st\<lparr>nt_env := do_send j (nt_env st), next_rev := next_rev st + 1\<rparr>)" by simp
  from drain_spooled[OF this d] False show ?thesis
    by (simp add: notify_recv_def Let_def spooled_def)
qed

lemma rev_written_recv: "rev_written st = next_rev st - 1 \<Longrightarrow> rev_written (notify_recv j st) = next_rev (notify_recv j st) - 1"
  by (simp add: notify_recv_def Let_def)

lemma notify_run_spooled:
  assumes "distinct (map job_rev jobs)" "\<forall>j\<in>set jobs. 1 \<le> job_rev j"
  shows "spooled 1 env jobs (notify_run jobs (notify_init env)) \<and>
    rev_written (notify_run jobs (notify_init env)) = next_rev (notify_run jobs (notify_init env)) - 1"
  using assms
proof (induction jobs rule: rev_induct)
  case Nil
  then show ?case by (simp add: notify_run_def notify_init_def spooled_def)
next
  case (snoc j jobs)
  then show ?case
    using notify_recv_spooled[of env jobs "notify_run jobs (notify_init env)" j]
      rev_written_recv[of "notify_run jobs (notify_init env)" j]
    by (auto simp: notify_run_def)
qed

section \<open>All revisions arrive\<close>

lemma notify_run_complete:
  assumes "distinct (map job_rev jobs)" "job_rev ` set jobs = {1..int n}"
  shows "notify_run jobs (notify_init env) =
    \<lparr>next_rev = int n + 1, job_spool = [], nt_env = fold do_send (sort_key job_rev jobs) env, rev_written = int n\<rparr>"
proof -
  let ?st = "notify_run jobs (notify_init env)"
  have "\<forall>j\<in>set jobs. 1 \<le> job_rev j" using assms(2) by (metis atLeastAtMost_iff image_eqI)
  from notify_run_spooled[OF assms(1) this, of env] obtain sent where
    sent: "nt_env ?st = fold do_send sent env" "map job_rev sent = [1..next_rev ?st - 1]"
      "mset sent + mset (job_spool ?st) = mset jobs"
    and gt: "\<forall>j\<in>set (job_spool ?st). next_rev ?st + 1 \<le> job_rev j" and n: "1 \<le> next_rev ?st"
    and w: "rev_written ?st = next_rev ?st - 1"
    by (auto simp: spooled_def)
  have set: "set jobs = set sent \<union> set (job_spool ?st)" using arg_cong[OF sent(3), of set_mset] by simp
  have revs: "{1..int n} = set [1..next_rev ?st - 1] \<union> job_rev ` set (job_spool ?st)"
    unfolding assms(2)[symmetric] set sent(2)[symmetric] by (simp add: image_Un)
  have "next_rev ?st \<notin> {1..int n}" unfolding revs using gt by force
  moreover have "next_rev ?st - 1 \<le> int n"
  proof (cases "next_rev ?st = 1")
    case False
    then have "next_rev ?st - 1 \<in> set [1..next_rev ?st - 1]" using n by simp
    then have "next_rev ?st - 1 \<in> {1..int n}" unfolding revs by blast
    then show ?thesis by simp
  qed simp
  ultimately have nr: "next_rev ?st = int n + 1" using n by simp
  have "job_spool ?st = []"
  proof (rule ccontr)
    assume "job_spool ?st \<noteq> []"
    then obtain j where "j \<in> set (job_spool ?st)" by (meson last_in_set)
    then have "job_rev j \<in> {1..int n}" "next_rev ?st + 1 \<le> job_rev j" using revs gt by auto
    with nr show False by simp
  qed
  moreover have "sent = sort_key job_rev jobs"
  proof -
    have m: "mset jobs = mset sent" using sent(3) calculation by simp
    have "inj_on job_rev (set jobs)" using assms(1) by (simp add: distinct_map)
    moreover have "sorted (map job_rev sent)" unfolding sent(2) by simp
    ultimately show ?thesis using sort_key_inj_key_eq[OF m, of job_rev] by simp
  qed
  ultimately show ?thesis using nr w sent(1) by (cases ?st) auto
qed

section \<open>The effects of the jobs sent\<close>

lemma do_send_channels:
  "channels (do_send job env) =
     fold (\<lambda>c chs. chs(c := try_send (job_msg job) (chs c))) (job_watchers job) (channels env)"
  by (auto simp: do_send_def Let_def split: option.splits)

lemma do_send_channel:
  assumes "distinct (job_watchers job)"
  shows "channels (do_send job env) c =
    (if c \<in> set (job_watchers job) then try_send (job_msg job) (channels env c) else channels env c)"
proof -
  have "fold (\<lambda>c chs. chs(c := try_send m (chs c))) ws chs c = (if c \<in> set ws then try_send m (chs c) else chs c)"
    if "distinct ws" for ws m chs using that by (induction ws arbitrary: chs) auto
  then show ?thesis using assms by (simp add: do_send_channels)
qed

text \<open>An open channel with room for them receives its messages in the order they were sent.\<close>

lemma sent_messages:
  assumes "\<forall>j\<in>set jobs. distinct (job_watchers j)" "\<not> receiver_dropped (channels env c)"
    and "length (buffered (channels env c)) + length (filter (\<lambda>j. c \<in> set (job_watchers j)) jobs) \<le> WATCH_CHANNEL_SIZE"
  shows "buffered (channels (fold do_send jobs env) c) =
      buffered (channels env c) @ map job_msg (filter (\<lambda>j. c \<in> set (job_watchers j)) jobs)"
  using assms
proof (induction jobs arbitrary: env)
  case (Cons j jobs)
  let ?env = "do_send j env"
  have c: "channels ?env c =
      (if c \<in> set (job_watchers j) then (channels env c)\<lparr>buffered := buffered (channels env c) @ [job_msg j]\<rparr>
       else channels env c)"
    using Cons.prems by (auto simp: do_send_channel try_send_def)
  with Cons.prems Cons.IH[of ?env] show ?case by auto
qed simp

definition wal_queue :: "WalManager \<Rightarrow> byte_array \<Rightarrow> WalRecord list" where
  "wal_queue m p = (case writers m p of None \<Rightarrow> [] | Some w \<Rightarrow> to_write w)"

definition job_value :: "NotifyJob \<Rightarrow> byte_array option" where
  "job_value j = (if kv_version (kv (job_msg j)) = 0 then None else Some (kv_value (kv (job_msg j))))"

definition job_record :: "NotifyJob \<Rightarrow> WalRecord" where
  "job_record j = \<lparr>wr_rev = job_rev j, wr_key = kv_key (kv (job_msg j)), wr_value = job_value j,
     written_notify = wal_handled j\<rparr>"

definition persisted :: "WalManager \<Rightarrow> byte_array \<Rightarrow> bool" where
  "persisted m p \<longleftrightarrow> default_mode m \<noteq> WalNone \<and> p \<notin> prefix_modes_no_persist m"

lemma do_send_wal:
  "nt_wal env = Some m \<Longrightarrow> nt_wal (do_send job env) =
     Some (wal_append m (prefix_str job) (job_rev job) (kv_key (kv (job_msg job))) (job_value job) (wal_handled job))"
  by (simp add: do_send_def Let_def job_value_def)

lemma wal_append_queue:
  "wal_queue (wal_append m p r k v n) q =
     (if p = q \<and> persisted m p then wal_queue m q @ [\<lparr>wr_rev = r, wr_key = k, wr_value = v, written_notify = n\<rparr>]
      else wal_queue m q)"
  "persisted (wal_append m p r k v n) q = persisted m q"
  by (auto simp: wal_append_def notify_one_def wal_queue_def persisted_def open_for_prefix_def Let_def
      split: option.splits)

lemma sent_records:
  assumes "nt_wal env = Some m"
  shows "\<exists>m'. nt_wal (fold do_send jobs env) = Some m' \<and> (\<forall>q. persisted m' q = persisted m q) \<and>
    (\<forall>q. persisted m q \<longrightarrow>
       wal_queue m' q = wal_queue m q @ map job_record (filter (\<lambda>j. prefix_str j = q) jobs))"
  using assms
proof (induction jobs arbitrary: env m)
  case (Cons j jobs)
  note step = do_send_wal[OF Cons.prems, of j]
  from Cons.IH[OF step] show ?case by (auto simp: wal_append_queue job_record_def)
qed simp

section \<open>Properties\<close>

text \<open>
  C10: jobs take effect in revision order, whatever the order of their arrival. At any time the thread
  has sent exactly the jobs of the revisions from 1 up to the one before the first that has not
  arrived, in that order; it reports the last of them as its progress; the others wait.
\<close>

theorem notify_in_order:
  assumes "distinct (map job_rev jobs)" "\<forall>j\<in>set jobs. 1 \<le> job_rev j"
  shows "\<exists>sent. let st = notify_run jobs (notify_init env) in
    nt_env st = fold do_send sent env \<and> map job_rev sent = [1..next_rev st - 1] \<and>
    mset jobs = mset sent + mset (job_spool st) \<and>
    next_rev st \<notin> job_rev ` set jobs \<and> rev_written st = next_rev st - 1"
proof -
  let ?st = "notify_run jobs (notify_init env)"
  from notify_run_spooled[OF assms, of env] obtain sent where
    sent: "nt_env ?st = fold do_send sent env" "map job_rev sent = [1..next_rev ?st - 1]"
      "mset sent + mset (job_spool ?st) = mset jobs"
    and gt: "\<forall>j\<in>set (job_spool ?st). next_rev ?st + 1 \<le> job_rev j"
    and w: "rev_written ?st = next_rev ?st - 1"
    by (auto simp: spooled_def)
  have "set jobs = set sent \<union> set (job_spool ?st)" using arg_cong[OF sent(3), of set_mset] by simp
  then have "job_rev ` set jobs = set [1..next_rev ?st - 1] \<union> job_rev ` set (job_spool ?st)"
    unfolding sent(2)[symmetric] by (simp add: image_Un)
  with gt have "next_rev ?st \<notin> job_rev ` set jobs" by force
  with sent w show ?thesis by (intro exI[of _ sent]) (simp add: Let_def)
qed

definition sample_job :: "i64 \<Rightarrow> channel_ref list \<Rightarrow> NotifyJob" where
  "sample_job r cs =
     \<lparr>job_rev = r, job_watchers = cs,
      job_msg = \<lparr>prev_kv = None, kv = \<lparr>kv_key = [97], kv_value = [of_int r], kv_create_revision = 1,
        kv_mod_revision = r, kv_version = r, kv_lease = 0\<rparr>\<rparr>,
      prefix_str = [], watch_result_size = 1, wal_handled = None\<rparr>"

definition sample_env :: notify_env where
  "sample_env = \<lparr>channels = (\<lambda>_. \<lparr>buffered = [], receiver_dropped = False\<rparr>),
     nt_wal = Some (wal_manager_new WalAsync {})\<rparr>"

theorem notify_in_order_witness:
  "\<exists>sent. let st = notify_run [sample_job 2 [0], sample_job 4 [0], sample_job 1 [0]] (notify_init sample_env) in
    nt_env st = fold do_send sent sample_env \<and> map job_rev sent = [1..next_rev st - 1] \<and>
    mset [sample_job 2 [0], sample_job 4 [0], sample_job 1 [0]] = mset sent + mset (job_spool st) \<and>
    next_rev st \<notin> job_rev ` set [sample_job 2 [0], sample_job 4 [0], sample_job 1 [0]] \<and>
    rev_written st = next_rev st - 1"
  by (rule notify_in_order) (simp_all add: sample_job_def)

text \<open>
  Delivery. When the jobs of the revisions 1 to \<open>n\<close> have arrived in any order, each open channel
  with room for its messages has received exactly the messages addressed to it, in revision order,
  nothing is left in the spool, and the progress is \<open>n\<close>.
\<close>

lemma notify_delivers:
  assumes "distinct (map job_rev jobs)" "job_rev ` set jobs = {1..int n}"
    and "\<forall>j\<in>set jobs. distinct (job_watchers j)" "\<not> receiver_dropped (channels env c)"
    and "length (buffered (channels env c)) + length jobs \<le> WATCH_CHANNEL_SIZE"
  shows "let st = notify_run jobs (notify_init env) in
    buffered (channels (nt_env st) c) = buffered (channels env c) @
      map job_msg (filter (\<lambda>j. c \<in> set (job_watchers j)) (sort_key job_rev jobs)) \<and>
    job_spool st = [] \<and> rev_written st = int n"
proof -
  have "length (filter (\<lambda>j. c \<in> set (job_watchers j)) (sort_key job_rev jobs)) \<le> length jobs"
    by (metis length_filter_le length_sort)
  with assms(5) have "length (buffered (channels env c)) +
      length (filter (\<lambda>j. c \<in> set (job_watchers j)) (sort_key job_rev jobs)) \<le> WATCH_CHANNEL_SIZE" by linarith
  from sent_messages[OF _ assms(4) this] assms(3) notify_run_complete[OF assms(1,2), of env]
  show ?thesis by (simp add: Let_def)
qed

lemma notify_delivers_witness:
  "let st = notify_run [sample_job 2 [0, 1], sample_job 1 [0]] (notify_init sample_env) in
    buffered (channels (nt_env st) 0) = [job_msg (sample_job 1 [0]), job_msg (sample_job 2 [0, 1])] \<and>
    job_spool st = [] \<and> rev_written st = int 2"
proof -
  have "{1..int 2} = {1, 2}" by auto
  then have *: "job_rev ` set [sample_job 2 [0, 1], sample_job 1 [0]] = {1..int 2}"
    by (auto simp: sample_job_def)
  have "sort_key job_rev [sample_job 2 [0, 1], sample_job 1 [0]] = [sample_job 1 [0], sample_job 2 [0, 1]]"
    by (simp add: sample_job_def)
  with notify_delivers[OF _ *, where env = sample_env and c = 0] show ?thesis
    by (simp add: sample_job_def sample_env_def WATCH_CHANNEL_SIZE_def)
qed

text \<open>
  The log is appended in revision order. When the revisions 1 to \<open>n\<close> have arrived in any order,
  the queue of every persisted prefix has grown by the records of the writes under that prefix, in
  revision order, deletions recorded as such.
\<close>

lemma notify_wal_order:
  assumes "distinct (map job_rev jobs)" "job_rev ` set jobs = {1..int n}"
    and "nt_wal env = Some m" "persisted m p"
  shows "\<exists>m'. nt_wal (nt_env (notify_run jobs (notify_init env))) = Some m' \<and>
    wal_queue m' p = wal_queue m p @ map job_record (filter (\<lambda>j. prefix_str j = p) (sort_key job_rev jobs))"
  using sent_records[OF assms(3), of "sort_key job_rev jobs"] assms(4) notify_run_complete[OF assms(1,2), of env]
  by auto

lemma notify_wal_order_witness:
  "\<exists>m'. nt_wal (nt_env (notify_run [sample_job 2 [0], sample_job 1 [0]] (notify_init sample_env))) = Some m' \<and>
    wal_queue m' [] = [job_record (sample_job 1 [0]), job_record (sample_job 2 [0])]"
proof -
  have "{1..int 2} = {1, 2}" by auto
  then have *: "job_rev ` set [sample_job 2 [0], sample_job 1 [0]] = {1..int 2}"
    by (auto simp: sample_job_def)
  have "sort_key job_rev [sample_job 2 [0], sample_job 1 [0]] = [sample_job 1 [0], sample_job 2 [0]]"
    by (simp add: sample_job_def)
  with notify_wal_order[OF _ *, where env = sample_env and m = "wal_manager_new WalAsync {}" and p = "[]"]
  show ?thesis
    by (simp add: sample_job_def sample_env_def persisted_def wal_manager_new_def wal_queue_def)
qed

end
