(* ===== verification/Watch_System.thy ===== *)
theory Watch_System
  imports Watch_Service Notify_Thread
begin

text \<open>
  The notification thread (\<open>src/store.rs\<close>) and one watch stream (\<open>src/watch_service.rs\<close>) running
  concurrently. They share the stream's channel and the published progress revision. Each step is
  one action of one of them: receiving a job, sending one spooled job or publishing the progress for
  the thread; one choice of the \<open>select!\<close> or the handling of the chosen client message for the
  stream. The jobs of the run wait in the order in which the writers send them.
\<close>

section \<open>The system\<close>

record system =
  sys_nt :: notify_state
  sys_draining :: bool
  sys_inbox :: "NotifyJob list"
  sys_store :: Store
  sys_stream :: WatchStream
  sys_chosen :: "client_message option"

definition system_init :: "NotifyJob list \<Rightarrow> notify_env \<Rightarrow> Store \<Rightarrow> WatchStream \<Rightarrow> system" where
  "system_init jobs env s ws =
     \<lparr>sys_nt = notify_init env, sys_draining = False, sys_inbox = jobs, sys_store = s, sys_stream = ws, sys_chosen = None\<rparr>"

text \<open>Sending one job: the channel of the stream is the queue from which the stream reads.\<close>

definition shared_env :: "channel_ref \<Rightarrow> WatchStream \<Rightarrow> notify_env \<Rightarrow> notify_env" where
  "shared_env c ws env = env\<lparr>channels := (channels env)(c := \<lparr>buffered = ws_rx ws, receiver_dropped = ws_returned ws\<rparr>)\<rparr>"

definition sys_send :: "channel_ref \<Rightarrow> NotifyJob \<Rightarrow> system \<Rightarrow> system" where
  "sys_send c job y =
     (let st = sys_nt y; ws = sys_stream y;
          env = do_send job (shared_env c ws (nt_env st))
      in y\<lparr>sys_nt := st\<lparr>nt_env := env, next_rev := next_rev st + 1\<rparr>,
           sys_stream := ws\<lparr>ws_rx := buffered (channels env c)\<rparr>, sys_draining := True\<rparr>)"

definition sys_receive :: "channel_ref \<Rightarrow> NotifyJob \<Rightarrow> system \<Rightarrow> system" where
  "sys_receive c job y =
     (let st = sys_nt y in
      if next_rev st < job_rev job then y\<lparr>sys_nt := st\<lparr>job_spool := heap_push job (job_spool st)\<rparr>\<rparr>
      else sys_send c job y)"

definition sys_drain :: "channel_ref \<Rightarrow> system \<Rightarrow> system" where
  "sys_drain c y =
     (let st = sys_nt y;
          publish = y\<lparr>sys_nt := st\<lparr>rev_written := next_rev st - 1\<rparr>, sys_draining := False\<rparr>
      in case heap_pop job_rev (job_spool st) of
           None \<Rightarrow> publish
         | Some (job, rest) \<Rightarrow>
             if job_rev job = next_rev st then sys_send c job (y\<lparr>sys_nt := st\<lparr>job_spool := rest\<rparr>\<rparr>)
             else publish)"

text \<open>The stream: \<open>select!\<close> looks at the channel first, and only then takes a message of the client.\<close>

definition sys_select :: "client_message option \<Rightarrow> system \<Rightarrow> system" where
  "sys_select msg y =
     (let ws = sys_stream y in
      if ws_returned ws then y
      else if ws_rx ws \<noteq> [] then y\<lparr>sys_stream := watch_deliver ws\<rparr>
      else if ws_rx_closed ws
      then y\<lparr>sys_store := store_unwatch (sys_store y) (ws_key ws) (ws_watcher_id ws), sys_stream := ws\<lparr>ws_returned := True\<rparr>\<rparr>
      else y\<lparr>sys_chosen := msg\<rparr>)"

definition sys_handle :: "client_message \<Rightarrow> system \<Rightarrow> system" where
  "sys_handle m y =
     (let (s, ws) = watch_client (rev_written (sys_nt y)) m (sys_store y) (sys_stream y)
      in y\<lparr>sys_store := s, sys_stream := ws, sys_chosen := None\<rparr>)"

inductive sys_step :: "channel_ref \<Rightarrow> system \<Rightarrow> system \<Rightarrow> bool" for c where
  receive: "\<not> sys_draining y \<Longrightarrow> sys_inbox y = job # rest \<Longrightarrow> sys_step c y (sys_receive c job (y\<lparr>sys_inbox := rest\<rparr>))"
| drain: "sys_draining y \<Longrightarrow> sys_step c y (sys_drain c y)"
| select: "sys_chosen y = None \<Longrightarrow> sys_step c y (sys_select msg y)"
| handle: "sys_chosen y = Some m \<Longrightarrow> sys_step c y (sys_handle m y)"

abbreviation sys_steps :: "channel_ref \<Rightarrow> system \<Rightarrow> system \<Rightarrow> bool" where
  "sys_steps c \<equiv> (sys_step c)\<^sup>*\<^sup>*"

section \<open>The thread\<close>

text \<open>The jobs still to be sent: different revisions, none below the next one, the progress behind it.\<close>

definition job_ok :: "NotifyJob \<Rightarrow> bool" where
  "job_ok j \<longleftrightarrow> distinct (job_watchers j) \<and> rev_of (job_msg j) = job_rev j"

definition waiting :: "system \<Rightarrow> NotifyJob multiset" where
  "waiting y = mset (job_spool (sys_nt y)) + mset (sys_inbox y)"

definition nt_inv :: "system \<Rightarrow> bool" where
  "nt_inv y \<longleftrightarrow> (\<forall>j\<in>#waiting y. next_rev (sys_nt y) \<le> job_rev j \<and> job_ok j) \<and>
     (\<forall>r. size (filter_mset (\<lambda>j. job_rev j = r) (waiting y)) \<le> 1) \<and> rev_written (sys_nt y) < next_rev (sys_nt y)"

text \<open>What a step does to the system: it sends the next revision, or it sends nothing.\<close>

definition sends :: "channel_ref \<Rightarrow> NotifyJob \<Rightarrow> system \<Rightarrow> system \<Rightarrow> bool" where
  "sends c j y y' \<longleftrightarrow> job_rev j = next_rev (sys_nt y) \<and> waiting y = add_mset j (waiting y') \<and>
     next_rev (sys_nt y') = next_rev (sys_nt y) + 1 \<and> rev_written (sys_nt y') = rev_written (sys_nt y) \<and>
     sys_chosen y' = sys_chosen y \<and> sys_store y' = sys_store y \<and>
     sys_stream y' = (sys_stream y)\<lparr>ws_rx := buffered (channels (do_send j (shared_env c (sys_stream y) (nt_env (sys_nt y)))) c)\<rparr>"

definition keeps :: "system \<Rightarrow> system \<Rightarrow> bool" where
  "keeps y y' \<longleftrightarrow> waiting y' = waiting y \<and> next_rev (sys_nt y') = next_rev (sys_nt y) \<and>
     rev_written (sys_nt y') \<in> {rev_written (sys_nt y), next_rev (sys_nt y) - 1}"

lemma sys_send_sends:
  assumes "job_rev j = next_rev (sys_nt y)"
  shows "sends c j (y\<lparr>sys_inbox := j # sys_inbox y\<rparr>) (sys_send c j y)"
  using assms by (simp add: sends_def sys_send_def waiting_def Let_def)

lemma receive_cases:
  assumes "nt_inv y" "sys_inbox y = j # rest"
  shows "sends c j y (sys_receive c j (y\<lparr>sys_inbox := rest\<rparr>)) \<or>
    keeps y (sys_receive c j (y\<lparr>sys_inbox := rest\<rparr>)) \<and> sys_stream (sys_receive c j (y\<lparr>sys_inbox := rest\<rparr>)) = sys_stream y \<and>
      sys_store (sys_receive c j (y\<lparr>sys_inbox := rest\<rparr>)) = sys_store y \<and>
      sys_chosen (sys_receive c j (y\<lparr>sys_inbox := rest\<rparr>)) = sys_chosen y"
proof (cases "next_rev (sys_nt y) < job_rev j")
  case True
  then show ?thesis using assms(2) by (simp add: sys_receive_def keeps_def waiting_def heap_push_def Let_def)
next
  case False
  have "j \<in># waiting y" using assms(2) by (simp add: waiting_def)
  with False assms(1) have "job_rev j = next_rev (sys_nt y)" by (force simp: nt_inv_def)
  with False assms(2) sys_send_sends[of j "y\<lparr>sys_inbox := rest\<rparr>" c] show ?thesis
    by (simp add: sys_receive_def sends_def waiting_def Let_def)
qed

lemma drain_cases:
  "(\<exists>j. sends c j y (sys_drain c y)) \<or>
    keeps y (sys_drain c y) \<and> sys_stream (sys_drain c y) = sys_stream y \<and> sys_store (sys_drain c y) = sys_store y \<and>
      sys_chosen (sys_drain c y) = sys_chosen y"
proof (cases "heap_pop job_rev (job_spool (sys_nt y))")
  case (Some p)
  obtain j rest where p: "p = (j, rest)" by fastforce
  from Some have m: "mset (job_spool (sys_nt y)) = add_mset j (mset rest)" unfolding p by (rule mh.pop_elems)
  show ?thesis
  proof (cases "job_rev j = next_rev (sys_nt y)")
    case True
    with Some p m have "sends c j y (sys_drain c y)"
      by (simp add: sys_drain_def sys_send_def sends_def waiting_def Let_def)
    then show ?thesis by blast
  qed (use Some p in \<open>simp add: sys_drain_def keeps_def waiting_def Let_def\<close>)
qed (simp add: sys_drain_def keeps_def waiting_def Let_def)

lemma select_keeps: "keeps y (sys_select msg y)" and handle_keeps: "keeps y (sys_handle m y)"
  by (auto simp: sys_select_def sys_handle_def keeps_def waiting_def Let_def split: prod.split)

lemma keeps_inv: "nt_inv y \<Longrightarrow> keeps y y' \<Longrightarrow> nt_inv y'"
  by (auto simp: nt_inv_def keeps_def)

lemma sends_inv:
  assumes "nt_inv y" "sends c j y y'"
  shows "nt_inv y'" "job_ok j"
proof -
  have w: "waiting y = add_mset j (waiting y')" and jr: "job_rev j = next_rev (sys_nt y)"
    using assms(2) by (simp_all add: sends_def)
  have one: "size (filter_mset (\<lambda>j. job_rev j = r) (waiting y)) \<le> 1" for r using assms(1) by (simp add: nt_inv_def)
  have "size (filter_mset (\<lambda>j. job_rev j = r) (waiting y')) \<le> 1" for r
    using one[of r] size_mset_mono[OF multiset_filter_mono[of "waiting y'" "waiting y" "\<lambda>j. job_rev j = r"]]
    by (simp add: w)
  moreover have "next_rev (sys_nt y) + 1 \<le> job_rev i" if "i \<in># waiting y'" for i
  proof -
    have "filter_mset (\<lambda>j. job_rev j = next_rev (sys_nt y)) (waiting y') = {#}"
      using one[of "next_rev (sys_nt y)"] jr by (simp add: w)
    with that have "job_rev i \<noteq> next_rev (sys_nt y)" by auto
    moreover have "next_rev (sys_nt y) \<le> job_rev i" using assms(1) that w by (simp add: nt_inv_def)
    ultimately show ?thesis by simp
  qed
  ultimately show "nt_inv y'" "job_ok j" using assms by (auto simp: nt_inv_def sends_def)
qed

text \<open>Every step either sends one job or leaves the thread's jobs alone; the stream acts only in the latter.\<close>

lemma sys_step_cases:
  assumes "nt_inv y" "sys_step c y y'"
  obtains (send) j where "sends c j y y'"
  | (quiet) "keeps y y'" "sys_stream y' = sys_stream y" "sys_store y' = sys_store y"
  | (select) msg where "keeps y y'" "y' = sys_select msg y"
  | (handle) m where "keeps y y'" "sys_chosen y = Some m" "y' = sys_handle m y"
  using assms(2)
proof cases
  case (receive j rest)
  with receive_cases[OF assms(1) receive(3), of c] send quiet show ?thesis by metis
next
  case drain
  with drain_cases[of c y] send quiet show ?thesis by metis
qed (use select handle select_keeps handle_keeps in blast)+

lemma sys_step_inv: "sys_step c y y' \<Longrightarrow> nt_inv y \<Longrightarrow> nt_inv y'"
  by (erule sys_step_cases[rotated]) (auto dest: keeps_inv sends_inv)

lemma sys_steps_inv: "sys_steps c y y' \<Longrightarrow> nt_inv y \<Longrightarrow> nt_inv y'"
  by (induction rule: rtranclp_induct) (auto dest: sys_step_inv)

lemma nt_inv_init:
  assumes "distinct (map job_rev jobs)" "\<forall>j\<in>set jobs. 1 \<le> job_rev j \<and> job_ok j"
  shows "nt_inv (system_init jobs env s ws)"
proof -
  have "size (filter_mset (\<lambda>j. job_rev j = r) (mset jobs)) \<le> 1" for r
    using assms(1) by (induction jobs) (auto simp: image_iff)
  with assms(2) show ?thesis by (simp add: nt_inv_def system_init_def notify_init_def waiting_def)
qed

section \<open>The stream\<close>

lemma sends_rx:
  assumes "sends c j y y'" "job_ok j"
  shows "ws_rx (sys_stream y') = ws_rx (sys_stream y) @
    (if c \<in> set (job_watchers j) \<and> \<not> ws_returned (sys_stream y) \<and> length (ws_rx (sys_stream y)) < WATCH_CHANNEL_SIZE
     then [job_msg j] else [])"
  using assms by (auto simp: sends_def job_ok_def do_send_channel shared_env_def try_send_def)

text \<open>Everything the stream yields from here on lies above a bound of its channel, its past and the jobs to come.\<close>

definition above :: "i64 \<Rightarrow> i64 \<Rightarrow> system \<Rightarrow> bool" where
  "above p q y \<longleftrightarrow> (\<forall>m\<in>set (ws_rx (sys_stream y)). p < rev_of m) \<and> q \<le> max_event_stream_rev (sys_stream y) \<and>
     p < next_rev (sys_nt y)"

lemma select_poll:
  "(sys_store (sys_select msg y), sys_stream (sys_select msg y)) = watch_poll p None (sys_store y) (sys_stream y)"
  by (auto simp: sys_select_def watch_poll_def Let_def)

lemma handle_client:
  "(sys_store (sys_handle m y), sys_stream (sys_handle m y)) =
     watch_client (rev_written (sys_nt y)) m (sys_store y) (sys_stream y)"
  by (simp add: sys_handle_def Let_def split: prod.split)

lemma watch_client_yields:
  "watch_client p m s ws = (s', ws') \<Longrightarrow> \<exists>new. ws_yielded ws' = ws_yielded ws @ new \<and> (\<forall>resp\<in>set new. events resp = [])"
  by (auto simp: watch_client_def watch_response_def Let_def
      split: client_message.splits option.splits request_union.splits if_splits)

lemma watch_client_returned: "watch_client p m s ws = (s', ws') \<Longrightarrow> ws_returned ws \<Longrightarrow> ws_returned ws'"
  by (auto simp: watch_client_def Let_def
      split: client_message.splits option.splits request_union.splits if_splits)

lemma sys_step_above:
  assumes "nt_inv y" "sys_step c y y'" "above p q y"
  shows "above p q y' \<and> (\<exists>new. ws_yielded (sys_stream y') = ws_yielded (sys_stream y) @ new \<and>
    (\<forall>resp\<in>set new. \<forall>e\<in>set (events resp). max p q < kv_mod_revision (event_kv e)))"
  using assms(1,2)
proof (cases rule: sys_step_cases)
  case (send j)
  with sends_rx[OF send sends_inv(2)[OF assms(1) send]] sends_inv(2)[OF assms(1) send] assms(3) show ?thesis
    by (auto simp: above_def sends_def job_ok_def)
next
  case (select msg)
  have "watch_act (Poll 0 None) (sys_store y, sys_stream y) = (sys_store y', sys_stream y')"
    using select_poll[of msg y 0] select(2) by simp
  note a = watch_act_above[OF _ _ this, of p q]
  from a assms(3) select(1) show ?thesis by (auto simp: above_def keeps_def)
next
  case (handle m)
  have h: "watch_client (rev_written (sys_nt y)) m (sys_store y) (sys_stream y) = (sys_store y', sys_stream y')"
    using handle_client[of m y] handle(3) by simp
  from watch_client_keeps[OF h] watch_client_yields[OF h] assms(3) handle(1) show ?thesis
    by (fastforce simp: above_def keeps_def)
qed (use assms(3) in \<open>auto simp: above_def keeps_def\<close>)

lemma sys_steps_above:
  assumes "sys_steps c y y'" "nt_inv y" "above p q y"
  shows "\<exists>new. ws_yielded (sys_stream y') = ws_yielded (sys_stream y) @ new \<and>
    (\<forall>resp\<in>set new. \<forall>e\<in>set (events resp). max p q < kv_mod_revision (event_kv e))"
proof -
  have "above p q y' \<and> (\<exists>new. ws_yielded (sys_stream y') = ws_yielded (sys_stream y) @ new \<and>
    (\<forall>resp\<in>set new. \<forall>e\<in>set (events resp). max p q < kv_mod_revision (event_kv e)))"
    using assms(1)
  proof (induction rule: rtranclp_induct)
    case (step y' y'')
    from sys_step_above[OF sys_steps_inv[OF step(1) assms(2)] step(2)] step.IH show ?case
      by (elim conjE exE) (fastforce)
  qed (use assms(3) in simp)
  then show ?thesis by blast
qed

section \<open>What was sent and what the stream made of it\<close>

definition stream_inv :: "channel_ref \<Rightarrow> bool \<Rightarrow> i64 \<Rightarrow> Event list \<Rightarrow> NotifyJob list \<Rightarrow> system \<Rightarrow> bool" where
  "stream_inv c want bound past sent y \<longleftrightarrow>
     (let ws = sys_stream y; msgs = map job_msg (filter (\<lambda>j. c \<in> set (job_watchers j)) sent) in
      map job_rev sent = [1..next_rev (sys_nt y) - 1] \<and> 1 \<le> next_rev (sys_nt y) \<and>
      (\<not> ws_returned ws \<longrightarrow> yielded_events ws @ map (watch_event want) (undelivered ws []) =
         past @ map (watch_event want) (filter (\<lambda>m. bound < rev_of m) msgs)) \<and>
      ws_prev_kv ws = want \<and> ascending (ws_rx ws) \<and> (\<forall>m\<in>set (ws_rx ws). rev_of m < next_rev (sys_nt y)) \<and>
      bound \<le> max_event_stream_rev ws \<and> max_event_stream_rev ws \<le> max bound (next_rev (sys_nt y) - 1) \<and>
      length (ws_rx ws) \<le> length sent)"

lemma stream_inv_sends:
  assumes i: "stream_inv c want bound past sent y" and s: "sends c j y y'" and j: "job_ok j"
    and room: "length sent < WATCH_CHANNEL_SIZE"
  shows "stream_inv c want bound past (sent @ [j]) y'"
proof -
  let ?ws = "sys_stream y" and ?n = "next_rev (sys_nt y)"
  have n: "1 \<le> ?n" and rx: "length (ws_rx ?ws) < WATCH_CHANNEL_SIZE"
    using i room by (auto simp: stream_inv_def Let_def)
  have r: "rev_of (job_msg j) = ?n" using s j by (simp add: sends_def job_ok_def)
  define new where "new = (if c \<in> set (job_watchers j) \<and> \<not> ws_returned ?ws then [job_msg j] else [])"
  have ws': "sys_stream y' = ?ws\<lparr>ws_rx := ws_rx ?ws @ new\<rparr>"
    using sends_rx[OF s j] rx s by (auto simp: sends_def new_def)
  have fresh: "max_event_stream_rev ?ws < ?n \<longleftrightarrow> bound < ?n" using i by (auto simp: stream_inv_def Let_def)
  have rx: "ascending (ws_rx ?ws)" "\<forall>m\<in>set (ws_rx ?ws). rev_of m < ?n" using i by (simp_all add: stream_inv_def Let_def)
  have "map job_rev (sent @ [j]) = [1..?n]"
    using i s upto_snoc[OF n] by (simp add: stream_inv_def sends_def Let_def)
  moreover have "undelivered (?ws\<lparr>ws_rx := ws_rx ?ws @ new\<rparr>) [] = undelivered ?ws [] @ filter (\<lambda>m. bound < rev_of m) new"
    using fresh r by (simp add: undelivered_def new_def)
  moreover have "\<not> ws_returned ?ws \<longrightarrow>
      yielded_events ?ws @ map (watch_event want) (undelivered ?ws [] @ filter (\<lambda>m. bound < rev_of m) new) =
      past @ map (watch_event want) (filter (\<lambda>m. bound < rev_of m) (map job_msg (filter (\<lambda>j. c \<in> set (job_watchers j)) (sent @ [j]))))"
    using i by (simp add: stream_inv_def Let_def new_def)
  moreover have "ascending (ws_rx ?ws @ new)" using rx r by (simp add: sorted_wrt_append new_def)
  moreover have "\<forall>m\<in>set (ws_rx ?ws @ new). rev_of m < ?n + 1" using rx(2) r by (auto simp: new_def)
  moreover have "length (ws_rx ?ws @ new) \<le> length (sent @ [j])" using i by (simp add: stream_inv_def Let_def new_def)
  moreover have "next_rev (sys_nt y') = ?n + 1" "ws_prev_kv ?ws = want" "bound \<le> max_event_stream_rev ?ws"
    "max_event_stream_rev ?ws \<le> max bound ?n" using i s by (auto simp: stream_inv_def sends_def Let_def)
  ultimately show ?thesis
    using n unfolding stream_inv_def ws' Let_def by (simp del: map_append filter_append set_append length_append)
qed

lemma deliver_bounds:
  assumes "\<forall>m\<in>set (ws_rx ws). rev_of m < n" "max_event_stream_rev ws \<le> max b (n - 1)"
  shows "max_event_stream_rev (watch_deliver ws) \<le> max b (n - 1)"
    "max_event_stream_rev ws \<le> max_event_stream_rev (watch_deliver ws)"
proof -
  let ?read = "filter (\<lambda>c. max_event_stream_rev ws < rev_of c) (take 1000 (ws_rx ws))"
  have "rev_of (last ?read) < n" if "?read \<noteq> []"
  proof -
    have "last ?read \<in> set ?read" using that by (rule last_in_set)
    then have "last ?read \<in> set (ws_rx ws)" using set_take_subset[of 1000 "ws_rx ws"] by auto
    with assms(1) show ?thesis by blast
  qed
  with assms(2) show "max_event_stream_rev (watch_deliver ws) \<le> max b (n - 1)"
    "max_event_stream_rev ws \<le> max_event_stream_rev (watch_deliver ws)"
    by (auto simp: watch_deliver_read(3))
qed

lemma stream_inv_poll:
  assumes i: "stream_inv c want bound past sent y" and k: "keeps y y'"
    and p: "watch_poll p None (sys_store y) (sys_stream y) = (sys_store y', sys_stream y')"
  shows "stream_inv c want bound past sent y'"
proof -
  let ?ws = "sys_stream y" and ?ws' = "sys_stream y'"
  have asc: "ascending (ws_rx ?ws @ [])" using i by (simp add: stream_inv_def Let_def)
  note conserved = watch_poll_conserves[OF asc p]
  consider "?ws' = watch_deliver ?ws" "\<not> ws_returned ?ws" | "?ws' = ?ws" | "?ws' = ?ws\<lparr>ws_returned := True\<rparr>"
    using p by (auto simp: watch_poll_def split: if_splits)
  then show ?thesis
  proof cases
    case 1
    moreover have "set (ws_rx ?ws') \<subseteq> set (ws_rx ?ws)" "length (ws_rx ?ws') \<le> length (ws_rx ?ws)"
      using 1 by (auto simp: watch_deliver_read(2) dest: in_set_dropD)
    moreover have "\<forall>m\<in>set (ws_rx ?ws). rev_of m < next_rev (sys_nt y)"
      "max_event_stream_rev ?ws \<le> max bound (next_rev (sys_nt y) - 1)"
      using i by (simp_all add: stream_inv_def Let_def)
    note deliver_bounds[OF this]
    ultimately show ?thesis using i k conserved
      by (fastforce simp: stream_inv_def Let_def keeps_def)
  qed (use i k in \<open>auto simp: stream_inv_def Let_def keeps_def undelivered_def\<close>)
qed

lemma stream_inv_client:
  assumes i: "stream_inv c want bound past sent y" and k: "keeps y y'"
    and h: "watch_client p m (sys_store y) (sys_stream y) = (sys_store y', sys_stream y')"
  shows "stream_inv c want bound past sent y'"
proof -
  from i k watch_client_keeps[OF h] watch_client_returned[OF h] show ?thesis
    by (auto simp: stream_inv_def Let_def keeps_def undelivered_def)
qed

lemma sys_steps_stream:
  assumes "sys_steps c y0 y" "nt_inv y0" "stream_inv c want bound past [] y0" "waiting y0 = mset jobs"
    and "length jobs \<le> WATCH_CHANNEL_SIZE"
  shows "\<exists>sent. stream_inv c want bound past sent y \<and> mset sent + waiting y = mset jobs"
  using assms(1)
proof (induction rule: rtranclp_induct)
  case (step y y')
  then obtain sent where i: "stream_inv c want bound past sent y" and m: "mset sent + waiting y = mset jobs" by blast
  have inv: "nt_inv y" by (rule sys_steps_inv[OF step(1) assms(2)])
  from inv step(2) show ?case
  proof (cases rule: sys_step_cases)
    case (send j)
    then have m': "mset (sent @ [j]) + waiting y' = mset jobs" using m by (simp add: sends_def)
    have "length sent < length jobs" using arg_cong[OF m', of size] by simp
    with assms(5) have "stream_inv c want bound past (sent @ [j]) y'"
      by (intro stream_inv_sends[OF i send sends_inv(2)[OF inv send]]) simp
    with m' show ?thesis by blast
  next
    case quiet
    with i m show ?thesis by (intro exI[of _ sent]) (simp add: stream_inv_def keeps_def Let_def)
  next
    case (select msg)
    then have "stream_inv c want bound past sent y'"
      using select_poll[of msg y 0] by (intro stream_inv_poll[OF i, of y' 0]) simp_all
    with m select(1) show ?thesis by (auto simp: keeps_def)
  next
    case (handle msg)
    then have "stream_inv c want bound past sent y'"
      using handle_client[of msg y] by (intro stream_inv_client[OF i handle(1)]) simp
    with m handle(1) show ?thesis by (auto simp: keeps_def)
  qed
qed (use assms(3,4) in auto)

lemma stream_inv_init:
  "stream_inv c (create_prev_kv req) (if past = [] then 0 else rev_of (last past))
     (map (watch_event (create_prev_kv req)) past) [] (system_init jobs env s (watch_start r r' past i req))"
  by (simp add: stream_inv_def system_init_def notify_init_def watch_start_simps undelivered_def Let_def)

section \<open>The thread's steps make up its loop\<close>

definition synced :: "channel_ref \<Rightarrow> system \<Rightarrow> bool" where
  "synced c y \<longleftrightarrow> channels (nt_env (sys_nt y)) c = \<lparr>buffered = ws_rx (sys_stream y), receiver_dropped = ws_returned (sys_stream y)\<rparr>"

lemma try_send_dropped [simp]: "receiver_dropped (try_send m chan) = receiver_dropped chan"
  by (simp add: try_send_def)

lemma do_send_dropped: "receiver_dropped (channels (do_send j env) c) = receiver_dropped (channels env c)"
proof -
  have "receiver_dropped (fold (\<lambda>c chs. chs(c := try_send m (chs c))) cs chs c) = receiver_dropped (chs c)" for m cs chs
    by (induction cs arbitrary: chs) auto
  then show ?thesis by (simp add: do_send_channels)
qed

lemma sys_send_synced:
  assumes "synced c y"
  shows "synced c (sys_send c j y)"
    "sys_nt (sys_send c j y) = (sys_nt y)\<lparr>nt_env := do_send j (nt_env (sys_nt y)), next_rev := next_rev (sys_nt y) + 1\<rparr>"
proof -
  have "shared_env c (sys_stream y) (nt_env (sys_nt y)) = nt_env (sys_nt y)"
    using assms by (simp add: shared_env_def synced_def fun_upd_idem)
  with assms show "synced c (sys_send c j y)"
    "sys_nt (sys_send c j y) = (sys_nt y)\<lparr>nt_env := do_send j (nt_env (sys_nt y)), next_rev := next_rev (sys_nt y) + 1\<rparr>"
    by (simp_all add: sys_send_def synced_def Let_def do_send_dropped channel.equality)
qed

lemma drain_steps:
  assumes "synced c y" "sys_draining y"
  shows "\<exists>y'. sys_steps c y y' \<and> synced c y' \<and> \<not> sys_draining y' \<and> sys_inbox y' = sys_inbox y \<and>
    sys_nt y' = (drain_spool (sys_nt y))\<lparr>rev_written := next_rev (drain_spool (sys_nt y)) - 1\<rparr>"
  using assms
proof (induction "length (job_spool (sys_nt y))" arbitrary: y rule: less_induct)
  case less
  note d = drain_spool.simps[of "sys_nt y"]
  show ?case
  proof (cases "\<exists>j rest. heap_pop job_rev (job_spool (sys_nt y)) = Some (j, rest) \<and> job_rev j = next_rev (sys_nt y)")
    case True
    then obtain j rest where pop: "heap_pop job_rev (job_spool (sys_nt y)) = Some (j, rest)"
      "job_rev j = next_rev (sys_nt y)" by blast
    let ?y0 = "y\<lparr>sys_nt := (sys_nt y)\<lparr>job_spool := rest\<rparr>\<rparr>"
    let ?y1 = "sys_send c j ?y0"
    have y1: "sys_drain c y = ?y1" using pop by (simp add: sys_drain_def Let_def)
    have "synced c ?y0" using less.prems(1) by (simp add: synced_def)
    note s = sys_send_synced[OF this, of j]
    have "length (job_spool (sys_nt ?y1)) < length (job_spool (sys_nt y))"
      using mh.pop_size[OF pop(1)] s(2) by simp
    from less.hyps[OF this s(1)] obtain y' where y': "sys_steps c ?y1 y'" "synced c y'" "\<not> sys_draining y'"
      "sys_inbox y' = sys_inbox ?y1" "sys_nt y' = (drain_spool (sys_nt ?y1))\<lparr>rev_written := next_rev (drain_spool (sys_nt ?y1)) - 1\<rparr>"
      by (auto simp: sys_send_def Let_def)
    moreover have "drain_spool (sys_nt y) = drain_spool (sys_nt ?y1)" using pop s(2) d by simp
    moreover have "sys_steps c y y'"
      using sys_step.drain[OF less.prems(2), of c] y'(1) y1 by (auto intro: converse_rtranclp_into_rtranclp)
    ultimately show ?thesis by (auto simp: sys_send_def Let_def)
  next
    case False
    then have "drain_spool (sys_nt y) = sys_nt y"
      "sys_drain c y = y\<lparr>sys_nt := (sys_nt y)\<lparr>rev_written := next_rev (sys_nt y) - 1\<rparr>, sys_draining := False\<rparr>"
      by (auto simp: d sys_drain_def Let_def split: option.splits)
    with sys_step.drain[OF less.prems(2), of c] less.prems(1) show ?thesis
      by (intro exI[of _ "sys_drain c y"]) (simp add: synced_def r_into_rtranclp)
  qed
qed

section \<open>Properties\<close>

text \<open>
  The steps of the thread are a refinement of its loop: left alone by the stream, it processes the
  next job exactly as one iteration of the receive loop does, publishing the progress at the end.
\<close>

lemma thread_steps_receive:
  assumes "synced c y" "\<not> sys_draining y" "sys_inbox y = job # rest"
  shows "\<exists>y'. sys_steps c y y' \<and> synced c y' \<and> \<not> sys_draining y' \<and> sys_inbox y' = rest \<and>
    sys_nt y' = notify_recv job (sys_nt y)"
proof -
  let ?y0 = "y\<lparr>sys_inbox := rest\<rparr>"
  have y0: "synced c ?y0" using assms(1) by (simp add: synced_def)
  have step: "sys_step c y (sys_receive c job ?y0)" by (rule sys_step.receive[OF assms(2,3)])
  show ?thesis
  proof (cases "next_rev (sys_nt y) < job_rev job")
    case True
    with step assms y0 show ?thesis
      by (intro exI[of _ "sys_receive c job ?y0"])
        (auto simp: sys_receive_def notify_recv_def synced_def Let_def r_into_rtranclp)
  next
    case False
    let ?y1 = "sys_send c job ?y0"
    note s = sys_send_synced[OF y0, of job]
    have "sys_draining ?y1" "sys_inbox ?y1 = rest" by (simp_all add: sys_send_def Let_def)
    with drain_steps[OF s(1)] s(2) obtain y' where "sys_steps c ?y1 y'" "synced c y'" "\<not> sys_draining y'"
      "sys_inbox y' = rest" "sys_nt y' = notify_recv job (sys_nt y)"
      using False by (auto simp: notify_recv_def Let_def)
    with step False show ?thesis
      by (auto simp: sys_receive_def Let_def intro: converse_rtranclp_into_rtranclp)
  qed
qed

definition watched :: "NotifyJob list \<Rightarrow> system" where
  "watched jobs = system_init jobs sample_env example_store (watch_start 5 5 [] 1 watch_pods)"

lemma thread_steps_receive_witness:
  "\<exists>y'. sys_steps 0 (watched [sample_job 1 [0]]) y' \<and> synced 0 y' \<and> \<not> sys_draining y' \<and> sys_inbox y' = [] \<and>
    sys_nt y' = notify_recv (sample_job 1 [0]) (notify_init sample_env)"
  using thread_steps_receive[of 0 "watched [sample_job 1 [0]]" "sample_job 1 [0]" "[]"]
  by (simp add: watched_def system_init_def synced_def notify_init_def sample_env_def watch_start_simps)


lemma watched_jobs:
  "distinct (map job_rev [sample_job 1 [0]])" "\<forall>j\<in>set [sample_job 1 [0]]. 1 \<le> job_rev j \<and> job_ok j"
  by (simp_all add: sample_job_def job_ok_def)

text \<open>One job received, sent, published and delivered.\<close>

definition delivered :: "system \<Rightarrow> system" where
  "delivered y = sys_select None (sys_drain 0 (sys_receive 0 (sample_job 1 [0]) (y\<lparr>sys_inbox := []\<rparr>)))"

lemma delivered_steps:
  assumes "\<not> sys_draining y" "sys_inbox y = [sample_job 1 [0]]" "sys_chosen y = None" "job_spool (sys_nt y) = []"
    and "next_rev (sys_nt y) = 1"
  shows "sys_steps 0 y (delivered y)"
proof -
  define y2 where "y2 = sys_receive 0 (sample_job 1 [0]) (y\<lparr>sys_inbox := []\<rparr>)"
  have y2: "sys_draining y2" "sys_chosen y2 = None" "job_spool (sys_nt y2) = []"
    using assms by (simp_all add: y2_def sys_receive_def sys_send_def Let_def sample_job_def)
  then have "sys_chosen (sys_drain 0 y2) = None" by (simp add: sys_drain_def Let_def)
  then have "sys_step 0 (sys_drain 0 y2) (delivered y)" unfolding delivered_def y2_def by (rule sys_step.select)
  moreover have "sys_step 0 y2 (sys_drain 0 y2)" by (rule sys_step.drain[OF y2(1)])
  moreover have "sys_step 0 y y2" unfolding y2_def by (rule sys_step.receive[OF assms(1,2)])
  ultimately show ?thesis by (iprover intro: converse_rtranclp_into_rtranclp rtranclp.rtrancl_refl)
qed


text \<open>
  C25: A progress response is a promise if the channel is still empty when it is computed: no event sent
  later has a revision up to the announced one, in every interleaving with the thread.
\<close>

theorem progress_promise:
  assumes "distinct (map job_rev jobs)" "\<forall>j\<in>set jobs. 1 \<le> job_rev j \<and> job_ok j"
    and "sys_steps c (system_init jobs env s ws) y" "ws_rx (sys_stream y) = []"
    and "sys_steps c (sys_handle (Message (Some ProgressRequest)) y) y'"
  shows "\<exists>R new. ws_yielded (sys_stream y') = ws_yielded (sys_stream y) @ watch_response R (ws_watcher_id (sys_stream y)) [] # new \<and>
    rev_written (sys_nt y) \<le> R \<and> (\<forall>resp\<in>set new. \<forall>e\<in>set (events resp). R < kv_mod_revision (event_kv e))"
proof -
  let ?p = "rev_written (sys_nt y)" and ?q = "max_event_stream_rev (sys_stream y)"
  let ?y1 = "sys_handle (Message (Some ProgressRequest)) y"
  have inv: "nt_inv y" by (rule sys_steps_inv[OF assms(3) nt_inv_init[OF assms(1,2)]])
  have y1: "sys_stream ?y1 = yield_response (sys_stream y) (watch_response (max ?p ?q) (ws_watcher_id (sys_stream y)) [])"
    "sys_nt ?y1 = sys_nt y" by (simp_all add: sys_handle_def watch_client_def Let_def)
  then have "above ?p ?q ?y1" using inv assms(4) by (simp add: above_def nt_inv_def)
  from sys_steps_above[OF assms(5) keeps_inv[OF inv handle_keeps] this] y1(1) show ?thesis
    by (auto intro!: exI[of _ "max ?p ?q"])
qed

theorem progress_promise_witness:
  "\<exists>y' R new. sys_steps 0 (sys_handle (Message (Some ProgressRequest)) (watched [sample_job 1 [0]])) y' \<and>
    ws_yielded (sys_stream y') = ws_yielded (sys_stream (watched [sample_job 1 [0]])) @ watch_response R 1 [] # new \<and>
    0 \<le> R \<and> (\<forall>resp\<in>set new. \<forall>e\<in>set (events resp). R < kv_mod_revision (event_kv e))"
proof -
  let ?y = "watched [sample_job 1 [0]]"
  let ?y1 = "sys_handle (Message (Some ProgressRequest)) ?y"
  have "sys_steps 0 ?y1 (delivered ?y1)"
    by (rule delivered_steps)
      (simp_all add: watched_def system_init_def notify_init_def sys_handle_def watch_client_def Let_def)
  moreover have "ws_rx (sys_stream ?y) = []" "ws_watcher_id (sys_stream ?y) = 1" "rev_written (sys_nt ?y) = 0"
    by (simp_all add: watched_def system_init_def notify_init_def watch_start_def Let_def)
  moreover have "sys_steps 0 (system_init [sample_job 1 [0]] sample_env example_store (watch_start 5 5 [] 1 watch_pods)) ?y"
    by (simp add: watched_def)
  ultimately show ?thesis using progress_promise[OF watched_jobs, of 0 sample_env example_store _ ?y "delivered ?y1"] by metis
qed

text \<open>
  C26: The empty channel is needed. If the thread sends a job and publishes it after the \<open>select!\<close> has
  found the channel empty and before the progress is computed, the client is told a revision and
  gets the event of that revision afterwards.
\<close>

theorem progress_race:
  assumes "\<not> sys_draining y" "sys_inbox y = [job]" "sys_chosen y = None" "job_spool (sys_nt y) = []"
    and "job_rev job = next_rev (sys_nt y)" "job_ok job" "c \<in> set (job_watchers job)"
    and "\<not> ws_returned (sys_stream y)" "\<not> ws_rx_closed (sys_stream y)" "ws_rx (sys_stream y) = []"
    and "max_event_stream_rev (sys_stream y) < job_rev job"
  shows "\<exists>y'. sys_steps c y y' \<and> ws_yielded (sys_stream y') = ws_yielded (sys_stream y) @
    [watch_response (job_rev job) (ws_watcher_id (sys_stream y)) [],
     watch_response (job_rev job) (ws_watcher_id (sys_stream y)) [watch_event (ws_prev_kv (sys_stream y)) (job_msg job)]]"
proof -
  let ?m = "Message (Some ProgressRequest)"
  define y1 where "y1 = sys_select (Some ?m) y"
  define y2 where "y2 = sys_receive c job (y1\<lparr>sys_inbox := []\<rparr>)"
  define y3 where "y3 = sys_drain c y2"
  define y4 where "y4 = sys_handle ?m y3"
  have y1: "y1 = y\<lparr>sys_chosen := Some ?m\<rparr>" using assms by (simp add: y1_def sys_select_def Let_def)
  have rx: "buffered (channels (do_send job (shared_env c (sys_stream y) (nt_env (sys_nt y)))) c) = [job_msg job]"
    using assms(6,7,8,10) by (simp add: do_send_channel shared_env_def try_send_def job_ok_def WATCH_CHANNEL_SIZE_def)
  have y2: "sys_stream y2 = (sys_stream y)\<lparr>ws_rx := [job_msg job]\<rparr>" "sys_draining y2" "sys_chosen y2 = Some ?m"
    "job_spool (sys_nt y2) = []" "next_rev (sys_nt y2) = job_rev job + 1"
    using assms rx by (simp_all add: y2_def y1 sys_receive_def sys_send_def Let_def)
  have y3: "sys_stream y3 = sys_stream y2" "sys_chosen y3 = Some ?m" "rev_written (sys_nt y3) = job_rev job"
    using y2 by (simp_all add: y3_def sys_drain_def Let_def)
  have y4: "sys_stream y4 = yield_response (sys_stream y2) (watch_response (job_rev job) (ws_watcher_id (sys_stream y)) [])"
    "sys_chosen y4 = None"
    using y2 y3 assms(11) by (simp_all add: y4_def sys_handle_def watch_client_def Let_def max_def)
  have "sys_step c y y1" unfolding y1_def by (rule sys_step.select[OF assms(3)])
  moreover have "sys_step c y1 y2" unfolding y2_def by (rule sys_step.receive) (use assms(1,2) in \<open>simp_all add: y1\<close>)
  moreover have "sys_step c y2 y3" unfolding y3_def by (rule sys_step.drain[OF y2(2)])
  moreover have "sys_step c y3 y4" unfolding y4_def by (rule sys_step.handle[OF y3(2)])
  moreover have "sys_step c y4 (sys_select None y4)" by (rule sys_step.select[OF y4(2)])
  ultimately have "sys_steps c y (sys_select None y4)"
    by (iprover intro: converse_rtranclp_into_rtranclp rtranclp.rtrancl_refl)
  moreover have "rev_of (job_msg job) = job_rev job" using assms(6) by (simp add: job_ok_def)
  ultimately show ?thesis
    using y4(1) y2(1) assms(8,11)
    by (intro exI[of _ "sys_select None y4"])
      (simp add: sys_select_def watch_deliver_def Let_def yield_response_def)
qed

theorem progress_race_witness:
  "\<exists>y'. sys_steps 0 (watched [sample_job 1 [0]]) y' \<and>
    ws_yielded (sys_stream y') = ws_yielded (sys_stream (watched [sample_job 1 [0]])) @
      [watch_response 1 1 [], watch_response 1 1 [watch_event False (job_msg (sample_job 1 [0]))]]"
  using progress_race[of "watched [sample_job 1 [0]]" "sample_job 1 [0]" 0]
  by (simp add: watched_def system_init_def notify_init_def watch_start_def watch_pods_def sample_job_def job_ok_def Let_def)

end
