(* ===== verification/Set_Threads.thy ===== *)
theory Set_Threads
  imports Store_Write
begin

text \<open>
  Concurrent calls of \<open>Store::set\<close> (\<open>src/store.rs\<close>). Each call is a thread that goes through the
  sections of the code between which other calls can run: reading the current revision, finding or
  creating the item in \<open>tree_map\<close>, entering it in \<open>prefix_map\<close>, the checks and the push of a
  placeholder under the item's lock, filling the placeholder and releasing the lock, and sending the
  job. Compactions run between any two sections. Every run is shown to be a sequential run in the
  order in which the calls are decided under the item's lock.
\<close>

section \<open>Threads\<close>

record set_call =
  call_key :: byte_array
  call_value :: "byte_array option"
  call_required :: "SetRequired option"

text \<open>
  The points between the sections, with the local variables of the call: \<open>latest_rev\<close>, the item,
  \<open>is_new_item\<close>, \<open>new_rev\<close>, and the values for the watchers.
\<close>

datatype set_pc =
  Ready
| Entering i64
| Indexing i64 item_ref
| Locking i64 item_ref bool
| Filling item_ref bool i64
| Notifying Value "Value option"
| Finished set_result

text \<open>
  The store, the threads and the item locks; \<open>st_history\<close> and \<open>st_log\<close> are auxiliary: the writes in
  the order of their revisions, and the calls with their results in the order of their decisions.
\<close>

record set_threads =
  st_store :: Store
  st_pc :: "nat \<Rightarrow> set_pc"
  st_locks :: "item_ref \<Rightarrow> nat option"
  st_history :: history
  st_log :: "(nat \<times> set_result) list"

definition threads_init :: "Store \<Rightarrow> history \<Rightarrow> set_threads" where
  "threads_init s h = \<lparr>st_store = s, st_pc = (\<lambda>_. Ready), st_locks = (\<lambda>_. None), st_history = h, st_log = []\<rparr>"

abbreviation goto :: "nat \<Rightarrow> set_pc \<Rightarrow> set_threads \<Rightarrow> set_threads" where
  "goto t p y \<equiv> y\<lparr>st_pc := (st_pc y)(t := p)\<rparr>"

section \<open>Sections\<close>

definition set_begin :: "nat \<Rightarrow> set_threads \<Rightarrow> set_threads" where
  "set_begin t y = goto t (Entering (current_revision (st_store y))) y"

text \<open>\<open>tree_map.entry(key)\<close>: an occupied entry gives its item, a vacant one a placeholder item.\<close>

definition set_enter :: "nat \<Rightarrow> byte_array \<Rightarrow> i64 \<Rightarrow> set_threads \<Rightarrow> set_threads" where
  "set_enter t key latest y =
     (let s = st_store y in
      case tree_map s key of
        Some r \<Rightarrow> goto t (Locking latest r False) y
      | None \<Rightarrow> goto t (Indexing latest (next_item s)) (y\<lparr>st_store := tree_map_insert s key (placeholder_item key)\<rparr>))"

definition set_index :: "nat \<Rightarrow> byte_array \<Rightarrow> i64 \<Rightarrow> item_ref \<Rightarrow> set_threads \<Rightarrow> set_threads" where
  "set_index t key latest r y =
     goto t (Locking latest r True) (y\<lparr>st_store := prefix_map_insert (st_store y) key r\<rparr>)"

text \<open>Under the lock: refuse the call, or drop compacted revisions, push the placeholder and keep the lock.\<close>

definition set_decide :: "nat \<Rightarrow> set_call \<Rightarrow> i64 \<Rightarrow> item_ref \<Rightarrow> bool \<Rightarrow> set_threads \<Rightarrow> set_threads run" where
  "set_decide t c latest r is_new y =
     (let s = st_store y; item = tree_items s r in
      case set_refused latest item (call_value c) (call_required c) of
        Some e \<Rightarrow> Returns (goto t (Finished (Inl e)) (y\<lparr>st_log := st_log y @ [(t, Inl e)]\<rparr>))
      | None \<Rightarrow>
          bind_run (bd_push (values_by_revision s) placeholder_value)
            (\<lambda>(index, d).
               let new_rev = int index + 1;
                   item' = item\<lparr>revisions := drain_compacted (compacted_revision s) (revisions item)\<rparr>
               in Returns (goto t (Filling r is_new new_rev)
                    (y\<lparr>st_store := s\<lparr>values_by_revision := d, tree_items := (tree_items s)(r := item')\<rparr>,
                       st_locks := (st_locks y)(r \<mapsto> t),
                       st_history := (call_key c, call_value c) # st_history y,
                       st_log := st_log y @ [(t, Inr new_rev)]\<rparr>))))"

definition set_fill :: "nat \<Rightarrow> set_call \<Rightarrow> item_ref \<Rightarrow> bool \<Rightarrow> i64 \<Rightarrow> set_threads \<Rightarrow> set_threads run" where
  "set_fill t c r is_new new_rev y =
     (let s = st_store y; item = tree_items s r;
          nv = new_value (latest_value item) new_rev (call_value c);
          old_value = (if is_new then None else Some (latest_value item))
      in bind_run (bd_set (values_by_revision s) (rev_index new_rev) nv)
           (\<lambda>(_, d). Returns (goto t (Notifying nv old_value)
              (y\<lparr>st_store := s\<lparr>values_by_revision := d, tree_items := (tree_items s)
                   (r := item\<lparr>latest_value := nv, revisions := revisions item @ [new_rev]\<rparr>)\<rparr>,
                 st_locks := (st_locks y)(r := None)\<rparr>))))"

definition set_notify :: "nat \<Rightarrow> set_call \<Rightarrow> Value \<Rightarrow> Value option \<Rightarrow> set_threads \<Rightarrow> set_threads" where
  "set_notify t c nv old_value y =
     goto t (Finished (Inr (mod_revision nv)))
       (y\<lparr>st_store := fst (notify_watchers (st_store y) (call_key c) nv old_value (fst (prefix_split (call_key c))))\<rparr>)"

inductive set_step :: "(nat \<Rightarrow> set_call) \<Rightarrow> set_threads \<Rightarrow> set_threads \<Rightarrow> bool" for calls where
  at_begin: "st_pc y t = Ready \<Longrightarrow> set_step calls y (set_begin t y)"
| at_enter: "st_pc y t = Entering latest \<Longrightarrow> set_step calls y (set_enter t (call_key (calls t)) latest y)"
| at_index: "st_pc y t = Indexing latest r \<Longrightarrow> set_step calls y (set_index t (call_key (calls t)) latest r y)"
| at_decide: "st_pc y t = Locking latest r is_new \<Longrightarrow> st_locks y r = None \<Longrightarrow>
    set_decide t (calls t) latest r is_new y = Returns y' \<Longrightarrow> set_step calls y y'"
| at_fill: "st_pc y t = Filling r is_new new_rev \<Longrightarrow> set_fill t (calls t) r is_new new_rev y = Returns y' \<Longrightarrow>
    set_step calls y y'"
| at_notify: "st_pc y t = Notifying nv old_value \<Longrightarrow> set_step calls y (set_notify t (calls t) nv old_value y)"
| at_compact: "store_compact (st_store y) n = Returns (s', res) \<Longrightarrow> set_step calls y (y\<lparr>st_store := s'\<rparr>)"

section \<open>The sequential specification\<close>

text \<open>
  The calls run one after the other against the history: an admitted one is answered with the next
  revision, a refused one with the live value of its key and a revision that may be older than the
  current one.
\<close>

fun sequential :: "(nat \<Rightarrow> set_call) \<Rightarrow> history \<Rightarrow> (nat \<times> set_result) list \<Rightarrow> history option" where
  "sequential calls h [] = Some h"
| "sequential calls h ((t, res) # log) =
     (let k = call_key (calls t); v = call_value (calls t) in
      if admits (hist_live h k) v (call_required (calls t))
      then if res = Inr (int (length h) + 1) then sequential calls ((k, v) # h) log else None
      else case res of
             Inl (r, x) \<Rightarrow>
               if r \<le> int (length h) \<and> x = map_option (\<lambda>x. as_mvcc_key_value x k) (hist_live h k)
               then sequential calls h log else None
           | Inr _ \<Rightarrow> None)"

lemma sequential_append:
  "sequential calls h (log @ log') = Option.bind (sequential calls h log) (\<lambda>h'. sequential calls h' log')"
  by (induction calls h log rule: sequential.induct) (auto simp: Let_def split: sum.splits)

section \<open>Histories with writes to other keys\<close>

lemma hist_other:
  "k \<notin> fst ` set later \<Longrightarrow> hist_latest (later @ h) k = hist_latest h k \<and> hist_revs (later @ h) k = hist_revs h k"
  by (induction later) auto

lemma hist_values_app: "\<exists>vs. hist_values (later @ h) = hist_values h @ vs \<and> length vs = length later"
proof (induction later)
  case (Cons w later)
  then show ?case by (cases w) auto
qed simp

lemma hist_values_at_write: "hist_values (later @ (k, v) # h) ! length h = write_value (hist_latest h k) (int (length h) + 1) v"
  using hist_values_app[of later "(k, v) # h"] by (auto simp: nth_append)

lemma item_repr_later: "k \<notin> fst ` set later \<Longrightarrow> item_repr (later @ h) e k it = item_repr h e k it"
  using hist_other[of k later h] by (simp add: item_repr_def)

section \<open>The log of values while calls are in progress\<close>

lemma log_ok_push:
  assumes "log_ok F h d"
  shows "\<exists>d'. bd_push d p = Returns (length h, d') \<and> earliest_revision d' = earliest_revision d \<and>
    log_ok (insert (length h) F) ((k, v) # h) d'"
proof -
  note d = log_okD[OF assms]
  from vlog.push_law[OF d(1), of p] d(2) obtain d' where
    d': "bd_push d p = Returns (length h, d')" "bd_invar d'" "earliest_revision d' = earliest_revision d"
      "bd_values d' = bd_values d @ [p]" by auto
  moreover have "latest_revision d' = Suc (length h)" using vlog.next_index[OF d'(2)] d'(3,4) d(4) by simp
  moreover have "bd_values d' ! (i - earliest_revision d) = hist_values ((k, v) # h) ! i"
    if "earliest_revision d \<le> i" "i < Suc (length h)" "i \<notin> insert (length h) F" for i
    using that assms d(4) by (auto simp: d'(4) log_ok_def nth_append)
  ultimately show ?thesis by (auto simp: log_ok_def simp del: hist_values.simps)
qed

lemma log_ok_fill:
  assumes "log_ok F h d" "i < length h"
  shows "\<exists>b d'. bd_set d i (hist_values h ! i) = Returns (b, d') \<and>
    earliest_revision d' = earliest_revision d \<and> log_ok (F - {i}) h d'"
proof (cases "earliest_revision d \<le> i")
  case True
  note d = log_okD[OF assms(1)]
  from vlog.put_law[OF d(1) True, of "hist_values h ! i"] d(2) assms(2) obtain d' where
    d': "bd_set d i (hist_values h ! i) = Returns (True, d')" "bd_invar d'" "earliest_revision d' = earliest_revision d"
      "bd_values d' = (bd_values d)[i - earliest_revision d := hist_values h ! i]" by auto
  moreover have "latest_revision d' = length h" using vlog.next_index[OF d'(2)] d'(3,4) d(4) by simp
  moreover have "bd_values d' ! (j - earliest_revision d) = hist_values h ! j"
    if "earliest_revision d \<le> j" "j < length h" "j \<notin> F - {i}" for j
    using that assms d(4) True by (cases "j = i") (auto simp: d'(4) log_ok_def nth_list_update)
  ultimately show ?thesis by (auto simp: log_ok_def)
next
  case False
  then have "bd_set d i (hist_values h ! i) = Returns (False, d)"
    using bd_set_out_of_range[OF bd_repr_self[OF log_okD(1)[OF assms(1)]]] by (simp add: earliest_revision_def)
  moreover have "log_ok (F - {i}) h d" using assms(1) False by (auto simp: log_ok_def)
  ultimately show ?thesis by auto
qed

lemma log_ok_compact:
  assumes "log_ok F h (values_by_revision s)" "store_compact s n = Returns (s', res)"
  shows "\<exists>d. s' = s\<lparr>values_by_revision := d\<rparr> \<and> log_ok F h d \<and>
    earliest_revision (values_by_revision s) \<le> earliest_revision d"
proof (cases "1 \<le> n \<and> n \<le> int (length h) \<and> earliest_revision (values_by_revision s) \<le> nat (n - 1)")
  case True
  let ?d = "values_by_revision s" and ?e = "earliest_revision (values_by_revision s)"
  note d = log_okD[OF assms(1)]
  have "nat (n - 1) \<le> latest_revision ?d" using True d(2) by auto
  with vlog.drop_law[OF d(1), of "nat (n - 1)"] True obtain d' where
    d': "bd_remove_before ?d (nat (n - 1)) = Returns (Inr (), d')" "bd_invar d'" "earliest_revision d' = nat (n - 1)"
      "bd_values d' = drop (nat (n - 1) - ?e) (bd_values ?d)" by auto
  have "latest_revision d' = length h" using vlog.next_index[OF d'(2)] d'(3,4) d(4) True by auto
  then have "log_ok F h d'" using assms(1) d'(2-4) True d(4) by (auto simp: log_ok_def nth_drop)
  moreover have "s' = s\<lparr>values_by_revision := d'\<rparr>"
    using assms(2) d'(1) True d(2) by (simp add: store_compact_def current_revision_def)
  ultimately show ?thesis using True d'(3) by auto
next
  case False
  have "s' = s"
  proof (cases "1 \<le> n \<and> n \<le> int (length h)")
    case True
    with False have "nat (n - 1) < start_offset (values_by_revision s)" by (simp add: earliest_revision_def)
    with assms log_okD[OF assms(1)] True show ?thesis
      using bd_remove_before_out_of_range[OF bd_repr_self[OF log_okD(1)[OF assms(1)]], of "nat (n - 1)"]
      by (auto simp: store_compact_def current_revision_def)
  next
    case False
    with assms(2) log_okD(2)[OF assms(1)] show ?thesis by (auto simp: store_compact_def current_revision_def)
  qed
  with assms(1) show ?thesis by (intro exI[of _ "values_by_revision s"]) simp
qed

end
