(* ===== verification/Set_Interleavings.thy ===== *)
theory Set_Interleavings
  imports Set_Threads Notify_Thread
begin

text \<open>
  What holds between any two sections of concurrent calls of \<open>Store::set\<close>: the two maps agree but
  for the keys being entered, the log is right but for the revisions being filled, an unlocked item
  shows the whole history of its key, and a locked one the history before the pending write. From
  this: every run is a sequential run, no section panics, no call is stuck, and the jobs sent are
  those of the revisions, in some order.
\<close>

section \<open>The invariant\<close>

definition indexing_keys :: "(nat \<Rightarrow> set_call) \<Rightarrow> (nat \<Rightarrow> set_pc) \<Rightarrow> byte_array set" where
  "indexing_keys calls pc = {call_key (calls t) | t l r. pc t = Indexing l r}"

definition unfilled :: "(nat \<Rightarrow> set_pc) \<Rightarrow> nat set" where
  "unfilled pc = {i. \<exists>t r b. pc t = Filling r b (int i + 1)}"

text \<open>The write of a call, as an entry of the history with older and later ones around it.\<close>

definition written :: "set_call \<Rightarrow> history \<Rightarrow> history \<Rightarrow> history \<Rightarrow> bool" where
  "written c later older h \<longleftrightarrow> h = later @ (call_key c, call_value c) # older"

definition thread_ok :: "set_call \<Rightarrow> nat \<Rightarrow> set_pc \<Rightarrow> Store \<Rightarrow> (item_ref \<Rightarrow> nat option) \<Rightarrow> history \<Rightarrow> bool" where
  "thread_ok c t p s locks h =
     (case p of
        Ready \<Rightarrow> True
      | Entering l \<Rightarrow> l \<le> int (length h)
      | Indexing l r \<Rightarrow> l \<le> int (length h) \<and> tree_map s (call_key c) = Some r
      | Locking l r is_new \<Rightarrow> l \<le> int (length h) \<and> tree_map s (call_key c) = Some r
      | Filling r is_new n \<Rightarrow> tree_map s (call_key c) = Some r \<and> locks r = Some t \<and>
          (\<exists>later older. written c later older h \<and> n = int (length older) + 1 \<and> call_key c \<notin> fst ` set later \<and>
             item_repr older (min (earliest_revision (values_by_revision s)) (length older)) (call_key c) (tree_items s r))
      | Notifying nv old \<Rightarrow>
          (\<exists>later older. written c later older h \<and>
             nv = write_value (hist_latest older (call_key c)) (int (length older) + 1) (call_value c))
      | Finished res \<Rightarrow> True)"

definition set_inv :: "(nat \<Rightarrow> set_call) \<Rightarrow> set_threads \<Rightarrow> bool" where
  "set_inv calls y \<longleftrightarrow>
     (let s = st_store y; h = st_history y; pc = st_pc y; locks = st_locks y in
      index_but (indexing_keys calls pc) s \<and>
      log_ok (unfilled pc) h (values_by_revision s) \<and>
      (\<forall>k. tree_map s k = None \<longrightarrow> hist_latest h k = None) \<and>
      (\<forall>k r. tree_map s k = Some r \<longrightarrow> locks r = None \<longrightarrow>
         item_repr h (earliest_revision (values_by_revision s)) k (tree_items s r)) \<and>
      (\<forall>t. thread_ok (calls t) t (pc t) s locks h) \<and>
      (\<forall>r t. locks r = Some t \<longrightarrow> (\<exists>b n. pc t = Filling r b n)))"

lemma set_invI:
  assumes "index_but P (st_store y)" "P \<subseteq> indexing_keys calls (st_pc y)"
    and "log_ok F (st_history y) (values_by_revision (st_store y))" "F \<subseteq> unfilled (st_pc y)"
    and "\<And>k. tree_map (st_store y) k = None \<Longrightarrow> hist_latest (st_history y) k = None"
    and "\<And>k r. tree_map (st_store y) k = Some r \<Longrightarrow> st_locks y r = None \<Longrightarrow>
      item_repr (st_history y) (earliest_revision (values_by_revision (st_store y))) k (tree_items (st_store y) r)"
    and "\<And>t. thread_ok (calls t) t (st_pc y t) (st_store y) (st_locks y) (st_history y)"
    and "\<And>r t. st_locks y r = Some t \<Longrightarrow> \<exists>b n. st_pc y t = Filling r b n"
  shows "set_inv calls y"
  using assms log_ok_mono index_but_mono unfolding set_inv_def Let_def by blast

lemma set_invD:
  assumes "set_inv calls y"
  shows "index_but (indexing_keys calls (st_pc y)) (st_store y)"
    "log_ok (unfilled (st_pc y)) (st_history y) (values_by_revision (st_store y))"
    "tree_map (st_store y) k = None \<Longrightarrow> hist_latest (st_history y) k = None"
    "tree_map (st_store y) k = Some r \<Longrightarrow> st_locks y r = None \<Longrightarrow>
      item_repr (st_history y) (earliest_revision (values_by_revision (st_store y))) k (tree_items (st_store y) r)"
    "thread_ok (calls t) t (st_pc y t) (st_store y) (st_locks y) (st_history y)"
    "st_locks y r = Some t \<Longrightarrow> \<exists>b n. st_pc y t = Filling r b n"
  using assms unfolding set_inv_def Let_def by blast+

lemma written_later: "written c later older h \<Longrightarrow> written c (new @ later) older (new @ h)"
  by (simp add: written_def)

lemma written_older: "written c later older h \<Longrightarrow> older = drop (length h - length older) h"
  by (simp add: written_def)

lemma thread_ok_frame:
  assumes "thread_ok c t p s L h"
    and "\<And>r. tree_map s (call_key c) = Some r \<Longrightarrow> tree_map s' (call_key c) = Some r"
    and "earliest_revision (values_by_revision s) \<le> earliest_revision (values_by_revision s')"
    and "h' = new @ h"
    and "\<And>r b n. p = Filling r b n \<Longrightarrow>
      L' r = L r \<and> tree_items s' r = tree_items s r \<and> call_key c \<notin> fst ` set new"
  shows "thread_ok c t p s' L' h'"
proof (cases p)
  case (Filling r b n)
  then obtain later older where tm: "tree_map s (call_key c) = Some r" "L r = Some t" and w: "written c later older h"
    and n: "n = int (length older) + 1" "call_key c \<notin> fst ` set later"
    and it: "item_repr older (min (earliest_revision (values_by_revision s)) (length older)) (call_key c) (tree_items s r)"
    using assms(1) by (auto simp: thread_ok_def)
  have "item_repr older (min (earliest_revision (values_by_revision s')) (length older)) (call_key c) (tree_items s r)"
    by (rule item_repr_mono[OF it]) (use assms(3) in auto)
  moreover have "call_key c \<notin> fst ` set (new @ later)" using n(2) assms(5)[OF Filling] by auto
  ultimately have "\<exists>later older. written c later older h' \<and> n = int (length older) + 1 \<and> call_key c \<notin> fst ` set later \<and>
      item_repr older (min (earliest_revision (values_by_revision s')) (length older)) (call_key c) (tree_items s' r)"
    using written_later[OF w, of new] n(1) assms(4) assms(5)[OF Filling] by metis
  then show ?thesis using assms(2)[OF tm(1)] tm(2) assms(5)[OF Filling] Filling by (simp add: thread_ok_def)
next
  case (Notifying nv old)
  then obtain later older where w: "written c later older h"
    and nv: "nv = write_value (hist_latest older (call_key c)) (int (length older) + 1) (call_value c)"
    using assms(1) by (auto simp: thread_ok_def)
  then show ?thesis using written_later[OF w, of new] assms(4) Notifying unfolding thread_ok_def by auto
qed (use assms(1,2,4) in \<open>auto simp: thread_ok_def\<close>)

text \<open>A step of one thread that leaves the history alone, and the items of the pending writes.\<close>

lemma threads_ok_step:
  assumes "set_inv calls y" "\<And>t'. t' \<noteq> t \<Longrightarrow> pc' t' = st_pc y t'"
    and "thread_ok (calls t) t (pc' t) s' L' (new @ st_history y)"
    and "\<And>k r. tree_map (st_store y) k = Some r \<Longrightarrow> tree_map s' k = Some r"
    and "earliest_revision (values_by_revision (st_store y)) \<le> earliest_revision (values_by_revision s')"
    and "\<And>t' r b n. t' \<noteq> t \<Longrightarrow> st_pc y t' = Filling r b n \<Longrightarrow>
      L' r = st_locks y r \<and> tree_items s' r = tree_items (st_store y) r \<and> call_key (calls t') \<notin> fst ` set new"
  shows "thread_ok (calls t') t' (pc' t') s' L' (new @ st_history y)"
proof (cases "t' = t")
  case False
  then show ?thesis
    using thread_ok_frame[OF set_invD(5)[OF assms(1), of t'] _ assms(5) refl] assms(2)[OF False] assms(4,6) by metis
qed (use assms(3) in simp)

lemma indexing_keys_upd:
  "indexing_keys calls pc - {call_key (calls t)} \<subseteq> indexing_keys calls (pc(t := p))"
  unfolding indexing_keys_def by auto

lemma indexing_keys_keep: "(\<nexists>l r. pc t = Indexing l r) \<Longrightarrow> indexing_keys calls pc \<subseteq> indexing_keys calls (pc(t := p))"
  unfolding indexing_keys_def by auto

lemma unfilled_upd: "pc t = Filling r b (int i + 1) \<Longrightarrow> unfilled pc - {i} \<subseteq> unfilled (pc(t := p))"
proof
  fix j assume pc: "pc t = Filling r b (int i + 1)" and "j \<in> unfilled pc - {i}"
  then obtain t' r' b' where "pc t' = Filling r' b' (int j + 1)" "j \<noteq> i" by (auto simp: unfilled_def)
  with pc show "j \<in> unfilled (pc(t := p))" unfolding unfilled_def by (cases "t' = t") auto
qed

lemma unfilled_keep: "(\<nexists>r b n. pc t = Filling r b n) \<Longrightarrow> unfilled pc \<subseteq> unfilled (pc(t := p))"
proof
  fix j assume pc: "\<nexists>r b n. pc t = Filling r b n" and "j \<in> unfilled pc"
  then obtain t' r b where "pc t' = Filling r b (int j + 1)" by (auto simp: unfilled_def)
  with pc show "j \<in> unfilled (pc(t := p))" unfolding unfilled_def by (cases "t' = t") auto
qed

section \<open>The sections keep it\<close>

lemma placeholder_repr: "hist_latest h k = None \<Longrightarrow> item_repr h e k (placeholder_item k)"
  using hist_latest_None_iff[of h k] by (auto simp: item_repr_def placeholder_item_def)

text \<open>The sections that write no value: new keys get placeholders, everything else is kept.\<close>

lemma set_inv_quiet:
  assumes inv: "set_inv calls y" and pc: "\<nexists>r b n. st_pc y t = Filling r b n"
    and y': "st_store y' = s'" "st_pc y' = (st_pc y)(t := p)" "st_locks y' = st_locks y" "st_history y' = st_history y"
    and s': "values_by_revision s' = values_by_revision (st_store y)"
      "index_but P s'" "P \<subseteq> indexing_keys calls ((st_pc y)(t := p))"
    and old: "\<And>k r. tree_map (st_store y) k = Some r \<Longrightarrow>
      tree_map s' k = Some r \<and> tree_items s' r = tree_items (st_store y) r"
    and new: "\<And>k r. tree_map (st_store y) k = None \<Longrightarrow> tree_map s' k = Some r \<Longrightarrow> tree_items s' r = placeholder_item k"
    and ok: "thread_ok (calls t) t p s' (st_locks y) (st_history y)"
  shows "set_inv calls y'"
proof (rule set_invI[where P = P and F = "unfilled (st_pc y)"])
  have items: "tree_items s' r = tree_items (st_store y) r" if "st_pc y t' = Filling r b n" for t' r b n
    using set_invD(5)[OF inv, of t'] that old by (auto simp: thread_ok_def)
  show "thread_ok (calls t') t' (st_pc y' t') (st_store y') (st_locks y') (st_history y')" for t'
    using threads_ok_step[OF inv, where t = t and pc' = "st_pc y'" and new = "[]" and t' = t' and s' = s'
        and L' = "st_locks y"] ok old items by (simp add: y' s')
  show "item_repr (st_history y') (earliest_revision (values_by_revision (st_store y'))) k (tree_items (st_store y') r)"
    if "tree_map (st_store y') k = Some r" "st_locks y' r = None" for k r
  proof (cases "tree_map (st_store y) k")
    case None
    with that new show ?thesis using placeholder_repr[OF set_invD(3)[OF inv None]] by (simp add: y')
  next
    case (Some q)
    with that old[OF Some] set_invD(4)[OF inv, of k r] show ?thesis by (simp add: y' s')
  qed
  show "hist_latest (st_history y') k = None" if "tree_map (st_store y') k = None" for k
    using that old[of k] set_invD(3)[OF inv, of k] by (cases "tree_map (st_store y) k") (simp_all add: y')
  show "\<exists>b n. st_pc y' t' = Filling r b n" if "st_locks y' r = Some t'" for r t'
    using set_invD(6)[OF inv, of r t'] that pc by (auto simp: y')
qed (use s' set_invD(2)[OF inv] unfilled_keep[where pc = "st_pc y" and t = t, OF pc] in \<open>simp_all add: y'\<close>)

lemma set_inv_begin:
  assumes "set_inv calls y" "st_pc y t = Ready"
  shows "set_inv calls (set_begin t y)"
  using set_invD(1)[OF assms(1)] log_okD(2)[OF set_invD(2)[OF assms(1)]] indexing_keys_keep[of "st_pc y" t calls] assms(2)
  by (intro set_inv_quiet[OF assms(1), where t = t and P = "indexing_keys calls (st_pc y)" and
        p = "Entering (current_revision (st_store y))"])
    (auto simp: set_begin_def thread_ok_def current_revision_def)

lemma set_inv_enter:
  assumes inv: "set_inv calls y" and pc: "st_pc y t = Entering latest"
  shows "set_inv calls (set_enter t (call_key (calls t)) latest y)"
proof (cases "tree_map (st_store y) (call_key (calls t))")
  case (Some r)
  show ?thesis
    using set_invD(1)[OF inv] set_invD(5)[OF inv, of t] indexing_keys_keep[of "st_pc y" t calls] pc Some
    by (intro set_inv_quiet[OF inv, where t = t and P = "indexing_keys calls (st_pc y)" and p = "Locking latest r False"])
      (auto simp: set_enter_def thread_ok_def)
next
  case None
  let ?k = "call_key (calls t)" and ?s = "st_store y"
  let ?s' = "tree_map_insert ?s ?k (placeholder_item ?k)" and ?p = "Indexing latest (next_item ?s)"
  have ix: "index_but (insert ?k (indexing_keys calls (st_pc y))) ?s'"
    using index_but_tree_map_insert[OF set_invD(1)[OF inv] None] by (simp add: placeholder_item_def)
  have keys: "insert ?k (indexing_keys calls (st_pc y)) \<subseteq> indexing_keys calls ((st_pc y)(t := ?p))"
    using indexing_keys_keep[of "st_pc y" t calls ?p] pc by (auto simp: indexing_keys_def)
  have fresh: "r \<noteq> next_item ?s" if "tree_map ?s k = Some r" for k r
    using set_invD(1)[OF inv] that unfolding index_but_def by blast
  show ?thesis
    by (rule set_inv_quiet[OF inv, where t = t and p = ?p and s' = ?s', OF _ _ _ _ _ _ ix keys])
      (use pc None fresh set_invD(5)[OF inv, of t] in
        \<open>auto simp: set_enter_def tree_map_insert_def thread_ok_def Let_def split: if_splits\<close>)
qed

lemma prefix_map_insert_frame:
  "tree_map (prefix_map_insert s k r) = tree_map s" "tree_items (prefix_map_insert s k r) = tree_items s"
  "values_by_revision (prefix_map_insert s k r) = values_by_revision s"
  "notify_tx (prefix_map_insert s k r) = notify_tx s"
  by (simp_all add: prefix_map_insert_def Let_def split: prod.split)

lemma set_inv_index:
  assumes inv: "set_inv calls y" and pc: "st_pc y t = Indexing latest r"
  shows "set_inv calls (set_index t (call_key (calls t)) latest r y)"
proof -
  have r: "tree_map (st_store y) (call_key (calls t)) = Some r" "latest \<le> int (length (st_history y))"
    using set_invD(5)[OF inv, of t] pc by (simp_all add: thread_ok_def)
  note ix = index_but_prefix_map_insert[OF set_invD(1)[OF inv] r(1)]
  show ?thesis
    by (rule set_inv_quiet[OF inv, where t = t and p = "Locking latest r True", OF _ _ _ _ _ _ ix indexing_keys_upd])
      (use pc r in \<open>auto simp: set_index_def thread_ok_def prefix_map_insert_frame\<close>)
qed

lemma set_inv_notify:
  assumes inv: "set_inv calls y" and pc: "st_pc y t = Notifying nv old"
  shows "set_inv calls (set_notify t (calls t) nv old y)"
proof -
  let ?s' = "fst (notify_watchers (st_store y) (call_key (calls t)) nv old (fst (prefix_split (call_key (calls t)))))"
  have s': "prefix_map ?s' = prefix_map (st_store y)" "tree_map ?s' = tree_map (st_store y)"
    "tree_items ?s' = tree_items (st_store y)" "next_item ?s' = next_item (st_store y)"
    "values_by_revision ?s' = values_by_revision (st_store y)"
    by (simp_all add: notify_watchers_def Let_def)
  show ?thesis
    by (rule set_inv_quiet[OF inv, where t = t and p = "Finished (Inr (mod_revision nv))" and s' = ?s' and
          P = "indexing_keys calls (st_pc y)"])
      (use pc s' set_invD(1)[OF inv] indexing_keys_keep[of "st_pc y" t calls] index_wf_cong[OF s'(1-4)] in
        \<open>auto simp: set_notify_def thread_ok_def\<close>)
qed

lemma index_but_inj:
  "index_but P s \<Longrightarrow> tree_map s k = Some r \<Longrightarrow> tree_map s k' = Some r \<Longrightarrow> k = k'"
  unfolding index_but_def by metis

lemma index_but_values_item:
  assumes "index_but P s" "item_key it = item_key (tree_items s r)"
  shows "index_but P (s\<lparr>values_by_revision := d, tree_items := (tree_items s)(r := it)\<rparr>)"
  using index_wf_update_item[OF assms] by (simp add: index_but_def)

text \<open>
  Under the lock, a call is refused or admitted as the history says, and an admitted one returns. The
  two states that follow:
\<close>

definition after_refusal :: "nat \<Rightarrow> set_call \<Rightarrow> i64 \<Rightarrow> set_threads \<Rightarrow> set_threads" where
  "after_refusal t c latest y =
     (let e = (latest, map_option (\<lambda>x. as_mvcc_key_value x (call_key c)) (hist_live (st_history y) (call_key c)))
      in goto t (Finished (Inl e)) (y\<lparr>st_log := st_log y @ [(t, Inl e)]\<rparr>))"

definition after_admission ::
    "nat \<Rightarrow> set_call \<Rightarrow> item_ref \<Rightarrow> bool \<Rightarrow> Value block_deque \<Rightarrow> set_threads \<Rightarrow> set_threads" where
  "after_admission t c r is_new d y =
     (let s = st_store y; h = st_history y; item = tree_items s r;
          item' = item\<lparr>revisions := drain_compacted (compacted_revision s) (revisions item)\<rparr>
      in goto t (Filling r is_new (int (length h) + 1))
           (y\<lparr>st_store := s\<lparr>values_by_revision := d, tree_items := (tree_items s)(r := item')\<rparr>,
              st_locks := (st_locks y)(r \<mapsto> t), st_history := (call_key c, call_value c) # h,
              st_log := st_log y @ [(t, Inr (int (length h) + 1))]\<rparr>))"

lemma set_decide_cases:
  assumes inv: "set_inv calls y" and pc: "st_pc y t = Locking latest r is_new" and free: "st_locks y r = None"
  defines "k \<equiv> call_key (calls t)" and "v \<equiv> call_value (calls t)" and "s \<equiv> st_store y" and "h \<equiv> st_history y"
  shows "\<exists>d. earliest_revision d = earliest_revision (values_by_revision s) \<and>
    log_ok (insert (length h) (unfilled (st_pc y))) ((k, v) # h) d \<and>
    set_decide t (calls t) latest r is_new y =
      Returns (if admits (hist_live h k) v (call_required (calls t))
               then after_admission t (calls t) r is_new d y else after_refusal t (calls t) latest y)"
proof -
  have r: "tree_map s k = Some r"
    using set_invD(5)[OF inv, of t] pc by (simp add: thread_ok_def k_def s_def)
  then have key: "item_key (tree_items s r) = k"
    using set_invD(1)[OF inv] unfolding index_but_def s_def by blast
  have it: "item_repr h (earliest_revision (values_by_revision s)) k (tree_items s r)"
    using set_invD(4)[OF inv, of k r] r free by (simp add: s_def h_def)
  obtain d where d: "bd_push (values_by_revision s) placeholder_value = Returns (length h, d)"
    "earliest_revision d = earliest_revision (values_by_revision s)"
    "log_ok (insert (length h) (unfilled (st_pc y))) ((k, v) # h) d"
    using log_ok_push[OF set_invD(2)[OF inv]] unfolding s_def h_def by blast
  then show ?thesis
    using set_refused_iff[OF it key, of latest v "call_required (calls t)"]
    by (intro exI[of _ d]) (simp add: set_decide_def after_admission_def after_refusal_def
        s_def[symmetric] h_def[symmetric] k_def[symmetric] v_def[symmetric] Let_def del: fun_upd_apply)
qed

lemma set_inv_admitted:
  assumes inv: "set_inv calls y" and pc: "st_pc y t = Locking latest r is_new" and free: "st_locks y r = None"
    and d: "earliest_revision d = earliest_revision (values_by_revision (st_store y))"
      "log_ok (insert (length (st_history y)) (unfilled (st_pc y)))
        ((call_key (calls t), call_value (calls t)) # st_history y) d"
  shows "set_inv calls (after_admission t (calls t) r is_new d y)"
proof (rule set_invI[where P = "indexing_keys calls (st_pc y)"])
  let ?s = "st_store y" and ?h = "st_history y" and ?k = "call_key (calls t)" and ?v = "call_value (calls t)"
  let ?y = "after_admission t (calls t) r is_new d y"
  note y' = after_admission_def[of t "calls t" r is_new d y, unfolded Let_def]
  let ?e = "earliest_revision (values_by_revision ?s)"
  have r: "tree_map ?s ?k = Some r" using set_invD(5)[OF inv, of t] pc by (simp add: thread_ok_def)
  have it: "item_repr ?h ?e ?k (tree_items ?s r)" using set_invD(4)[OF inv r free] .
  have le: "?e \<le> length ?h" using log_okD(3)[OF set_invD(2)[OF inv]] .
  have it': "item_repr ?h ?e ?k (tree_items (st_store ?y) r)"
    using it item_repr_revs[OF it] drain_compacted_repr
    by (auto simp: y' item_repr_def compacted_revision_def)
  have other: "k' \<noteq> ?k \<and> r' \<noteq> r" if "tree_map ?s k' = Some r'" "st_locks y r' \<noteq> None \<or> r' \<noteq> r" for k' r'
    using that r free index_but_inj[OF set_invD(1)[OF inv]] by (metis option.inject)
  have "thread_ok (calls t) t (st_pc ?y t) (st_store ?y) (st_locks ?y) ([(?k, ?v)] @ ?h)"
    unfolding y' thread_ok_def
    by (simp, intro conjI exI[of _ "[] :: history", OF exI[of _ ?h]])
      (use r it' le d(1) in \<open>simp_all add: y' written_def min_absorb1\<close>)
  moreover have "st_locks ?y q = st_locks y q \<and> tree_items (st_store ?y) q = tree_items ?s q \<and>
      call_key (calls t') \<notin> fst ` set [(?k, ?v)]" if "st_pc y t' = Filling q b n" for t' q b n
    using set_invD(5)[OF inv, of t'] that other[of "call_key (calls t')" q] by (auto simp: thread_ok_def y')
  ultimately show "thread_ok (calls t') t' (st_pc ?y t') (st_store ?y) (st_locks ?y) (st_history ?y)" for t'
    using threads_ok_step[OF inv, where t = t and pc' = "st_pc ?y" and new = "[(?k, ?v)]" and t' = t' and
        s' = "st_store ?y" and L' = "st_locks ?y"] d(1) by (simp add: y')
  show "item_repr (st_history ?y) (earliest_revision (values_by_revision (st_store ?y))) k (tree_items (st_store ?y) q)"
    if "tree_map (st_store ?y) k = Some q" "st_locks ?y q = None" for k q
  proof -
    have q: "tree_map ?s k = Some q" "q \<noteq> r" "st_locks y q = None" using that by (auto simp: y' split: if_splits)
    with other[of k q] set_invD(4)[OF inv, of k q] d(1) show ?thesis by (simp add: y' item_repr_other)
  qed
  show "hist_latest (st_history ?y) k = None" if "tree_map (st_store ?y) k = None" for k
    using that set_invD(3)[OF inv, of k] r by (auto simp: y')
  show "index_but (indexing_keys calls (st_pc y)) (st_store ?y)"
    using index_but_values_item[OF set_invD(1)[OF inv]] by (simp add: y')
  show "indexing_keys calls (st_pc y) \<subseteq> indexing_keys calls (st_pc ?y)"
    using indexing_keys_keep[of "st_pc y" t calls] pc by (simp add: y')
  show "log_ok (insert (length ?h) (unfilled (st_pc y))) (st_history ?y) (values_by_revision (st_store ?y))"
    using d(2) by (simp add: y')
  show "insert (length ?h) (unfilled (st_pc y)) \<subseteq> unfilled (st_pc ?y)"
    using unfilled_keep[of "st_pc y" t] pc by (auto simp: y' unfilled_def)
  show "\<exists>b n. st_pc ?y t' = Filling q b n" if "st_locks ?y q = Some t'" for q t'
    using that set_invD(6)[OF inv, of q t'] pc by (auto simp: y' split: if_splits)
qed

definition after_fill :: "nat \<Rightarrow> item_ref \<Rightarrow> bool \<Rightarrow> Value \<Rightarrow> Value block_deque \<Rightarrow> set_threads \<Rightarrow> set_threads" where
  "after_fill t r is_new nv d y =
     (let s = st_store y; item = tree_items s r
      in goto t (Notifying nv (if is_new then None else Some (latest_value item)))
           (y\<lparr>st_store := s\<lparr>values_by_revision := d, tree_items := (tree_items s)
                (r := item\<lparr>latest_value := nv, revisions := revisions item @ [mod_revision nv]\<rparr>)\<rparr>,
              st_locks := (st_locks y)(r := None)\<rparr>))"

lemma set_fill_returns:
  assumes inv: "set_inv calls y" and pc: "st_pc y t = Filling r is_new n"
  obtains later older d where
    "written (calls t) later older (st_history y)" "n = int (length older) + 1" "call_key (calls t) \<notin> fst ` set later"
    "earliest_revision d = earliest_revision (values_by_revision (st_store y))"
    "log_ok (unfilled (st_pc y) - {length older}) (st_history y) d"
    "set_fill t (calls t) r is_new n y =
      Returns (after_fill t r is_new (write_value (hist_latest older (call_key (calls t))) n (call_value (calls t))) d y)"
proof -
  let ?k = "call_key (calls t)" and ?v = "call_value (calls t)" and ?s = "st_store y" and ?h = "st_history y"
  obtain later older where w: "?h = later @ (?k, ?v) # older" "n = int (length older) + 1" "?k \<notin> fst ` set later"
    and it: "item_repr older (min (earliest_revision (values_by_revision ?s)) (length older)) ?k (tree_items ?s r)"
    using set_invD(5)[OF inv, of t] pc by (auto simp: thread_ok_def written_def)
  let ?nv = "write_value (hist_latest older ?k) n ?v"
  have nv: "new_value (latest_value (tree_items ?s r)) n ?v = ?nv" using new_value_repr[OF it] .
  have at: "hist_values ?h ! length older = ?nv" unfolding w by (rule hist_values_at_write)
  from log_ok_fill[OF set_invD(2)[OF inv], of "length older"] obtain b d where
    "bd_set (values_by_revision ?s) (rev_index n) ?nv = Returns (b, d)"
    "earliest_revision d = earliest_revision (values_by_revision ?s)" "log_ok (unfilled (st_pc y) - {length older}) ?h d"
    using at w(1,2) by (auto simp: rev_index_of_slot)
  then show thesis
    using that[of later older d] w nv by (simp add: set_fill_def after_fill_def Let_def written_def)
qed

lemma item_repr_filled:
  assumes inv: "set_inv calls y" and pc: "st_pc y t = Filling r is_new n"
    and w: "written (calls t) later older (st_history y)" "n = int (length older) + 1" "call_key (calls t) \<notin> fst ` set later"
    and it: "it = (tree_items (st_store y) r)\<lparr>latest_value := write_value (hist_latest older (call_key (calls t))) n (call_value (calls t)),
      revisions := revisions (tree_items (st_store y) r) @ [n]\<rparr>"
  shows "item_repr (st_history y) (earliest_revision (values_by_revision (st_store y))) (call_key (calls t)) it"
proof -
  let ?k = "call_key (calls t)" and ?e = "earliest_revision (values_by_revision (st_store y))"
  obtain later' older' where w': "written (calls t) later' older' (st_history y)" "n = int (length older') + 1"
    and repr: "item_repr older' (min ?e (length older')) ?k (tree_items (st_store y) r)"
    using set_invD(5)[OF inv, of t] pc by (auto simp: thread_ok_def)
  have "older' = older" using written_older[OF w(1)] written_older[OF w'(1)] w(2) w'(2) by simp
  with item_repr_revs[OF repr] w(2) it have "item_repr ((?k, call_value (calls t)) # older) (min ?e (length older)) ?k it"
    by (auto intro!: item_repr_written)
  then have "item_repr ((?k, call_value (calls t)) # older) ?e ?k it" by (rule item_repr_mono) simp
  then show ?thesis using w(1,3) item_repr_later[of ?k later] by (simp add: written_def)
qed

lemma set_inv_fill:
  assumes inv: "set_inv calls y" and pc: "st_pc y t = Filling r is_new n"
    and run: "set_fill t (calls t) r is_new n y = Returns y'"
  shows "set_inv calls y'"
proof -
  let ?k = "call_key (calls t)" and ?v = "call_value (calls t)" and ?s = "st_store y" and ?h = "st_history y"
  let ?e = "earliest_revision (values_by_revision ?s)"
  from set_fill_returns[OF inv pc] obtain later older d where
    w: "written (calls t) later older ?h" "n = int (length older) + 1" "?k \<notin> fst ` set later"
    and d: "earliest_revision d = ?e" "log_ok (unfilled (st_pc y) - {length older}) ?h d"
    and fill: "set_fill t (calls t) r is_new n y = Returns (after_fill t r is_new (write_value (hist_latest older ?k) n ?v) d y)" .
  let ?nv = "write_value (hist_latest older ?k) n ?v"
  let ?it = "(tree_items ?s r)\<lparr>latest_value := ?nv, revisions := revisions (tree_items ?s r) @ [n]\<rparr>"
  have y': "st_store y' = ?s\<lparr>values_by_revision := d, tree_items := (tree_items ?s)(r := ?it)\<rparr>"
    "st_pc y' = (st_pc y)(t := Notifying ?nv (if is_new then None else Some (latest_value (tree_items ?s r))))"
    "st_locks y' = (st_locks y)(r := None)" "st_history y' = ?h"
    using run fill by (auto simp: after_fill_def Let_def)
  have r: "tree_map ?s ?k = Some r" "st_locks y r = Some t"
    using set_invD(5)[OF inv, of t] pc by (simp_all add: thread_ok_def)
  have it: "item_repr ?h ?e ?k ?it" by (rule item_repr_filled[OF inv pc w(1,2,3)]) (rule refl)
  show ?thesis
  proof (rule set_invI[where P = "indexing_keys calls (st_pc y)" and F = "unfilled (st_pc y) - {length older}"])
    have "thread_ok (calls t) t (st_pc y' t) (st_store y') (st_locks y') ?h"
      using w by (auto simp: thread_ok_def y'(2))
    moreover have "st_locks y' q = st_locks y q \<and> tree_items (st_store y') q = tree_items ?s q"
      if "t' \<noteq> t" "st_pc y t' = Filling q b m" for t' q b m
      using set_invD(5)[OF inv, of t'] that r(2) by (auto simp: thread_ok_def y')
    ultimately show "thread_ok (calls t') t' (st_pc y' t') (st_store y') (st_locks y') (st_history y')" for t'
      using threads_ok_step[OF inv, where t = t and pc' = "st_pc y'" and new = "[]" and t' = t' and
          s' = "st_store y'" and L' = "st_locks y'"] d(1) by (simp add: y')
    show "item_repr (st_history y') (earliest_revision (values_by_revision (st_store y'))) k (tree_items (st_store y') q)"
      if "tree_map (st_store y') k = Some q" "st_locks y' q = None" for k q
      using that it r(1) set_invD(4)[OF inv, of k q] index_but_inj[OF set_invD(1)[OF inv], of k r ?k] d(1)
      by (cases "q = r") (simp_all add: y')
    show "\<exists>b n. st_pc y' t' = Filling q b n" if "st_locks y' q = Some t'" for q t'
      using that set_invD(6)[OF inv, of q t'] pc by (auto simp: y' split: if_splits)
  qed (use set_invD(3)[OF inv] d(2) pc w(2) indexing_keys_keep[of "st_pc y" t calls] unfilled_upd[of "st_pc y" t]
      index_but_values_item[OF set_invD(1)[OF inv]] in \<open>simp_all add: y'\<close>)
qed

lemma set_inv_compact:
  assumes inv: "set_inv calls y" and run: "store_compact (st_store y) n = Returns (s', res)"
  shows "set_inv calls (y\<lparr>st_store := s'\<rparr>)"
proof -
  from log_ok_compact[OF set_invD(2)[OF inv] run] obtain d where
    s': "s' = (st_store y)\<lparr>values_by_revision := d\<rparr>" and d: "log_ok (unfilled (st_pc y)) (st_history y) d"
    and e: "earliest_revision (values_by_revision (st_store y)) \<le> earliest_revision d" by blast
  show ?thesis
  proof (rule set_invI[where P = "indexing_keys calls (st_pc y)" and F = "unfilled (st_pc y)"])
    show "thread_ok (calls t) t (st_pc (y\<lparr>st_store := s'\<rparr>) t) (st_store (y\<lparr>st_store := s'\<rparr>))
        (st_locks (y\<lparr>st_store := s'\<rparr>)) (st_history (y\<lparr>st_store := s'\<rparr>))" for t
      using thread_ok_frame[OF set_invD(5)[OF inv, of t], where s' = s' and new = "[]" and L' = "st_locks y"] e
      by (simp add: s')
    show "index_but (indexing_keys calls (st_pc y)) (st_store (y\<lparr>st_store := s'\<rparr>))"
      using set_invD(1)[OF inv] index_wf_cong[of s' "st_store y"] by (simp add: s')
  qed (use set_invD(3,4,6)[OF inv] d item_repr_mono[OF _ e] in \<open>simp_all add: s'\<close>)
qed

lemma set_inv_step:
  assumes "set_step calls y y'" "set_inv calls y"
  shows "set_inv calls y'"
  using assms
proof (cases rule: set_step.cases)
  case (at_decide t latest r is_new)
  let ?k = "call_key (calls t)" and ?h = "st_history y"
  obtain d where d: "earliest_revision d = earliest_revision (values_by_revision (st_store y))"
      "log_ok (insert (length ?h) (unfilled (st_pc y))) ((?k, call_value (calls t)) # ?h) d"
    and run: "y' = (if admits (hist_live ?h ?k) (call_value (calls t)) (call_required (calls t))
      then after_admission t (calls t) r is_new d y else after_refusal t (calls t) latest y)"
    using set_decide_cases[OF assms(2) at_decide(1,2)] at_decide(3) by auto
  have "set_inv calls (after_refusal t (calls t) latest y)"
    by (rule set_inv_quiet[OF assms(2), where t = t and s' = "st_store y" and P = "indexing_keys calls (st_pc y)" and
          p = "Finished (Inl (latest, map_option (\<lambda>x. as_mvcc_key_value x ?k) (hist_live ?h ?k)))"])
      (use at_decide(1) set_invD(1)[OF assms(2)] indexing_keys_keep[of "st_pc y" t calls] in
        \<open>auto simp: after_refusal_def thread_ok_def Let_def\<close>)
  with set_inv_admitted[OF assms(2) at_decide(1,2) d] run show ?thesis by simp
qed (blast intro: set_inv_begin set_inv_enter set_inv_index set_inv_notify set_inv_fill set_inv_compact)+

section \<open>Results and jobs\<close>

text \<open>A call has its result from the moment it is decided.\<close>

fun decided :: "set_pc \<Rightarrow> set_result option" where
  "decided (Filling r b n) = Some (Inr n)"
| "decided (Notifying nv old) = Some (Inr (mod_revision nv))"
| "decided (Finished res) = Some res"
| "decided p = None"

definition results_ok :: "(nat \<Rightarrow> set_call) \<Rightarrow> history \<Rightarrow> set_threads \<Rightarrow> bool" where
  "results_ok calls h0 y \<longleftrightarrow>
     sequential calls h0 (st_log y) = Some (st_history y) \<and> distinct (map fst (st_log y)) \<and>
     (\<forall>t res. (t, res) \<in> set (st_log y) \<longleftrightarrow> decided (st_pc y t) = Some res)"

lemma results_okI:
  assumes "results_ok calls h0 y" "st_log y' = st_log y" "st_history y' = st_history y"
    "\<And>t. decided (st_pc y' t) = decided (st_pc y t)"
  shows "results_ok calls h0 y'"
  using assms by (simp add: results_ok_def)

lemma results_ok_decide:
  assumes ok: "results_ok calls h0 y" and pc: "decided (st_pc y t) = None" "decided (st_pc y' t) = Some res"
    "\<And>t'. t' \<noteq> t \<Longrightarrow> st_pc y' t' = st_pc y t'" "st_log y' = st_log y @ [(t, res)]"
    and seq: "sequential calls (st_history y) [(t, res)] = Some (st_history y')"
  shows "results_ok calls h0 y'"
proof -
  have fresh: "(t, x) \<notin> set (st_log y)" for x using ok pc(1) by (auto simp: results_ok_def)
  then have "t \<notin> fst ` set (st_log y)" by auto
  moreover have "(t', x) \<in> set (st_log y') \<longleftrightarrow> decided (st_pc y' t') = Some x" for t' x
    using ok fresh pc(2,3) unfolding pc(4) results_ok_def by (cases "t' = t") auto
  ultimately show ?thesis
    using ok seq pc(4) by (simp add: results_ok_def sequential_append)
qed

lemma results_ok_step:
  assumes "set_step calls y y'" "set_inv calls y" "results_ok calls h0 y"
  shows "results_ok calls h0 y'"
  using assms(1)
proof (cases rule: set_step.cases)
  case (at_decide t latest r is_new)
  obtain d where y': "y' = (if admits (hist_live (st_history y) (call_key (calls t))) (call_value (calls t)) (call_required (calls t))
      then after_admission t (calls t) r is_new d y else after_refusal t (calls t) latest y)"
    using set_decide_cases[OF assms(2) at_decide(1,2)] at_decide(3) by auto
  have "latest \<le> int (length (st_history y))" using set_invD(5)[OF assms(2), of t] at_decide(1) by (simp add: thread_ok_def)
  then show ?thesis
    by (intro results_ok_decide[OF assms(3), where t = t and res = "snd (last (st_log y'))"])
      (auto simp: at_decide(1) y' after_admission_def after_refusal_def Let_def)
next
  case (at_fill t r is_new n)
  from set_fill_returns[OF assms(2) at_fill(1)] at_fill(2) obtain older d where
    "y' = after_fill t r is_new (write_value (hist_latest older (call_key (calls t))) n (call_value (calls t))) d y"
    by (metis run.inject)
  then show ?thesis by (intro results_okI[OF assms(3)]) (auto simp: at_fill(1) after_fill_def Let_def)
qed (rule results_okI[OF assms(3)];
    auto simp: set_begin_def set_enter_def set_index_def set_notify_def Let_def split: option.split)+

text \<open>The revisions of a sequential run: each call that is admitted takes the next one.\<close>

lemma sequential_ConsE:
  assumes "sequential calls h0 ((t, res) # log) = Some h"
  obtains (admitted) "res = Inr (int (length h0) + 1)" "sequential calls ((call_key (calls t), call_value (calls t)) # h0) log = Some h"
  | (refused) e where "res = Inl e" "sequential calls h0 log = Some h"
  using assms by (auto simp: Let_def split: if_splits sum.splits)

lemma sequential_length: "sequential calls h0 log = Some h \<Longrightarrow> length h0 \<le> length h"
  by (induction log arbitrary: h0) (fastforce elim: sequential_ConsE)+

lemma sequential_revisions:
  "sequential calls h0 log = Some h \<Longrightarrow> {n. \<exists>t. (t, Inr n) \<in> set log} = {int (length h0) + 1..int (length h)}"
proof (induction log arbitrary: h0)
  case (Cons e log)
  obtain t res where e: "e = (t, res)" by fastforce
  from Cons.prems[unfolded e] show ?case
  proof (cases rule: sequential_ConsE)
    case admitted
    then have "{n. \<exists>t'. (t', Inr n) \<in> set (e # log)} = insert (int (length h0) + 1) {n. \<exists>t. (t, Inr n) \<in> set log}"
      by (auto simp: e)
    then show ?thesis using Cons.IH[OF admitted(2)] sequential_length[OF admitted(2)] by auto
  next
    case refused
    with Cons.IH show ?thesis by (simp add: e)
  qed
qed auto

lemma sequential_inj:
  "sequential calls h0 log = Some h \<Longrightarrow> (t, Inr n) \<in> set log \<Longrightarrow> (t', Inr n) \<in> set log \<Longrightarrow> t = t'"
proof (induction log arbitrary: h0)
  case (Cons e log)
  obtain u res where e: "e = (u, res)" by fastforce
  from Cons.prems(1)[unfolded e] show ?case
  proof (cases rule: sequential_ConsE)
    case admitted
    have "(x, Inr (int (length h0) + 1)) \<notin> set log" for x
      using equalityD1[OF sequential_revisions[OF admitted(2)]] by auto
    with Cons.IH[OF admitted(2)] Cons.prems(2,3) admitted(1) show ?thesis by (auto simp: e)
  next
    case refused
    with Cons show ?thesis by (auto simp: e)
  qed
qed simp

section \<open>Jobs\<close>

text \<open>A job carries the value written at its revision.\<close>

definition job_ok :: "history \<Rightarrow> NotifyJob \<Rightarrow> bool" where
  "job_ok h j \<longleftrightarrow>
     (\<exists>later k v older. h = later @ (k, v) # older \<and> job_rev j = int (length older) + 1 \<and>
        kv (job_msg j) = as_mvcc_key_value (write_value (hist_latest older k) (int (length older) + 1) v) k)"

definition jobs_ok :: "NotifyJob list \<Rightarrow> set_threads \<Rightarrow> bool" where
  "jobs_ok tx0 y \<longleftrightarrow>
     (\<exists>jobs. notify_tx (st_store y) = tx0 @ jobs \<and> distinct (map job_rev jobs) \<and>
        job_rev ` set jobs = {n. \<exists>t. st_pc y t = Finished (Inr n)} \<and> (\<forall>j\<in>set jobs. job_ok (st_history y) j))"

lemma job_ok_later: "job_ok h j \<Longrightarrow> job_ok (new @ h) j"
  unfolding job_ok_def by (metis append.assoc)

lemma jobs_okI:
  assumes "jobs_ok tx0 y" "notify_tx (st_store y') = notify_tx (st_store y)" "st_history y' = new @ st_history y"
    "\<And>t n. st_pc y' t = Finished (Inr n) \<longleftrightarrow> st_pc y t = Finished (Inr n)"
  shows "jobs_ok tx0 y'"
  using assms job_ok_later unfolding jobs_ok_def by auto

lemma jobs_ok_notify:
  assumes inv: "set_inv calls y" and res: "results_ok calls h0 y" and jobs: "jobs_ok tx0 y" and pc: "st_pc y t = Notifying nv old"
  shows "jobs_ok tx0 (set_notify t (calls t) nv old y)"
proof -
  let ?y = "set_notify t (calls t) nv old y" and ?k = "call_key (calls t)" and ?n = "mod_revision nv"
  obtain later older where w: "st_history y = later @ (?k, call_value (calls t)) # older"
    "nv = write_value (hist_latest older ?k) (int (length older) + 1) (call_value (calls t))"
    using set_invD(5)[OF inv, of t] pc by (auto simp: thread_ok_def written_def)
  obtain js where js: "notify_tx (st_store y) = tx0 @ js" "distinct (map job_rev js)"
    "job_rev ` set js = {n. \<exists>t. st_pc y t = Finished (Inr n)}" "\<forall>j\<in>set js. job_ok (st_history y) j"
    using jobs unfolding jobs_ok_def by blast
  obtain job where job: "notify_tx (st_store ?y) = notify_tx (st_store y) @ [job]" "job_rev job = ?n"
    "kv (job_msg job) = as_mvcc_key_value nv ?k"
    by (simp add: set_notify_def notify_watchers_def Let_def)
  have fresh: "st_pc y t' \<noteq> Finished (Inr ?n)" for t'
  proof
    assume t': "st_pc y t' = Finished (Inr ?n)"
    then have "(t', Inr ?n) \<in> set (st_log y)" "(t, Inr ?n) \<in> set (st_log y)"
      using res pc by (auto simp: results_ok_def)
    then have "t' = t" using res sequential_inj[of calls h0 "st_log y"] unfolding results_ok_def by blast
    with t' pc show False by simp
  qed
  have "job_ok (st_history y) job"
    using job w unfolding job_ok_def by (intro exI[of _ later] exI[of _ ?k] exI[of _ "call_value (calls t)"] exI[of _ older]) simp
  moreover have "{m. \<exists>u. st_pc ?y u = Finished (Inr m)} = insert ?n {m. \<exists>u. st_pc y u = Finished (Inr m)}"
    using pc by (auto simp: set_notify_def) (metis set_pc.distinct)
  moreover have "?n \<notin> job_rev ` set js" using js(3) fresh by auto
  ultimately show ?thesis
    using js job unfolding jobs_ok_def by (intro exI[of _ "js @ [job]"]) (auto simp: set_notify_def)
qed

lemma jobs_ok_step:
  assumes "set_step calls y y'" "set_inv calls y" "results_ok calls h0 y" "jobs_ok tx0 y"
  shows "jobs_ok tx0 y'"
  using assms(1)
proof (cases rule: set_step.cases)
  case (at_decide t latest r is_new)
  obtain d where y': "y' = (if admits (hist_live (st_history y) (call_key (calls t))) (call_value (calls t)) (call_required (calls t))
      then after_admission t (calls t) r is_new d y else after_refusal t (calls t) latest y)"
    using set_decide_cases[OF assms(2) at_decide(1,2)] at_decide(3) by auto
  show ?thesis
    by (rule jobs_okI[OF assms(4), where new = "take (length (st_history y') - length (st_history y)) (st_history y')"])
      (auto simp: at_decide(1) y' after_admission_def after_refusal_def Let_def)
next
  case (at_fill t r is_new n)
  from set_fill_returns[OF assms(2) at_fill(1)] at_fill(2) obtain older d where
    "y' = after_fill t r is_new (write_value (hist_latest older (call_key (calls t))) n (call_value (calls t))) d y"
    by (metis run.inject)
  then show ?thesis by (intro jobs_okI[OF assms(4), where new = "[]"]) (auto simp: at_fill(1) after_fill_def Let_def)
next
  case (at_notify t nv old)
  with jobs_ok_notify[OF assms(2-4)] show ?thesis by simp
next
  case (at_compact n s' res)
  from log_ok_compact[OF set_invD(2)[OF assms(2)] at_compact(2)] obtain d where "s' = (st_store y)\<lparr>values_by_revision := d\<rparr>" by blast
  then show ?thesis by (intro jobs_okI[OF assms(4), where new = "[]"]) (simp_all add: at_compact(1))
qed (rule jobs_okI[OF assms(4), where new = "[]"];
    auto simp: set_begin_def set_enter_def set_index_def tree_map_insert_def prefix_map_insert_frame Let_def
      split: option.split)+

section \<open>Runs\<close>

definition threads_inv :: "(nat \<Rightarrow> set_call) \<Rightarrow> history \<Rightarrow> NotifyJob list \<Rightarrow> set_threads \<Rightarrow> bool" where
  "threads_inv calls h0 tx0 y \<longleftrightarrow> set_inv calls y \<and> results_ok calls h0 y \<and> jobs_ok tx0 y"

lemma threads_inv_init:
  assumes "store_repr s h"
  shows "threads_inv calls h (notify_tx s) (threads_init s h)"
proof -
  note r = store_reprD[OF assms]
  have none: "indexing_keys calls (\<lambda>_. Ready) = {}" "unfilled (\<lambda>_. Ready) = {}"
    by (simp_all add: indexing_keys_def unfilled_def)
  have "log_ok {} h (values_by_revision s)"
    using r by (auto simp: log_ok_def)
  then have "set_inv calls (threads_init s h)"
    using assms r(1) by (simp add: set_inv_def threads_init_def none thread_ok_def store_repr_def)
  moreover have "results_ok calls h (threads_init s h)" by (simp add: results_ok_def threads_init_def)
  moreover have "jobs_ok (notify_tx s) (threads_init s h)" by (simp add: jobs_ok_def threads_init_def)
  ultimately show ?thesis by (simp add: threads_inv_def)
qed

lemma threads_inv_run:
  assumes "(set_step calls)\<^sup>*\<^sup>* y y'" "threads_inv calls h0 tx0 y"
  shows "threads_inv calls h0 tx0 y'"
  using assms
  by (induction rule: rtranclp_induct) (auto simp: threads_inv_def intro: set_inv_step results_ok_step jobs_ok_step)

text \<open>No call in progress: every call has not begun, or has returned.\<close>

definition quiescent :: "set_threads \<Rightarrow> bool" where
  "quiescent y \<longleftrightarrow> (\<forall>t. st_pc y t = Ready \<or> (\<exists>res. st_pc y t = Finished res))"

lemma quiescent_decided: "quiescent y \<Longrightarrow> decided (st_pc y t) = Some res \<longleftrightarrow> st_pc y t = Finished res"
  unfolding quiescent_def by (cases "st_pc y t") (fastforce dest: spec[of _ t])+

lemma quiescent_repr:
  assumes inv: "set_inv calls y" and q: "quiescent y"
  shows "store_repr (st_store y) (st_history y)"
proof -
  have pc: "st_pc y t \<noteq> Indexing l r" "st_pc y t \<noteq> Filling r b n" for t l r b n
    using q unfolding quiescent_def by (metis set_pc.distinct)+
  have none: "indexing_keys calls (st_pc y) = {}" "unfilled (st_pc y) = {}" "st_locks y r = None" for r
    using pc set_invD(6)[OF inv, of r] by (auto simp: indexing_keys_def unfilled_def) (cases "st_locks y r"; blast)
  note log = set_invD(2)[OF inv, unfolded none]
  then show ?thesis
    using set_invD(1,3,4)[OF inv] log_okD(1,2)[OF log] log_ok_complete[OF log] by (simp add: store_repr_def none)
qed

lemma set_step_log: "set_step calls y y' \<Longrightarrow> \<exists>l. st_log y' = st_log y @ l"
  by (induction rule: set_step.induct)
    (auto simp: set_begin_def set_enter_def set_index_def set_notify_def set_decide_def set_fill_def Let_def bind_run_eq_Returns
      split: option.splits prod.splits)

lemma set_steps_log: "(set_step calls)\<^sup>*\<^sup>* y y' \<Longrightarrow> \<exists>l. st_log y' = st_log y @ l"
proof (induction rule: rtranclp_induct)
  case (step y' z)
  then show ?case using set_step_log[OF step(2)] by fastforce
qed simp

text \<open>The sections a call still has to go through.\<close>

fun sections_left :: "set_pc \<Rightarrow> nat" where
  "sections_left Ready = 6"
| "sections_left (Entering l) = 5"
| "sections_left (Indexing l r) = 4"
| "sections_left (Locking l r b) = 3"
| "sections_left (Filling r b n) = 2"
| "sections_left (Notifying nv old) = 1"
| "sections_left (Finished res) = 0"

lemma fill_step:
  assumes "set_inv calls y" "st_pc y t = Filling r b n"
  obtains y' nv old where "set_step calls y y'" "st_pc y' = (st_pc y)(t := Notifying nv old)" "st_locks y' r = None"
proof -
  from set_fill_returns[OF assms] obtain d older where
    "set_fill t (calls t) r b n y =
      Returns (after_fill t r b (write_value (hist_latest older (call_key (calls t))) n (call_value (calls t))) d y)" by metis
  from set_step.at_fill[where y = y and t = t and calls = calls, OF assms(2) this] show thesis
    by (rule that) (simp_all add: after_fill_def Let_def)
qed

lemma decide_step:
  assumes "set_inv calls y" "st_pc y t = Locking l r b" "st_locks y r = None"
  obtains y' where "set_step calls y y'" "sections_left (st_pc y' t) < 3"
proof -
  from set_decide_cases[OF assms] obtain d where
    "set_decide t (calls t) l r b y = Returns (if admits (hist_live (st_history y) (call_key (calls t))) (call_value (calls t))
        (call_required (calls t)) then after_admission t (calls t) r b d y else after_refusal t (calls t) l y)" by blast
  from set_step.at_decide[where y = y and t = t and calls = calls, OF assms(2,3) this] show thesis
    by (rule that) (simp add: after_admission_def after_refusal_def Let_def)
qed

text \<open>A call that waits for a lock waits for a call that fills its value, and which can always go on.\<close>

lemma call_advances:
  assumes "set_inv calls y" "sections_left (st_pc y t) \<noteq> 0"
  shows "\<exists>y'. (set_step calls)\<^sup>*\<^sup>* y y' \<and> sections_left (st_pc y' t) < sections_left (st_pc y t)"
proof (cases "st_pc y t")
  case (Locking l r b)
  show ?thesis
  proof (cases "st_locks y r")
    case None
    then show ?thesis using decide_step[OF assms(1) Locking None] Locking by (metis r_into_rtranclp sections_left.simps(4))
  next
    case (Some t')
    then obtain b' n where f: "st_pc y t' = Filling r b' n" using set_invD(6)[OF assms(1)] by blast
    from fill_step[OF assms(1) f] obtain y1 nv old where y1: "set_step calls y y1"
      "st_pc y1 = (st_pc y)(t' := Notifying nv old)" "st_locks y1 r = None" by blast
    have "st_pc y1 t = Locking l r b" using y1(2) f Locking by auto
    from decide_step[OF set_inv_step[OF y1(1) assms(1)] this y1(3)] obtain y2 where
      "set_step calls y1 y2" "sections_left (st_pc y2 t) < 3" by blast
    with y1(1) Locking show ?thesis by (intro exI[of _ y2]) auto
  qed
next
  case (Filling r b n)
  from fill_step[OF assms(1) Filling] obtain y1 nv old where "set_step calls y y1" "st_pc y1 = (st_pc y)(t := Notifying nv old)"
    by blast
  then show ?thesis using Filling by (intro exI[of _ y1]) auto
next
  case Ready
  then show ?thesis using set_step.at_begin[where y = y and t = t and calls = calls]
    by (intro exI[of _ "set_begin t y"]) (auto simp: set_begin_def)
next
  case (Entering l)
  then show ?thesis using set_step.at_enter[where y = y and t = t and calls = calls, OF Entering]
    by (intro exI[of _ "set_enter t (call_key (calls t)) l y"]) (auto simp: set_enter_def Let_def split: option.split)
next
  case (Indexing l r)
  then show ?thesis using set_step.at_index[where y = y and t = t and calls = calls, OF Indexing]
    by (intro exI[of _ "set_index t (call_key (calls t)) l r y"]) (auto simp: set_index_def)
next
  case (Notifying nv old)
  then show ?thesis using set_step.at_notify[where y = y and t = t and calls = calls, OF Notifying]
    by (intro exI[of _ "set_notify t (calls t) nv old y"]) (auto simp: set_notify_def)
qed (use assms in auto)

lemma call_finishes:
  "set_inv calls y \<Longrightarrow> \<exists>y' res. (set_step calls)\<^sup>*\<^sup>* y y' \<and> st_pc y' t = Finished res"
proof (induction "sections_left (st_pc y t)" arbitrary: y rule: less_induct)
  case less
  show ?case
  proof (cases "sections_left (st_pc y t) = 0")
    case True
    then obtain res where "st_pc y t = Finished res" by (cases "st_pc y t") auto
    then show ?thesis by blast
  next
    case False
    from call_advances[OF less.prems this] obtain y1 where y1: "(set_step calls)\<^sup>*\<^sup>* y y1"
      "sections_left (st_pc y1 t) < sections_left (st_pc y t)" by blast
    have "set_inv calls y1" using y1(1) less.prems by (induction rule: rtranclp_induct) (auto intro: set_inv_step)
    from less.hyps[OF y1(2) this] y1(1) show ?thesis by (metis rtranclp_trans)
  qed
qed

end
