(* ===== verification/Range_Threads.thy ===== *)
theory Range_Threads
  imports Set_Runs
begin

text \<open>
  A call of \<open>Store::range\<close> (\<open>src/store.rs\<close>) beside concurrent calls of \<open>Store::set\<close> and compactions.
  The range reads the current revision, checks the requested one, looks up the B-tree of the prefix,
  which stays locked against insertions from then on, and reads the items one by one, each under its
  own lock. With nothing compacted the answer is the snapshot of the store at its revision; after a
  compaction it can miss a key that exists all the time.
\<close>

section \<open>The call\<close>

record range_call =
  scan_start :: byte_array
  scan_end :: byte_array
  scan_rev :: i64
  scan_limit :: usize

text \<open>
  The points between the sections: with \<open>latest_rev\<close>; with the revision to read; in the loop, with the
  prefix, the entries to come, the results and the count.
\<close>

datatype range_pc =
  Range_Start
| Range_Latest i64
| Range_Checked i64 i64
| Range_Scan i64 i64 byte_array "(byte_array \<times> item_ref) list" "KeyValue list" usize
| Range_Done "status + RangeResult"

section \<open>Sections\<close>

definition range_check :: "range_call \<Rightarrow> i64 \<Rightarrow> Store \<Rightarrow> range_pc" where
  "range_check c latest s =
     (if latest < scan_rev c then Range_Done (Inl ErrFutureRev)
      else if 0 < scan_rev c \<and> scan_rev c \<le> compacted_revision s then Range_Done (Inl ErrCompacted)
      else Range_Checked latest (if scan_rev c = 0 then latest else scan_rev c))"

definition range_lookup :: "range_call \<Rightarrow> i64 \<Rightarrow> i64 \<Rightarrow> Store \<Rightarrow> range_pc run" where
  "range_lookup c latest r s =
     (case prefix_and_range_of_key (scan_start c) (scan_end c) of
        Inl e \<Rightarrow> Returns (Range_Done (Inl e))
      | Inr (prefix, lo, hi) \<Rightarrow>
          (case prefix_map s prefix of
             Some btree \<Rightarrow> bind_run (btree_range lo hi btree) (\<lambda>es. Returns (Range_Scan latest r prefix es [] 0))
           | None \<Rightarrow> Returns (Range_Done (Inr \<lparr>kvs = [], latest_rev = latest, count = 0\<rparr>))))"

text \<open>One turn of the loop, which is the loop over one entry.\<close>

definition range_turn ::
    "range_call \<Rightarrow> i64 \<Rightarrow> i64 \<Rightarrow> byte_array \<Rightarrow> byte_array \<times> item_ref \<Rightarrow> (byte_array \<times> item_ref) list \<Rightarrow>
       KeyValue list \<Rightarrow> usize \<Rightarrow> Store \<Rightarrow> range_pc run" where
  "range_turn c latest r prefix e es results n s =
     bind_run (range_loop s prefix r (scan_limit c) [e] n results)
       (\<lambda>(results', n'). Returns (Range_Scan latest r prefix es results' n'))"

text \<open>The prefix whose B-tree the range keeps locked.\<close>

fun scanned :: "range_pc \<Rightarrow> byte_array option" where
  "scanned (Range_Scan latest r prefix es results n) = Some prefix"
| "scanned p = None"

inductive range_step ::
    "(nat \<Rightarrow> set_call) \<Rightarrow> range_call \<Rightarrow> set_threads \<times> range_pc \<Rightarrow> set_threads \<times> range_pc \<Rightarrow> bool" for calls c where
  by_others: "set_step calls y y' \<Longrightarrow>
    (\<forall>prefix. scanned p = Some prefix \<longrightarrow> prefix_map (st_store y') prefix = prefix_map (st_store y) prefix) \<Longrightarrow>
    range_step calls c (y, p) (y', p)"
| at_latest: "range_step calls c (y, Range_Start) (y, Range_Latest (current_revision (st_store y)))"
| at_check: "range_step calls c (y, Range_Latest latest) (y, range_check c latest (st_store y))"
| at_lookup: "range_lookup c latest r (st_store y) = Returns p \<Longrightarrow>
    range_step calls c (y, Range_Checked latest r) (y, p)"
| at_turn: "st_locks y (snd e) = None \<Longrightarrow> range_turn c latest r prefix e es results n (st_store y) = Returns p \<Longrightarrow>
    range_step calls c (y, Range_Scan latest r prefix (e # es) results n) (y, p)"
| at_finish: "range_step calls c (y, Range_Scan latest r prefix [] results n)
    (y, Range_Done (Inr \<lparr>kvs = results, latest_rev = latest, count = int n\<rparr>))"

text \<open>Without other calls the sections make up \<open>store_range\<close>.\<close>

fun range_turns :: "range_call \<Rightarrow> Store \<Rightarrow> i64 \<Rightarrow> i64 \<Rightarrow> byte_array \<Rightarrow> (byte_array \<times> item_ref) list \<Rightarrow> KeyValue list \<Rightarrow> usize \<Rightarrow>
    range_pc run" where
  "range_turns c s latest r prefix [] results n = Returns (Range_Done (Inr \<lparr>kvs = results, latest_rev = latest, count = int n\<rparr>))"
| "range_turns c s latest r prefix (e # es) results n =
     bind_run (range_turn c latest r prefix e es results n s)
       (\<lambda>p. case p of Range_Scan _ _ _ _ results' n' \<Rightarrow> range_turns c s latest r prefix es results' n' | _ \<Rightarrow> Returns p)"

definition range_alone :: "range_call \<Rightarrow> Store \<Rightarrow> range_pc run" where
  "range_alone c s =
     (case range_check c (current_revision s) s of
        Range_Checked latest r \<Rightarrow>
          bind_run (range_lookup c latest r s)
            (\<lambda>p. case p of Range_Scan _ _ prefix es results n \<Rightarrow> range_turns c s latest r prefix es results n | _ \<Rightarrow> Returns p)
      | p \<Rightarrow> Returns p)"

lemma range_loop_Cons:
  "range_loop s prefix r limit (e # es) n results =
     bind_run (range_loop s prefix r limit [e] n results) (\<lambda>(results', n'). range_loop s prefix r limit es n' results')"
  by (cases e) (auto simp: Let_def bind_run_def split: run.split option.split)

lemma range_turns_loop:
  "range_turns c s latest r prefix es results n =
     bind_run (range_loop s prefix r (scan_limit c) es n results)
       (\<lambda>(results', n'). Returns (Range_Done (Inr \<lparr>kvs = results', latest_rev = latest, count = int n'\<rparr>)))"
proof (induction es arbitrary: results n)
  case (Cons e es)
  then show ?case
    by (subst range_loop_Cons) (cases "range_loop s prefix r (scan_limit c) [e] n results"; simp add: range_turn_def split_def)
qed simp

lemma range_alone_is_store_range:
  "range_alone c s = bind_run (store_range s (scan_start c) (scan_end c) (scan_rev c) (Some (scan_limit c)))
     (\<lambda>res. Returns (Range_Done res))"
  by (auto simp: range_alone_def store_range_def range_check_def range_lookup_def range_turns_loop Let_def bind_run_def
      split: sum.split prod.split option.split run.split)

section \<open>Reading an item while calls are in progress\<close>

lemma hist_revs_at_write: "int (length older) + 1 \<in> set (hist_revs (later @ (k', v) # older) k) \<Longrightarrow> k' = k"
proof (induction later)
  case Nil
  then show ?case using hist_revs_bounds[of "int (length older) + 1" older k] by (auto split: if_splits)
qed (auto split: if_splits)

text \<open>A revision of a key whose item is not locked is not one that is still to be filled.\<close>

lemma unlocked_rev_filled:
  assumes inv: "set_inv calls y" and k: "tree_map (st_store y) k = Some ref" "st_locks y ref = None"
    and x: "x \<in> set (hist_revs (st_history y) k)"
  shows "nat (x - 1) \<notin> unfilled (st_pc y)"
proof
  assume "nat (x - 1) \<in> unfilled (st_pc y)"
  then obtain t r b where t: "st_pc y t = Filling r b (int (nat (x - 1)) + 1)" by (auto simp: unfilled_def)
  obtain later older where w: "st_history y = later @ (call_key (calls t), call_value (calls t)) # older"
    "int (nat (x - 1)) = int (length older)"
    and r: "tree_map (st_store y) (call_key (calls t)) = Some r" "st_locks y r = Some t"
    using set_invD(5)[OF inv, of t] t by (auto simp: thread_ok_def written_def)
  have "x = int (length older) + 1" using w(2) hist_revs_bounds[OF x] by simp
  with hist_revs_at_write x w(1) have "call_key (calls t) = k" by metis
  with k r show False by simp
qed

lemma unlocked_filled:
  assumes inv: "set_inv calls y" and k: "tree_map (st_store y) k = Some ref" "st_locks y ref = None"
    and v: "n \<le> length (st_history y)" "hist_latest (hist_at (st_history y) n) k = Some v"
  shows "nat (mod_revision v - 1) \<notin> unfilled (st_pc y)"
proof (rule unlocked_rev_filled[OF inv k])
  show "mod_revision v \<in> set (hist_revs (st_history y) k)"
    using hist_latest_mod[OF v(2)] hist_revs_at[OF v(1), of k] last_in_set[of "hist_revs (hist_at (st_history y) n) k"] by auto
qed

lemma unlocked_reads:
  assumes inv: "set_inv calls y" and k: "tree_map (st_store y) k = Some ref" "st_locks y ref = None"
    and n: "1 \<le> n" "n \<le> length (st_history y)"
  shows "reads_item (st_store y) (st_history y) (earliest_revision (values_by_revision (st_store y))) n k ref"
  using read_item_of[OF set_invD(2)[OF inv] set_invD(4)[OF inv k] n unlocked_filled[OF inv k n(2)]]
  unfolding reads_item_def by blast

section \<open>What other calls leave alone\<close>

lemma set_step_grows:
  assumes "set_step calls y y'" "set_inv calls y"
  shows "(\<exists>new. st_history y' = new @ st_history y) \<and> tree_map (st_store y) \<subseteq>\<^sub>m tree_map (st_store y') \<and>
    earliest_revision (values_by_revision (st_store y)) \<le> earliest_revision (values_by_revision (st_store y'))"
  using assms(1)
proof (cases rule: set_step.cases)
  case (at_decide t latest r is_new)
  obtain d where "earliest_revision d = earliest_revision (values_by_revision (st_store y))"
    "y' = (if admits (hist_live (st_history y) (call_key (calls t))) (call_value (calls t)) (call_required (calls t))
      then after_admission t (calls t) r is_new d y else after_refusal t (calls t) latest y)"
    using set_decide_cases[OF assms(2) at_decide(1,2)] at_decide(3) by auto
  then show ?thesis by (auto simp: after_admission_def after_refusal_def Let_def)
next
  case (at_fill t r is_new n)
  from set_fill_returns[OF assms(2) at_fill(1)] at_fill(2) obtain older d where
    "y' = after_fill t r is_new (write_value (hist_latest older (call_key (calls t))) n (call_value (calls t))) d y"
    "earliest_revision d = earliest_revision (values_by_revision (st_store y))"
    by (metis run.inject)
  then show ?thesis by (auto simp: after_fill_def Let_def)
next
  case (at_compact n s' res)
  from log_ok_compact[OF set_invD(2)[OF assms(2)] at_compact(2)] obtain d where "s' = (st_store y)\<lparr>values_by_revision := d\<rparr>"
    "earliest_revision (values_by_revision (st_store y)) \<le> earliest_revision d" by blast
  then show ?thesis by (simp add: at_compact(1))
qed (auto simp: set_begin_def set_enter_def set_index_def set_notify_def notify_watchers_def tree_map_insert_def
    prefix_map_insert_frame map_le_def Let_def split: option.split)

text \<open>At most one call for every key that does not exist yet.\<close>

definition one_creator :: "(nat \<Rightarrow> set_call) \<Rightarrow> Store \<Rightarrow> bool" where
  "one_creator calls s \<longleftrightarrow>
     (\<forall>t t'. call_key (calls t) = call_key (calls t') \<longrightarrow> tree_map s (call_key (calls t)) = None \<longrightarrow> t = t')"

text \<open>Then a key that is not yet in \<open>prefix_map\<close> has no revision.\<close>

definition fresh_pending :: "(nat \<Rightarrow> set_call) \<Rightarrow> Store \<Rightarrow> set_threads \<Rightarrow> bool" where
  "fresh_pending calls s y \<longleftrightarrow> tree_map s \<subseteq>\<^sub>m tree_map (st_store y) \<and>
     (\<forall>t l r. st_pc y t = Indexing l r \<longrightarrow>
        tree_map s (call_key (calls t)) = None \<and> hist_latest (st_history y) (call_key (calls t)) = None)"

lemma fresh_pendingI:
  assumes "fresh_pending calls s y" "tree_map (st_store y) \<subseteq>\<^sub>m tree_map (st_store y')" "st_history y' = st_history y"
    "\<And>t l r. st_pc y' t = Indexing l r \<Longrightarrow> st_pc y t = Indexing l r"
  shows "fresh_pending calls s y'"
  using assms unfolding fresh_pending_def by (metis map_le_trans)

lemma fresh_pending_step:
  assumes one: "one_creator calls s" and step: "set_step calls y y'" and inv: "set_inv calls y" and fp: "fresh_pending calls s y"
  shows "fresh_pending calls s y'"
  using step
proof (cases rule: set_step.cases)
  case (at_enter t latest)
  show ?thesis
  proof (cases "tree_map (st_store y) (call_key (calls t))")
    case None
    then have "tree_map s (call_key (calls t)) = None" "hist_latest (st_history y) (call_key (calls t)) = None"
      using fp set_invD(3)[OF inv] by (auto simp: fresh_pending_def map_le_def dom_def)
    moreover have "tree_map s \<subseteq>\<^sub>m tree_map (st_store y')"
      using fp set_step_grows[OF step inv] map_le_trans by (auto simp: fresh_pending_def)
    ultimately show ?thesis using fp None by (auto simp: at_enter fresh_pending_def set_enter_def Let_def split: if_splits)
  next
    case (Some r)
    with set_step_grows[OF step inv] show ?thesis
      by (intro fresh_pendingI[OF fp]) (auto simp: at_enter set_enter_def split: if_splits)
  qed
next
  case (at_decide t latest r is_new)
  obtain d where y': "y' = (if admits (hist_live (st_history y) (call_key (calls t))) (call_value (calls t)) (call_required (calls t))
      then after_admission t (calls t) r is_new d y else after_refusal t (calls t) latest y)"
    using set_decide_cases[OF inv at_decide(1,2)] at_decide(3) by auto
  have "call_key (calls t') \<noteq> call_key (calls t)" if "st_pc y t' = Indexing l q" for t' l q
    using one fp that at_decide(1) unfolding one_creator_def fresh_pending_def by (metis set_pc.distinct)
  with fp set_step_grows[OF step inv] show ?thesis
    by (auto simp: fresh_pending_def y' after_admission_def after_refusal_def Let_def split: if_splits intro: map_le_trans)
next
  case (at_fill t r is_new n)
  from set_fill_returns[OF inv at_fill(1)] at_fill(2) obtain older d where
    "y' = after_fill t r is_new (write_value (hist_latest older (call_key (calls t))) n (call_value (calls t))) d y"
    by (metis run.inject)
  with set_step_grows[OF step inv] show ?thesis
    by (intro fresh_pendingI[OF fp]) (auto simp: after_fill_def Let_def split: if_splits)
qed (rule fresh_pendingI[OF fp]; use set_step_grows[OF step inv] in
    \<open>auto simp: set_begin_def set_index_def set_notify_def split: if_splits\<close>)+

section \<open>The reader\<close>

abbreviation read_rev :: "range_call \<Rightarrow> i64 \<Rightarrow> i64" where
  "read_rev c latest \<equiv> if scan_rev c = 0 then latest else scan_rev c"

text \<open>
  The entries seen and those to come are the keys of the scan, in order, and no key that is live at
  the revision is missing among them.
\<close>

definition scan_ok ::
    "history \<Rightarrow> nat \<Rightarrow> byte_array \<Rightarrow> byte_array bound \<Rightarrow> byte_array bound \<Rightarrow> (byte_array \<times> item_ref) list \<Rightarrow> bool" where
  "scan_ok h n p lo hi es \<longleftrightarrow>
     sorted_wrt (<) (map fst es) \<and> (\<forall>(sfx, ref)\<in>set es. in_scan p lo hi (p @ sfx)) \<and>
     (\<forall>k v. in_scan p lo hi k \<longrightarrow> hist_live (hist_at h n) k = Some v \<longrightarrow> (\<exists>sfx ref. (sfx, ref) \<in> set es \<and> k = p @ sfx))"

definition range_ok ::
    "range_call \<Rightarrow> byte_array \<Rightarrow> byte_array bound \<Rightarrow> byte_array bound \<Rightarrow> Store \<Rightarrow> history \<Rightarrow> range_pc \<Rightarrow> bool" where
  "range_ok c p lo hi s h pc =
     (case pc of
        Range_Start \<Rightarrow> True
      | Range_Latest l \<Rightarrow> 0 \<le> l \<and> l \<le> int (length h)
      | Range_Checked l r \<Rightarrow> l \<le> int (length h) \<and> r = read_rev c l \<and> 0 \<le> r \<and> r \<le> l
      | Range_Scan l r q es results m \<Rightarrow> l \<le> int (length h) \<and> r = read_rev c l \<and> 0 \<le> r \<and> r \<le> l \<and> q = p \<and>
          (\<forall>(sfx, ref)\<in>set es. tree_map s (p @ sfx) = Some ref) \<and>
          (\<exists>seen. scan_ok h (nat r) p lo hi (seen @ es) \<and>
             results = take (scan_limit c) (visible h 0 (nat r) p seen) \<and> m = length (visible h 0 (nat r) p seen))
      | Range_Done (Inl e) \<Rightarrow> True
      | Range_Done (Inr res) \<Rightarrow> latest_rev res \<le> int (length h) \<and> read_rev c (latest_rev res) \<le> latest_rev res \<and>
          (\<exists>L. kvs res = take (scan_limit c) L \<and> RangeResult.count res = int (length L) \<and>
             range_answer h 0 (nat (read_rev c (latest_rev res))) (in_scan p lo hi) L))"

lemma hist_at_app: "n \<le> length h \<Longrightarrow> hist_at (new @ h) n = hist_at h n"
  by (simp add: hist_at_def)

lemma snapshot_app:
  assumes "n \<le> length h"
  shows "visible (new @ h) 0 n p es = visible h 0 n p es"
    "range_answer (new @ h) 0 n w L = range_answer h 0 n w L"
    "scan_ok (new @ h) n p lo hi es = scan_ok h n p lo hi es"
  using hist_at_app[OF assms, of new]
  by (simp_all add: visible_def range_answer_def scan_ok_def readable_uncompacted)

lemma range_ok_others:
  assumes "range_ok c p lo hi s h pc" "tree_map s \<subseteq>\<^sub>m tree_map s'" "h' = new @ h"
  shows "range_ok c p lo hi s' h' pc"
proof -
  have tm: "tree_map s k = Some r \<Longrightarrow> tree_map s' k = Some r" for k r
    using assms(2) by (auto simp: map_le_def dom_def) 
  have n: "r \<le> int (length h) \<Longrightarrow> nat r \<le> length h" for r by simp
  show ?thesis
    using assms(1) unfolding assms(3) range_ok_def
    by (cases pc) (auto simp: snapshot_app n split: sum.splits dest!: tm)
qed

lemma written_key_found:
  assumes inv: "set_inv calls y" and fp: "fresh_pending calls s0 y"
    and k: "in_scan p lo hi k" "hist_latest (st_history y) k \<noteq> None"
  obtains m sfx ref where "prefix_map (st_store y) p = Some m"
    "(sfx, ref) \<in> set (filter (\<lambda>(k, _). above lo k \<and> below hi k) m)" "k = p @ sfx"
proof -
  note ix = set_invD(1)[OF inv]
  obtain ref where ref: "tree_map (st_store y) k = Some ref" using set_invD(3)[OF inv, of k] k(2) by (cases "tree_map (st_store y) k") auto
  have "k \<notin> indexing_keys calls (st_pc y)" using k(2) fp by (auto simp: indexing_keys_def fresh_pending_def)
  with ix ref obtain m where m0: "prefix_map (st_store y) (fst (prefix_split k)) = Some m"
    "btree_get m (snd (prefix_split k)) = Some ref"
    unfolding index_but_def by blast
  obtain sfx where sfx: "prefix_split k = (p, sfx)" "above lo sfx" "below hi sfx" using k(1) unfolding in_scan_alt by blast
  with m0 have m: "prefix_map (st_store y) p = Some m" "btree_get m sfx = Some ref" by simp_all
  have "btree_wf m" using ix m(1) unfolding index_but_def by blast
  from bt.mem_entries_iff[OF this] m sfx prefix_split_key show thesis by (intro that[of m sfx ref]) auto
qed

lemma prefix_entries:
  assumes inv: "set_inv calls y" and m: "prefix_map (st_store y) p = Some m"
  shows "btree_wf m" "(sfx, ref) \<in> set m \<Longrightarrow> prefix_split (p @ sfx) = (p, sfx) \<and> tree_map (st_store y) (p @ sfx) = Some ref"
proof -
  note ix = set_invD(1)[OF inv]
  show bm: "btree_wf m" using ix m unfolding index_but_def by blast
  show "(sfx, ref) \<in> set m \<Longrightarrow> prefix_split (p @ sfx) = (p, sfx) \<and> tree_map (st_store y) (p @ sfx) = Some ref"
    using ix m bt.mem_entries_iff[OF bm, of sfx ref] unfolding index_but_def by blast
qed

lemma lookup_scan_ok:
  assumes inv: "set_inv calls y" and fp: "fresh_pending calls s0 y" and n: "n \<le> length (st_history y)"
    and m: "prefix_map (st_store y) p = Some m"
  shows "scan_ok (st_history y) n p lo hi (filter (\<lambda>(k, _). above lo k \<and> below hi k) m)"
    "\<forall>(sfx, ref)\<in>set m. tree_map (st_store y) (p @ sfx) = Some ref"
proof -
  note ent = prefix_entries[OF inv m]
  show "\<forall>(sfx, ref)\<in>set m. tree_map (st_store y) (p @ sfx) = Some ref" using ent(2) by blast
  have "\<exists>sfx ref. (sfx, ref) \<in> set (filter (\<lambda>(k, _). above lo k \<and> below hi k) m) \<and> k = p @ sfx"
    if k: "in_scan p lo hi k" "hist_live (hist_at (st_history y) n) k = Some v" for k v
  proof (rule written_key_found[OF inv fp k(1)])
    show "hist_latest (st_history y) k \<noteq> None"
      using readable_written[OF n, of 0 k v] k(2) by (simp add: readable_uncompacted)
  qed (use m in auto)
  with ent bt.filter_entries_ascending[OF ent(1)]
  show "scan_ok (st_history y) n p lo hi (filter (\<lambda>(k, _). above lo k \<and> below hi k) m)"
    unfolding scan_ok_def in_scan_alt by auto
qed

lemma lookup_absent:
  assumes inv: "set_inv calls y" and fp: "fresh_pending calls s0 y" and n: "n \<le> length (st_history y)"
    and m: "prefix_map (st_store y) p = None"
  shows "range_answer (st_history y) 0 n (in_scan p lo hi) []"
proof -
  have "\<not> in_scan p lo hi k" if v: "hist_live (hist_at (st_history y) n) k = Some v" for k v
  proof
    assume scan: "in_scan p lo hi k"
    have "hist_latest (st_history y) k \<noteq> None"
      using readable_written[OF n, of 0 k v] v by (simp add: readable_uncompacted)
    then show False by (rule written_key_found[OF inv fp scan]) (use m in simp)
  qed
  then show ?thesis by (auto simp: range_answer_def readable_uncompacted)
qed

lemma range_ok_lookup:
  assumes inv: "set_inv calls y" and fp: "fresh_pending calls s0 y"
    and pr: "prefix_and_range_of_key (scan_start c) (scan_end c) = Inr (p, lo, hi)"
    and ok: "range_ok c p lo hi (st_store y) (st_history y) (Range_Checked l r)"
    and run: "range_lookup c l r (st_store y) = Returns pc"
  shows "range_ok c p lo hi (st_store y) (st_history y) pc"
proof -
  have lr: "l \<le> int (length (st_history y))" "r = read_rev c l" "0 \<le> r" "r \<le> l" using ok by (auto simp: range_ok_def)
  then have n: "nat r \<le> length (st_history y)" by simp
  show ?thesis
  proof (cases "prefix_map (st_store y) p")
    case None
    with run pr have "pc = Range_Done (Inr \<lparr>kvs = [], latest_rev = l, count = 0\<rparr>)" by (simp add: range_lookup_def)
    with lr lookup_absent[OF inv fp n None, of lo hi] show ?thesis by (auto simp: range_ok_def intro!: exI[of _ "[]"])
  next
    case (Some m)
    let ?es = "filter (\<lambda>(k, _). above lo k \<and> below hi k) m"
    have "pc = Range_Scan l r p ?es [] 0"
      using run pr Some by (auto simp: range_lookup_def bind_run_eq_Returns btree_range_Returns)
    moreover have "visible (st_history y) 0 (nat r) p [] = []" by (simp add: visible_def)
    ultimately show ?thesis
      using lr lookup_scan_ok(1)[OF inv fp n Some, of lo hi] lookup_scan_ok(2)[OF inv fp n Some] unfolding range_ok_def
      by (auto intro!: exI[of _ "[]"])
  qed
qed

lemma range_ok_turn:
  assumes inv: "set_inv calls y" and e0: "earliest_revision (values_by_revision (st_store y)) = 0"
    and ok: "range_ok c p lo hi (st_store y) (st_history y) (Range_Scan l r q (x # es) results m)"
    and free: "st_locks y (snd x) = None" and run: "range_turn c l r q x es results m (st_store y) = Returns pc"
  shows "range_ok c p lo hi (st_store y) (st_history y) pc"
proof -
  obtain sfx ref where x: "x = (sfx, ref)" by fastforce
  let ?h = "st_history y" and ?v = "visible (st_history y) 0 (nat r) p"
  obtain seen where lr: "l \<le> int (length ?h)" "r = read_rev c l" "0 \<le> r" "r \<le> l" "q = p"
    and tm: "tree_map (st_store y) (p @ sfx) = Some ref" "\<forall>(sfx, ref)\<in>set es. tree_map (st_store y) (p @ sfx) = Some ref"
    and seen: "scan_ok ?h (nat r) p lo hi (seen @ x # es)" "results = take (scan_limit c) (?v seen)" "m = length (?v seen)"
    using ok by (auto simp: range_ok_def x)
  have r: "0 < r"
    using run range_loop_assert[of r "st_store y" q "scan_limit c" "[x]" m results] by (cases "0 < r") (auto simp: range_turn_def)
  then have n: "1 \<le> nat r" "nat r \<le> length ?h" "int (nat r) = r" using lr by auto
  have read: "\<forall>(sfx, ref)\<in>set [x]. reads_item (st_store y) ?h 0 (nat r) (p @ sfx) ref"
    using unlocked_reads[OF inv tm(1) _ n(1,2)] free e0 by (simp add: x)
  have "length results = min m (scan_limit c)" using seen(2,3) by simp
  from range_loop_visible[OF read this] n(3) lr(5) run
  have pc: "pc = Range_Scan l r p es (results @ take (scan_limit c - m) (?v [x])) (m + length (?v [x]))"
    by (simp add: range_turn_def)
  have "?v (seen @ [x]) = ?v seen @ ?v [x]" by (simp add: visible_def List.map_filter_def)
  then have "scan_ok ?h (nat r) p lo hi ((seen @ [x]) @ es) \<and>
      results @ take (scan_limit c - m) (?v [x]) = take (scan_limit c) (?v (seen @ [x])) \<and>
      m + length (?v [x]) = length (?v (seen @ [x]))"
    using seen by simp
  then show ?thesis using lr tm(2) unfolding pc range_ok_def by (simp only: range_pc.case) blast
qed

lemma range_ok_finish:
  assumes "range_ok c p lo hi s h (Range_Scan l r q [] results m)"
  shows "range_ok c p lo hi s h (Range_Done (Inr \<lparr>kvs = results, latest_rev = l, count = int m\<rparr>))"
proof -
  obtain seen where lr: "l \<le> int (length h)" "r = read_rev c l" "r \<le> l"
    and seen: "scan_ok h (nat r) p lo hi seen" "results = take (scan_limit c) (visible h 0 (nat r) p seen)"
      "m = length (visible h 0 (nat r) p seen)"
    using assms by (auto simp: range_ok_def)
  have "range_answer h 0 (nat r) (in_scan p lo hi) (visible h 0 (nat r) p seen)"
    using seen(1) visible_ascending[of seen h 0 "nat r" p] unfolding range_answer_def set_visible scan_ok_def readable_uncompacted
    by auto blast+
  then show ?thesis using lr seen(2,3) unfolding range_ok_def by auto
qed

text \<open>All of it, along a run; the reader's part as long as nothing is compacted.\<close>

definition range_inv ::
    "(nat \<Rightarrow> set_call) \<Rightarrow> range_call \<Rightarrow> Store \<Rightarrow> byte_array \<times> byte_array bound \<times> byte_array bound \<Rightarrow> set_threads \<times> range_pc \<Rightarrow> bool" where
  "range_inv calls c s0 sel z \<longleftrightarrow>
     (case (sel, z) of ((p, lo, hi), (y, pc)) \<Rightarrow>
        set_inv calls y \<and> fresh_pending calls s0 y \<and>
        (earliest_revision (values_by_revision (st_store y)) = 0 \<longrightarrow>
           range_ok c p lo hi (st_store y) (st_history y) pc))"

lemma range_inv_step:
  assumes "range_step calls c z z'" "range_inv calls c s0 (p, lo, hi) z" "one_creator calls s0" "0 \<le> scan_rev c"
    and pr: "prefix_and_range_of_key (scan_start c) (scan_end c) = Inr (p, lo, hi)"
  shows "range_inv calls c s0 (p, lo, hi) z'"
  using assms(1,2)
proof (induction rule: range_step.induct)
  case (by_others y y' pc)
  have inv: "set_inv calls y" "fresh_pending calls s0 y" using by_others(3) by (simp_all add: range_inv_def)
  note g = set_step_grows[OF by_others(1) inv(1)]
  have "range_ok c p lo hi (st_store y') (st_history y') pc" if "earliest_revision (values_by_revision (st_store y')) = 0"
    using by_others(3) g that range_ok_others by (auto simp: range_inv_def)
  with set_inv_step[OF by_others(1) inv(1)] fresh_pending_step[OF assms(3) by_others(1) inv] show ?case
    by (simp add: range_inv_def)
next
  case (at_latest y)
  have inv: "set_inv calls y" using at_latest by (simp add: range_inv_def)
  from at_latest log_okD(2)[OF set_invD(2)[OF inv]] show ?case
    by (simp add: range_inv_def range_ok_def current_revision_def)
next
  case (at_check y latest)
  then show ?case using assms(4) by (auto simp: range_inv_def range_ok_def range_check_def)
next
  case (at_lookup latest r y pc)
  then show ?case using range_ok_lookup[OF _ _ pr] by (auto simp: range_inv_def)
next
  case (at_turn y e latest r prefix es results n pc)
  then show ?case using range_ok_turn[OF _ _ _ at_turn(1,2)] by (auto simp: range_inv_def)
next
  case (at_finish y latest r prefix results n)
  then show ?case using range_ok_finish by (auto simp: range_inv_def)
qed

lemma range_inv_run:
  assumes "(range_step calls c)\<^sup>*\<^sup>* z z'" "range_inv calls c s0 (p, lo, hi) z" "one_creator calls s0" "0 \<le> scan_rev c"
    and "prefix_and_range_of_key (scan_start c) (scan_end c) = Inr (p, lo, hi)"
  shows "range_inv calls c s0 (p, lo, hi) z'"
  using assms(1,2) by (induction rule: rtranclp_induct) (use range_inv_step[OF _ _ assms(3-5)] in blast)+

section \<open>Schedules\<close>

datatype turn = Write nat | Compact i64 | Read

definition range_advance :: "range_call \<Rightarrow> set_threads \<Rightarrow> range_pc \<Rightarrow> range_pc option" where
  "range_advance c y p =
     (case p of
        Range_Start \<Rightarrow> Some (Range_Latest (current_revision (st_store y)))
      | Range_Latest latest \<Rightarrow> Some (range_check c latest (st_store y))
      | Range_Checked latest r \<Rightarrow> returned (range_lookup c latest r (st_store y))
      | Range_Scan latest r prefix [] results n \<Rightarrow> Some (Range_Done (Inr \<lparr>kvs = results, latest_rev = latest, count = int n\<rparr>))
      | Range_Scan latest r prefix (e # es) results n \<Rightarrow>
          if st_locks y (snd e) = None then returned (range_turn c latest r prefix e es results n (st_store y)) else None
      | Range_Done res \<Rightarrow> None)"

definition turn_step :: "(nat \<Rightarrow> set_call) \<Rightarrow> range_call \<Rightarrow> turn \<Rightarrow> set_threads \<times> range_pc \<Rightarrow> (set_threads \<times> range_pc) option" where
  "turn_step calls c a z =
     (case z of (y, p) \<Rightarrow>
        (case a of
           Write t \<Rightarrow>
             Option.bind (set_advance calls t y)
               (\<lambda>y'. if \<forall>prefix\<in>set_option (scanned p). prefix_map (st_store y') prefix = prefix_map (st_store y) prefix
                     then Some (y', p) else None)
         | Compact n \<Rightarrow>
             map_option (\<lambda>(s', _). (y\<lparr>st_store := s'\<rparr>, p)) (returned (store_compact (st_store y) n))
         | Read \<Rightarrow> map_option (Pair y) (range_advance c y p)))"

fun turns :: "(nat \<Rightarrow> set_call) \<Rightarrow> range_call \<Rightarrow> turn list \<Rightarrow> set_threads \<times> range_pc \<Rightarrow> (set_threads \<times> range_pc) option" where
  "turns calls c [] z = Some z"
| "turns calls c (a # as) z = Option.bind (turn_step calls c a z) (turns calls c as)"

lemma range_advance_step: "range_advance c y p = Some p' \<Longrightarrow> range_step calls c (y, p) (y, p')"
  unfolding range_advance_def
  by (auto split: range_pc.splits list.splits if_splits elim!: returned_SomeE intro: range_step.intros)

lemma compact_keeps_prefixes: "store_compact s n = Returns (s', res) \<Longrightarrow> prefix_map s' = prefix_map s"
  by (auto simp: store_compact_def bind_run_eq_Returns split: if_splits)

lemma turn_step_step:
  assumes "turn_step calls c a z = Some z'"
  shows "range_step calls c z z'"
proof -
  obtain y p where z: "z = (y, p)" by fastforce
  show ?thesis
  proof (cases a)
    case (Write t)
    with assms z show ?thesis
      by (auto simp: turn_step_def Option.bind_eq_Some_conv split: if_splits
          intro!: range_step.by_others set_advance_step)
  next
    case (Compact n)
    with assms z obtain s' res where sc: "store_compact (st_store y) n = Returns (s', res)" "z' = (y\<lparr>st_store := s'\<rparr>, p)"
      by (auto simp: turn_step_def elim!: returned_SomeE)
    with set_step.at_compact[OF sc(1), of calls] compact_keeps_prefixes[OF sc(1)] show ?thesis
      by (auto simp: z sc(2) intro!: range_step.by_others)
  next
    case Read
    with assms z show ?thesis by (auto simp: turn_step_def intro: range_advance_step)
  qed
qed

lemma turns_steps: "turns calls c as z = Some z' \<Longrightarrow> (range_step calls c)\<^sup>*\<^sup>* z z'"
  by (induction as arbitrary: z)
    (auto simp: Option.bind_eq_Some_conv intro: converse_rtranclp_into_rtranclp dest!: turn_step_step)

text \<open>A range over a prefix, and puts of an existing key between its turns.\<close>

definition pods_range :: range_call where
  "pods_range = \<lparr>scan_start = pods, scan_end = pods_end, scan_rev = 0, scan_limit = 10\<rparr>"

definition puts_of :: "byte_array \<Rightarrow> nat \<Rightarrow> set_call" where
  "puts_of k t = \<lparr>call_key = k, call_value = Some [9], call_required = None\<rparr>"

definition reading :: "Store \<Rightarrow> history \<Rightarrow> byte_array \<Rightarrow> turn list \<Rightarrow> set_threads \<times> range_pc" where
  "reading s h k as = the (turns (puts_of k) pods_range as (threads_init s h, Range_Start))"

lemma reading_run:
  assumes "\<not> Option.is_none (turns (puts_of k) pods_range as (threads_init s h, Range_Start))"
  shows "(range_step (puts_of k) pods_range)\<^sup>*\<^sup>* (threads_init s h, Range_Start) (reading s h k as)"
  using assms by (auto simp: reading_def Option.is_none_def intro: turns_steps)

lemma pods_range_sel: "prefix_and_range_of_key (scan_start pods_range) (scan_end pods_range) = Inr (pods, Included [], Unbounded)"
  by code_simp

definition overwritten :: "turn list" where
  "overwritten = replicate 3 Read @ replicate 5 (Write 0) @ replicate 3 Read"

definition first_writes :: "(byte_array \<times> byte_array option) list" where
  "first_writes = [(key_b, Some [1]), (key_a, Some [2]), (key_a, Some [3])]"

text \<open>Two keys, the older value of which is compacted; it is the current value of its key.\<close>

definition trimmed_store :: Store where
  "trimmed_store = fst (the (returned (store_compact (the (returned (store_writes (store_init 2 None) first_writes))) 3)))"

definition trimmed_history :: history where
  "trimmed_history = hist_writes [] first_writes"

lemma trimmed_repr: "store_repr trimmed_store trimmed_history"
proof -
  obtain s where s: "store_writes (store_init 2 None) first_writes = Returns s" "store_repr s trimmed_history"
    using store_writes_repr[OF store_repr_init[of 2 None], of first_writes] by (auto simp: trimmed_history_def)
  have "length trimmed_history = 3" by code_simp
  moreover have "compacted_revision (the (returned (store_writes (store_init 2 None) first_writes))) = 0" by code_simp
  ultimately obtain d where "store_compact s 3 = Returns (s\<lparr>values_by_revision := d\<rparr>, Inr ())"
    "store_repr (s\<lparr>values_by_revision := d\<rparr>) trimmed_history"
    using store_compact_repr[OF s(2), of 3] s(1) by auto
  with s(1) show ?thesis by (simp add: trimmed_store_def)
qed

section \<open>Properties\<close>

text \<open>
  C5: A range beside concurrent writes is a snapshot. As long as nothing is compacted, and no two
  calls create the same key, the range returns what was live at its revision, each key once and in
  order, whatever the calls write while it reads the items one by one; the revision is the requested
  one, or for 0 the current one at its start.
\<close>

theorem concurrent_range_snapshot:
  assumes "store_repr s h" "(range_step calls c)\<^sup>*\<^sup>* (threads_init s h, Range_Start) (y, Range_Done (Inr res))"
    and "one_creator calls s" "compacted_revision (st_store y) = 0" "0 \<le> scan_rev c"
    and "prefix_and_range_of_key (scan_start c) (scan_end c) = Inr (p, lo, hi)"
  shows "\<exists>L. kvs res = take (scan_limit c) L \<and> RangeResult.count res = int (length L) \<and>
    sorted_wrt (<) (map kv_key L) \<and> latest_rev res \<le> int (length (st_history y)) \<and>
    set L = {as_mvcc_key_value v k | k v. in_scan p lo hi k \<and>
      hist_live (hist_at (st_history y) (nat (if scan_rev c = 0 then latest_rev res else scan_rev c))) k = Some v}"
proof -
  have "range_inv calls c s (p, lo, hi) (threads_init s h, Range_Start)"
    using threads_inv_init[OF assms(1), of calls]
    by (simp add: range_inv_def threads_inv_def fresh_pending_def range_ok_def threads_init_def)
  from range_inv_run[OF assms(2) this assms(3,5,6)] assms(4) show ?thesis
    by (auto simp: range_inv_def range_ok_def range_answer_def readable_uncompacted compacted_revision_def)
qed

theorem concurrent_range_snapshot_witness:
  "\<exists>y L. reading example_store example_history key_a overwritten =
      (y, Range_Done (Inr \<lparr>kvs = [as_mvcc_key_value \<lparr>create_revision = 1, mod_revision = 4, version = 3, val = Some [4]\<rparr> key_a],
        latest_rev = 5, count = 1\<rparr>)) \<and>
    length (st_history y) = 6 \<and> length L = 1 \<and>
    set L = {as_mvcc_key_value v k | k v. in_scan pods (Included []) Unbounded k \<and> hist_live (hist_at (st_history y) 5) k = Some v}"
proof -
  let ?z = "reading example_store example_history key_a overwritten"
  let ?res = "\<lparr>kvs = [as_mvcc_key_value \<lparr>create_revision = 1, mod_revision = 4, version = 3, val = Some [4]\<rparr> key_a],
    latest_rev = 5, count = 1\<rparr>"
  have run: "\<not> Option.is_none (turns (puts_of key_a) pods_range overwritten (threads_init example_store example_history, Range_Start))"
    and z: "snd ?z = Range_Done (Inr ?res)" "compacted_revision (st_store (fst ?z)) = 0" "length (st_history (fst ?z)) = 6"
    and k: "tree_map example_store key_a \<noteq> None" by code_simp+
  obtain y where y: "?z = (y, Range_Done (Inr ?res))" using z(1) by (cases ?z) auto
  have "one_creator (puts_of key_a) example_store" using k by (auto simp: one_creator_def puts_of_def)
  from concurrent_range_snapshot[OF example_repr reading_run[OF run, unfolded y] this _ _ pods_range_sel] z y show ?thesis
    by (auto simp: pods_range_def)
qed

text \<open>
  C21: After a compaction it is not: a range at the current revision can miss a key that exists at
  every moment. When the last write of a key is older than the compacted revision and the key is
  overwritten between the start of the range and the turn of its item, the range finds neither
  the value at its revision, which is dropped, nor the new one, which is too recent. The limit is
  not reached, and a range before or after the write, alone, returns the key.
\<close>

theorem concurrent_range_misses_key:
  "\<exists>s h calls c y res k. store_repr s h \<and> (range_step calls c)\<^sup>*\<^sup>* (threads_init s h, Range_Start) (y, Range_Done (Inr res)) \<and>
     scan_start c \<le> k \<and> k < scan_end c \<and> length (kvs res) < scan_limit c \<and> k \<notin> kv_key ` set (kvs res) \<and>
     hist_live h k \<noteq> None \<and> (\<exists>v. st_history y = (k, Some v) # h) \<and>
     (\<exists>before after. range_alone c s = Returns (Range_Done (Inr before)) \<and> k \<in> kv_key ` set (kvs before) \<and>
        range_alone c (st_store y) = Returns (Range_Done (Inr after)) \<and> k \<in> kv_key ` set (kvs after))"
proof -
  let ?z = "reading trimmed_store trimmed_history key_b overwritten"
  let ?a = "as_mvcc_key_value \<lparr>create_revision = 2, mod_revision = 3, version = 2, val = Some [3]\<rparr> key_a"
  let ?b = "\<lambda>m n x. as_mvcc_key_value \<lparr>create_revision = 1, mod_revision = m, version = n, val = Some [x]\<rparr> key_b"
  let ?res = "\<lparr>kvs = [?a], latest_rev = 3, count = 1\<rparr>"
  have run: "\<not> Option.is_none (turns (puts_of key_b) pods_range overwritten (threads_init trimmed_store trimmed_history, Range_Start))"
    and res: "snd ?z = Range_Done (Inr ?res)" and h: "st_history (fst ?z) = (key_b, Some [9]) # trimmed_history" by code_simp+
  obtain y where y: "?z = (y, Range_Done (Inr ?res))" using res by (cases ?z) auto
  have keys: "scan_start pods_range \<le> key_b" "key_b < scan_end pods_range" "scan_limit pods_range = 10" "key_b \<noteq> key_a"
    by code_simp+
  have live: "hist_live trimmed_history key_b \<noteq> None" by code_simp
  have alone: "range_alone pods_range trimmed_store = Returns (Range_Done (Inr \<lparr>kvs = [?a, ?b 1 1 1], latest_rev = 3, count = 2\<rparr>))"
    "range_alone pods_range (st_store (fst ?z)) = Returns (Range_Done (Inr \<lparr>kvs = [?a, ?b 4 2 9], latest_rev = 4, count = 2\<rparr>))"
    by code_simp+
  show ?thesis
  proof (intro exI conjI)
    show "store_repr trimmed_store trimmed_history" by (rule trimmed_repr)
    show "(range_step (puts_of key_b) pods_range)\<^sup>*\<^sup>* (threads_init trimmed_store trimmed_history, Range_Start) (y, Range_Done (Inr ?res))"
      using reading_run[OF run] y by simp
    show "range_alone pods_range trimmed_store = Returns (Range_Done (Inr \<lparr>kvs = [?a, ?b 1 1 1], latest_rev = 3, count = 2\<rparr>))"
      by (rule alone)
    show "range_alone pods_range (st_store y) = Returns (Range_Done (Inr \<lparr>kvs = [?a, ?b 4 2 9], latest_rev = 4, count = 2\<rparr>))"
      using alone(2) y by simp
    show "hist_live trimmed_history key_b \<noteq> None" by (rule live)
    show "st_history y = (key_b, Some [9]) # trimmed_history" using h y by simp
  qed (use keys in simp_all)
qed

end
