(* ===== verification/Watch_Threads.thy ===== *)
theory Watch_Threads
  imports Range_Threads Store_Watch
begin

text \<open>
  A call of \<open>Store::watch\<close> (\<open>src/store.rs\<close>) beside concurrent calls of \<open>Store::set\<close> and compactions. The
  call reads the current and the compacted revision, takes its id, registers the watcher, looks up
  the B-tree of the prefix, which stays locked against insertions from then on, and reads the past
  changes of the items one by one, each under its own lock. No write from the requested revision on is
  lost between the past changes and the channel as long as no two calls create the same key and
  nothing from that revision on is compacted; without either condition a write can be lost.
\<close>

section \<open>The call\<close>

record watch_call =
  watch_from :: byte_array
  watch_to :: byte_array
  watch_rev :: i64
  watch_prev :: bool

text \<open>
  The points between the sections, with the local variables of the call: the channel, \<open>start_rev\<close>,
  \<open>compact_revision\<close>, \<open>watcher_id\<close>; in the loop, the prefix, the entries to come and the changes found.
\<close>

datatype watch_pc =
  Watch_Start
| Watch_Opened channel_ref i64
| Watch_Checked channel_ref i64 i64
| Watch_Counted channel_ref i64 i64 i64
| Watch_Registered channel_ref i64 i64 i64
| Watch_Scan channel_ref i64 i64 byte_array "(byte_array \<times> item_ref) list" "KeyValueWithPrev list"
| Watch_Done "i64 + KeyValueWithPrev list \<times> i64 \<times> channel_ref"

section \<open>Sections\<close>

definition watch_begin :: "watch_call \<Rightarrow> Store \<Rightarrow> Store \<times> watch_pc" where
  "watch_begin c s =
     (s\<lparr>next_channel := next_channel s + 1\<rparr>,
      Watch_Opened (next_channel s) (if watch_rev c \<le> 0 then current_revision s else watch_rev c))"

definition watch_check :: "watch_call \<Rightarrow> channel_ref \<Rightarrow> i64 \<Rightarrow> Store \<Rightarrow> watch_pc" where
  "watch_check c tx start_rev s =
     (let compact_revision = int (earliest_revision (values_by_revision s)) in
      if 0 < watch_rev c \<and> watch_rev c \<le> compact_revision then Watch_Done (Inl compact_revision)
      else Watch_Checked tx start_rev compact_revision)"

definition watch_count :: "channel_ref \<Rightarrow> i64 \<Rightarrow> i64 \<Rightarrow> Store \<Rightarrow> Store \<times> watch_pc" where
  "watch_count tx start_rev compact s =
     (s\<lparr>watch_counter := watch_counter s + 1\<rparr>, Watch_Counted tx start_rev compact (watch_counter s + 1))"

definition the_watcher :: "watch_call \<Rightarrow> channel_ref \<Rightarrow> i64 \<Rightarrow> Watcher" where
  "the_watcher c tx start_rev =
     \<lparr>start_revision = start_rev, key_range_start = watch_from c, key_range_end = watch_to c, ch = tx\<rparr>"

definition watch_register :: "watch_call \<Rightarrow> channel_ref \<Rightarrow> i64 \<Rightarrow> i64 \<Rightarrow> i64 \<Rightarrow> Store \<Rightarrow> Store \<times> watch_pc" where
  "watch_register c tx start_rev compact i s =
     (s\<lparr>watchers := btree_insert (watch_from c, i) (the_watcher c tx start_rev) (watchers s)\<rparr>,
      Watch_Registered tx start_rev compact i)"

definition watch_lookup :: "watch_call \<Rightarrow> channel_ref \<Rightarrow> i64 \<Rightarrow> i64 \<Rightarrow> i64 \<Rightarrow> Store \<Rightarrow> watch_pc run" where
  "watch_lookup c tx start_rev compact i s =
     (if 0 < watch_rev c then
        case prefix_and_range_of_key (watch_from c) (watch_to c) of
          Inr (prefix, lo, hi) \<Rightarrow>
            (case prefix_map s prefix of
               Some btree \<Rightarrow> bind_run (btree_range lo hi btree) (\<lambda>es. Returns (Watch_Scan tx start_rev i prefix es []))
             | None \<Rightarrow> Returns (Watch_Done (Inr ([], i, tx))))
        | Inl _ \<Rightarrow> Returns (Watch_Done (Inl compact))
      else Returns (Watch_Done (Inr ([], i, tx))))"

definition watch_turn ::
    "watch_call \<Rightarrow> channel_ref \<Rightarrow> i64 \<Rightarrow> i64 \<Rightarrow> byte_array \<Rightarrow> byte_array \<times> item_ref \<Rightarrow> (byte_array \<times> item_ref) list \<Rightarrow>
       KeyValueWithPrev list \<Rightarrow> Store \<Rightarrow> watch_pc run" where
  "watch_turn c tx start_rev i prefix e es past s =
     bind_run (past_changes_item s start_rev (watch_prev c) (tree_items s (snd e)) past)
       (\<lambda>past'. Returns (Watch_Scan tx start_rev i prefix es past'))"

text \<open>The prefix whose B-tree the call keeps locked.\<close>

fun watch_holds :: "watch_pc \<Rightarrow> byte_array option" where
  "watch_holds (Watch_Scan tx start_rev i prefix es past) = Some prefix"
| "watch_holds p = None"

abbreviation in_store :: "set_threads \<Rightarrow> Store \<times> watch_pc \<Rightarrow> set_threads \<times> watch_pc" where
  "in_store y sp \<equiv> (y\<lparr>st_store := fst sp\<rparr>, snd sp)"

inductive watch_step ::
    "(nat \<Rightarrow> set_call) \<Rightarrow> watch_call \<Rightarrow> set_threads \<times> watch_pc \<Rightarrow> set_threads \<times> watch_pc \<Rightarrow> bool" for calls c where
  w_others: "set_step calls y y' \<Longrightarrow>
    (\<forall>prefix. watch_holds p = Some prefix \<longrightarrow> prefix_map (st_store y') prefix = prefix_map (st_store y) prefix) \<Longrightarrow>
    watch_step calls c (y, p) (y', p)"
| w_open: "watch_step calls c (y, Watch_Start) (in_store y (watch_begin c (st_store y)))"
| w_check: "watch_step calls c (y, Watch_Opened tx start_rev) (y, watch_check c tx start_rev (st_store y))"
| w_count: "watch_step calls c (y, Watch_Checked tx start_rev compact) (in_store y (watch_count tx start_rev compact (st_store y)))"
| w_register: "watch_step calls c (y, Watch_Counted tx start_rev compact i)
    (in_store y (watch_register c tx start_rev compact i (st_store y)))"
| w_lookup: "watch_lookup c tx start_rev compact i (st_store y) = Returns p \<Longrightarrow>
    watch_step calls c (y, Watch_Registered tx start_rev compact i) (y, p)"
| w_turn: "st_locks y (snd e) = None \<Longrightarrow> watch_turn c tx start_rev i prefix e es past (st_store y) = Returns p \<Longrightarrow>
    watch_step calls c (y, Watch_Scan tx start_rev i prefix (e # es) past) (y, p)"
| w_finish: "watch_step calls c (y, Watch_Scan tx start_rev i prefix [] past) (y, Watch_Done (Inr (past, i, tx)))"

text \<open>Without other calls the sections make up \<open>store_watch\<close>.\<close>

fun watch_turns :: "watch_call \<Rightarrow> Store \<Rightarrow> channel_ref \<Rightarrow> i64 \<Rightarrow> i64 \<Rightarrow> byte_array \<Rightarrow> (byte_array \<times> item_ref) list \<Rightarrow>
    KeyValueWithPrev list \<Rightarrow> watch_pc run" where
  "watch_turns c s tx start_rev i prefix [] past = Returns (Watch_Done (Inr (past, i, tx)))"
| "watch_turns c s tx start_rev i prefix (e # es) past =
     bind_run (watch_turn c tx start_rev i prefix e es past s)
       (\<lambda>p. case p of Watch_Scan _ _ _ _ _ past' \<Rightarrow> watch_turns c s tx start_rev i prefix es past' | _ \<Rightarrow> Returns p)"

definition watch_alone :: "watch_call \<Rightarrow> Store \<Rightarrow> (Store \<times> watch_pc) run" where
  "watch_alone c s =
     (case watch_begin c s of (s0, p) \<Rightarrow>
      case p of Watch_Opened tx start_rev \<Rightarrow>
        (case watch_check c tx start_rev s0 of
           Watch_Checked tx start_rev compact \<Rightarrow>
             (case watch_count tx start_rev compact s0 of (s1, p1) \<Rightarrow>
              case p1 of Watch_Counted tx start_rev compact i \<Rightarrow>
                (case watch_register c tx start_rev compact i s1 of (s2, _) \<Rightarrow>
                   bind_run (watch_lookup c tx start_rev compact i s2)
                     (\<lambda>p2. case p2 of
                        Watch_Scan tx start_rev i prefix es past \<Rightarrow>
                          bind_run (watch_turns c s2 tx start_rev i prefix es past) (\<lambda>p3. Returns (s2, p3))
                      | _ \<Rightarrow> Returns (s2, p2)))
              | _ \<Rightarrow> Returns (s1, p1))
         | p1 \<Rightarrow> Returns (s0, p1))
      | _ \<Rightarrow> Returns (s0, p))"

lemma watch_turns_items:
  "watch_turns c s tx start_rev i prefix es past =
     bind_run (past_changes_items s start_rev (watch_prev c) es past) (\<lambda>past'. Returns (Watch_Done (Inr (past', i, tx))))"
proof (induction es arbitrary: past)
  case (Cons e es)
  then show ?case by (cases e) (simp add: watch_turn_def bind_run_def split: run.split)
qed simp

lemma watch_alone_is_store_watch:
  "watch_alone c s = bind_run (store_watch s (watch_from c) (watch_to c) (watch_rev c) (watch_prev c))
     (\<lambda>(s', res). Returns (s', Watch_Done res))"
  by (auto simp: watch_alone_def store_watch_def watch_begin_def watch_check_def watch_count_def watch_register_def
      watch_lookup_def the_watcher_def watch_turns_items current_revision_def Let_def bind_run_def
      split: sum.split prod.split option.split run.split)

section \<open>Writes in flight\<close>

text \<open>The revisions that are taken but whose jobs are not sent yet.\<close>

definition write_pending :: "set_threads \<Rightarrow> i64 \<Rightarrow> bool" where
  "write_pending y n \<longleftrightarrow>
     (\<exists>t. (\<exists>r b. st_pc y t = Filling r b n) \<or> (\<exists>nv old. st_pc y t = Notifying nv old \<and> mod_revision nv = n))"

text \<open>A job that tells the channel of the value that was written at a revision.\<close>

definition told :: "channel_ref \<Rightarrow> set_threads \<Rightarrow> byte_array \<Rightarrow> i64 \<Rightarrow> bool" where
  "told tx y k n \<longleftrightarrow>
     (\<exists>j\<in>set (notify_tx (st_store y)). job_rev j = n \<and> tx \<in> set (job_watchers j) \<and> kv (job_msg j) = value_at (st_history y) k n)"

lemma write_pending_other: "write_pending y n \<Longrightarrow> (\<And>r b. st_pc y t \<noteq> Filling r b n) \<Longrightarrow>
    (\<And>nv old. st_pc y t = Notifying nv old \<Longrightarrow> mod_revision nv \<noteq> n) \<Longrightarrow> st_pc y' = (st_pc y)(t := p) \<Longrightarrow> write_pending y' n"
  unfolding write_pending_def by (metis fun_upd_apply)

lemma write_pending_here: "st_pc y t = Filling r b n \<Longrightarrow> write_pending y n"
  "st_pc y t = Notifying nv old \<Longrightarrow> mod_revision nv = n \<Longrightarrow> write_pending y n"
  unfolding write_pending_def by blast+

lemma value_at_app:
  assumes "x \<in> set (hist_revs h k)"
  shows "value_at (new @ h) k x = value_at h k x"
  using hist_values_app[of new h] hist_revs_bounds[OF assms] by (auto simp: value_at_def nth_append)

text \<open>What a step of the other calls does to the watchers, the jobs and the writes in flight.\<close>

lemma mod_write_value: "mod_revision (write_value x n v) = n"
  by (simp add: write_value_def split: option.split)

lemma set_step_watchers:
  assumes "set_step calls y y'" "set_inv calls y"
  shows "watchers (st_store y') = watchers (st_store y) \<and> watch_counter (st_store y') = watch_counter (st_store y) \<and>
    next_channel (st_store y') = next_channel (st_store y)"
  using assms(1)
proof (cases rule: set_step.cases)
  case (at_decide t latest r is_new)
  then show ?thesis using set_decide_cases[OF assms(2) at_decide(1,2)]
    by (auto simp: after_admission_def after_refusal_def Let_def split: if_splits)
next
  case (at_fill t r is_new n)
  from set_fill_returns[OF assms(2) at_fill(1)] at_fill(2) obtain nv d where "y' = after_fill t r is_new nv d y"
    by (metis run.inject)
  then show ?thesis by (simp add: after_fill_def Let_def)
next
  case (at_compact n s' res)
  from log_ok_compact[OF set_invD(2)[OF assms(2)] at_compact(2)] show ?thesis by (auto simp: at_compact(1))
qed (auto simp: set_begin_def set_enter_def set_index_def set_notify_def notify_watchers_def tree_map_insert_def
    prefix_map_insert_def Let_def split: option.split prod.split)

definition quiet_step :: "set_threads \<Rightarrow> set_threads \<Rightarrow> bool" where
  "quiet_step y y' \<longleftrightarrow> notify_tx (st_store y') = notify_tx (st_store y) \<and> (\<forall>n. write_pending y n \<longrightarrow> write_pending y' n) \<and>
     (\<exists>new. st_history y' = new @ st_history y \<and>
        (\<forall>k n. n \<in> set (hist_revs (st_history y') k) \<longrightarrow> n \<notin> set (hist_revs (st_history y) k) \<longrightarrow> write_pending y' n))"

lemma quiet_stepI:
  assumes "notify_tx (st_store y') = notify_tx (st_store y)" "st_history y' = st_history y" "st_pc y' = (st_pc y)(t := p)"
    "\<And>r b n. st_pc y t \<noteq> Filling r b n" "\<And>nv old. st_pc y t \<noteq> Notifying nv old"
  shows "quiet_step y y'"
  using assms(1,2) write_pending_other[OF _ assms(4) _ assms(3)] assms(5) by (auto simp: quiet_step_def)

lemma quiet_admission:
  assumes "st_pc y t = Locking latest r is_new"
  shows "quiet_step y (after_admission t (calls t) r is_new d y)" (is "quiet_step y ?y")
proof -
  have pc: "st_pc ?y = (st_pc y)(t := Filling r is_new (int (length (st_history y)) + 1))"
    and tx: "notify_tx (st_store ?y) = notify_tx (st_store y)"
    and h: "st_history ?y = [(call_key (calls t), call_value (calls t))] @ st_history y"
    by (simp_all add: after_admission_def Let_def)
  have "write_pending ?y (int (length (st_history y)) + 1)" by (rule write_pending_here(1)[where t = t]) (simp add: pc)
  then have new: "write_pending ?y n"
    if "n \<in> set (hist_revs (st_history ?y) k)" "n \<notin> set (hist_revs (st_history y) k)" for k n
    using that unfolding h by (auto split: if_splits)
  have "write_pending ?y n" if "write_pending y n" for n
    by (rule write_pending_other[OF that _ _ pc]) (simp_all add: assms)
  with tx h new show ?thesis unfolding quiet_step_def by blast
qed

lemma quiet_fill:
  assumes "st_pc y t = Filling r is_new n" "mod_revision nv = n"
  shows "quiet_step y (after_fill t r is_new nv d y)" (is "quiet_step y ?y")
proof -
  have pc: "st_pc ?y = (st_pc y)(t := Notifying nv (if is_new then None else Some (latest_value (tree_items (st_store y) r))))"
    and tx: "notify_tx (st_store ?y) = notify_tx (st_store y)" and h: "st_history ?y = st_history y"
    by (simp_all add: after_fill_def Let_def)
  have here: "write_pending ?y n" by (rule write_pending_here(2)[where t = t and nv = nv]) (simp_all add: pc assms(2))
  have "write_pending ?y m" if "write_pending y m" for m
  proof (cases "m = n")
    case False
    show ?thesis by (rule write_pending_other[OF that _ _ pc]) (use False assms(1) in simp_all)
  qed (use here in simp)
  with tx h show ?thesis unfolding quiet_step_def by auto
qed

lemma set_step_cases:
  assumes "set_step calls y y'" "set_inv calls y"
  shows "quiet_step y y' \<or> (\<exists>t nv old. st_pc y t = Notifying nv old \<and> y' = set_notify t (calls t) nv old y)"
  using assms(1)
proof (cases rule: set_step.cases)
  case (at_begin t)
  then show ?thesis by (auto simp: set_begin_def intro!: quiet_stepI)
next
  case (at_enter t latest)
  then show ?thesis
    by (cases "tree_map (st_store y) (call_key (calls t))")
      (auto simp: set_enter_def tree_map_insert_def Let_def intro!: quiet_stepI)
next
  case (at_index t latest r)
  then show ?thesis by (auto simp: set_index_def prefix_map_insert_frame intro!: quiet_stepI)
next
  case (at_decide t latest r is_new)
  obtain d where "y' = (if admits (hist_live (st_history y) (call_key (calls t))) (call_value (calls t)) (call_required (calls t))
      then after_admission t (calls t) r is_new d y else after_refusal t (calls t) latest y)"
    using set_decide_cases[OF assms(2) at_decide(1,2)] at_decide(3) by auto
  with quiet_admission[OF at_decide(1)] at_decide(1) show ?thesis
    by (auto simp: after_refusal_def Let_def intro!: quiet_stepI)
next
  case (at_fill t r is_new n)
  from set_fill_returns[OF assms(2) at_fill(1)] at_fill(2) obtain older d where
    "y' = after_fill t r is_new (write_value (hist_latest older (call_key (calls t))) n (call_value (calls t))) d y"
    by (metis run.inject)
  with quiet_fill[OF at_fill(1) mod_write_value] show ?thesis by simp
next
  case (at_compact n s' res)
  from log_ok_compact[OF set_invD(2)[OF assms(2)] at_compact(2)] have "notify_tx s' = notify_tx (st_store y)" by auto
  then show ?thesis by (auto simp: at_compact(1) quiet_step_def write_pending_def)
qed blast

section \<open>The watcher\<close>

text \<open>The keys the watcher is told of.\<close>

definition watches :: "watch_call \<Rightarrow> byte_array \<Rightarrow> bool" where
  "watches c k \<longleftrightarrow> (if watch_to c = [] then k = watch_from c else k < watch_to c \<and> watch_from c \<le> k)"

definition registered :: "watch_call \<Rightarrow> channel_ref \<Rightarrow> Store \<Rightarrow> bool" where
  "registered c tx s \<longleftrightarrow> watchers_wf s \<and> watch_counter s < i64_MAX \<and>
     (\<exists>i. ((watch_from c, i), the_watcher c tx (watch_rev c)) \<in> set (watchers s))"

lemma registered_notified:
  assumes "registered c tx s" "watches c k" "watch_rev c \<le> mod_revision v"
  shows "tx \<in> set (watchers_to_notify s k v)"
proof -
  obtain i where "((watch_from c, i), the_watcher c tx (watch_rev c)) \<in> set (watchers s)"
    using assms(1) by (auto simp: registered_def)
  moreover have "watcher_matches k v (the_watcher c tx (watch_rev c))" "ch (the_watcher c tx (watch_rev c)) = tx"
    using assms(2,3) by (auto simp: watcher_matches_def the_watcher_def watches_def)
  moreover have "watchers_wf s" "watch_counter s < i64_MAX" using assms(1) by (simp_all add: registered_def)
  note set_watchers_to_notify[OF this, of k v]
  ultimately show ?thesis by (metis (mono_tags, lifting) mem_Collect_eq)
qed

text \<open>
  No write from the requested revision on to a key of the range is lost: it is among the past changes,
  or the channel is told of it, or it is in flight, or its key is still to be scanned (in \<open>K\<close>).
\<close>

definition covered ::
    "watch_call \<Rightarrow> (byte_array \<Rightarrow> bool) \<Rightarrow> channel_ref \<Rightarrow> KeyValueWithPrev list \<Rightarrow> byte_array set \<Rightarrow> set_threads \<Rightarrow> bool" where
  "covered c wanted tx past K y \<longleftrightarrow>
     (\<forall>k n. wanted k \<and> watches c k \<and> n \<in> set (hist_revs (st_history y) k) \<and> watch_rev c \<le> n \<longrightarrow>
        (\<exists>x\<in>set past. kv x = value_at (st_history y) k n) \<or> told tx y k n \<or> write_pending y n \<or> k \<in> K)"

definition sound_past :: "watch_call \<Rightarrow> (byte_array \<Rightarrow> bool) \<Rightarrow> KeyValueWithPrev list \<Rightarrow> history \<Rightarrow> bool" where
  "sound_past c wanted past h \<longleftrightarrow>
     (\<forall>x\<in>set past. \<exists>k n. wanted k \<and> n \<in> set (hist_revs h k) \<and> watch_rev c \<le> n \<and> kv x = value_at h k n)"

lemma hist_revs_app: "set (hist_revs h k) \<subseteq> set (hist_revs (new @ h) k)"
  by (induction new) auto

lemma sound_past_app: "sound_past c wanted past h \<Longrightarrow> sound_past c wanted past (new @ h)"
  using hist_revs_app value_at_app unfolding sound_past_def by (metis subsetD)

lemma covered_quiet:
  assumes "covered c wanted tx past K y" "quiet_step y y'"
  shows "covered c wanted tx past K y'"
  unfolding covered_def
proof (intro allI impI, elim conjE)
  fix k n assume w: "wanted k" "watches c k" "watch_rev c \<le> n" and n: "n \<in> set (hist_revs (st_history y') k)"
  obtain new where h: "st_history y' = new @ st_history y" and tx: "notify_tx (st_store y') = notify_tx (st_store y)"
    and fl: "\<And>n. write_pending y n \<Longrightarrow> write_pending y' n"
    and new: "n \<notin> set (hist_revs (st_history y) k) \<Longrightarrow> write_pending y' n"
    using assms(2) n unfolding quiet_step_def by blast
  show "(\<exists>x\<in>set past. kv x = value_at (st_history y') k n) \<or> told tx y' k n \<or> write_pending y' n \<or> k \<in> K"
  proof (cases "n \<in> set (hist_revs (st_history y) k)")
    case True
    then have "value_at (st_history y') k n = value_at (st_history y) k n" unfolding h by (rule value_at_app)
    with assms(1) w True tx fl show ?thesis unfolding covered_def told_def by metis
  qed (use new in blast)
qed

lemma covered_notify:
  assumes cov: "covered c wanted tx past K y" and reg: "registered c tx (st_store y)" and inv: "set_inv calls y"
    and pc: "st_pc y t = Notifying nv old"
  shows "covered c wanted tx past K (set_notify t (calls t) nv old y)" (is "covered _ _ _ _ _ ?y")
  unfolding covered_def
proof (intro allI impI, elim conjE)
  fix k n assume w: "wanted k" "watches c k" "watch_rev c \<le> n" and n: "n \<in> set (hist_revs (st_history ?y) k)"
  have h: "st_history ?y = st_history y" and pc': "st_pc ?y = (st_pc y)(t := Finished (Inr (mod_revision nv)))"
    by (simp_all add: set_notify_def)
  obtain j where tx: "notify_tx (st_store ?y) = notify_tx (st_store y) @ [j]" and
    j: "job_rev j = mod_revision nv" "job_watchers j = watchers_to_notify (st_store y) (call_key (calls t)) nv"
      "kv (job_msg j) = as_mvcc_key_value nv (call_key (calls t))"
    by (simp add: set_notify_def notify_watchers_def Let_def)
  obtain later older where o: "st_history y = later @ (call_key (calls t), call_value (calls t)) # older"
    "nv = write_value (hist_latest older (call_key (calls t))) (int (length older) + 1) (call_value (calls t))"
    using set_invD(5)[OF inv, of t] pc by (auto simp: thread_ok_def written_def)
  have "told tx ?y k n" if eq: "mod_revision nv = n"
  proof -
    have n': "n = int (length older) + 1" using eq o(2) by (simp add: mod_write_value)
    with n h o(1) have k: "call_key (calls t) = k" using hist_revs_at_write by metis
    have "value_at (st_history y) k n = as_mvcc_key_value nv k"
      using hist_values_at_write[of later "call_key (calls t)" "call_value (calls t)" older] o n' k by (simp add: value_at_def)
    moreover have "tx \<in> set (job_watchers j)" using registered_notified[OF reg w(2)] w(3) eq k j(2) by simp
    ultimately show ?thesis using j eq k tx h by (auto simp: told_def)
  qed
  moreover have "write_pending ?y n" if "write_pending y n" "mod_revision nv \<noteq> n"
    by (rule write_pending_other[OF that(1) _ _ pc']) (use pc that(2) in auto)
  moreover have "told tx ?y k n" if "told tx y k n" using that tx h by (auto simp: told_def)
  ultimately show "(\<exists>x\<in>set past. kv x = value_at (st_history ?y) k n) \<or> told tx ?y k n \<or> write_pending ?y n \<or> k \<in> K"
    using cov w n unfolding covered_def h by blast
qed

lemma covered_others:
  assumes "covered c wanted tx past K y" "registered c tx (st_store y)" "set_inv calls y" "set_step calls y y'"
  shows "covered c wanted tx past K y'"
  using set_step_cases[OF assms(4,3)] covered_quiet[OF assms(1)] covered_notify[OF assms(1-3)] by blast

lemma registered_others:
  assumes "registered c tx (st_store y)" "set_inv calls y" "set_step calls y y'"
  shows "registered c tx (st_store y')"
  using set_step_watchers[OF assms(3,2)] assms(1) watchers_wf_wider[of "st_store y" "st_store y'"]
  by (auto simp: registered_def)

section \<open>The invariant of a run\<close>

definition before_entry :: "watch_call \<Rightarrow> Store \<Rightarrow> channel_ref \<Rightarrow> i64 \<Rightarrow> bool" where
  "before_entry c s tx start_rev \<longleftrightarrow> watchers_wf s \<and> start_rev = watch_rev c \<and> tx < next_channel s"

definition watch_ok :: "watch_call \<Rightarrow> byte_array \<Rightarrow> (byte_array \<Rightarrow> bool) \<Rightarrow> set_threads \<Rightarrow> watch_pc \<Rightarrow> bool" where
  "watch_ok c p wanted y pc =
     (let s = st_store y in
      case pc of
        Watch_Start \<Rightarrow> watchers_wf s \<and> 0 \<le> watch_counter s \<and> watch_counter s + 1 < i64_MAX
      | Watch_Opened tx sr \<Rightarrow> before_entry c s tx sr \<and> 0 \<le> watch_counter s \<and> watch_counter s + 1 < i64_MAX
      | Watch_Checked tx sr compact \<Rightarrow> before_entry c s tx sr \<and> 0 \<le> watch_counter s \<and> watch_counter s + 1 < i64_MAX
      | Watch_Counted tx sr compact i \<Rightarrow> before_entry c s tx sr \<and> 1 \<le> i \<and> i \<le> watch_counter s \<and> watch_counter s < i64_MAX
      | Watch_Registered tx sr compact i \<Rightarrow> registered c tx s \<and> sr = watch_rev c
      | Watch_Scan tx sr i q es past \<Rightarrow> registered c tx s \<and> sr = watch_rev c \<and> q = p \<and>
          (\<forall>(sfx, ref)\<in>set es. tree_map s (p @ sfx) = Some ref \<and> wanted (p @ sfx)) \<and>
          sound_past c wanted past (st_history y) \<and> covered c wanted tx past ((\<lambda>(sfx, _). p @ sfx) ` set es) y
      | Watch_Done (Inl e) \<Rightarrow> True
      | Watch_Done (Inr (past, i, tx)) \<Rightarrow> registered c tx s \<and>
          sound_past c wanted past (st_history y) \<and> covered c wanted tx past {} y)"

lemma watch_ok_others:
  assumes ok: "watch_ok c p wanted y pc" and inv: "set_inv calls y" and step: "set_step calls y y'"
  shows "watch_ok c p wanted y' pc"
proof -
  note w = set_step_watchers[OF step inv]
  have wf: "watchers_wf (st_store y) \<Longrightarrow> watchers_wf (st_store y')" by (rule watchers_wf_wider) (use w in auto)
  then have b: "before_entry c (st_store y) tx sr \<Longrightarrow> before_entry c (st_store y') tx sr" for tx sr
    using w by (simp add: before_entry_def)
  note reg = registered_others[OF _ inv step]
  obtain new where h: "st_history y' = new @ st_history y" using set_step_grows[OF step inv] by blast
  have tm: "tree_map (st_store y) k = Some r \<Longrightarrow> tree_map (st_store y') k = Some r" for k r
    using set_step_grows[OF step inv] by (auto simp: map_le_def dom_def)
  note rest = sound_past_app[of c wanted _ "st_history y" new] covered_others[OF _ _ inv step]
  show ?thesis
    using ok w wf b reg rest tm unfolding watch_ok_def Let_def h
    by (cases pc) (auto split: sum.splits prod.splits)
qed

lemma set_inv_store:
  assumes "set_inv calls y" "prefix_map s' = prefix_map (st_store y)" "tree_map s' = tree_map (st_store y)"
    "tree_items s' = tree_items (st_store y)" "next_item s' = next_item (st_store y)"
    "values_by_revision s' = values_by_revision (st_store y)"
  shows "set_inv calls (y\<lparr>st_store := s'\<rparr>)"
proof -
  have "thread_ok c t p s' L h = thread_ok c t p (st_store y) L h" for c t p L h
    by (cases p) (simp_all add: thread_ok_def assms(3,4,6))
  with assms(1) index_wf_cong[OF assms(2-5)] show ?thesis by (simp add: set_inv_def Let_def assms(3,4,6))
qed

lemma watch_ok_lookup:
  assumes inv: "set_inv calls y" and fp: "fresh_pending calls s0 y" and r: "0 < watch_rev c"
    and pr: "prefix_and_range_of_key (watch_from c) (watch_to c) = Inr (p, lo, hi)"
    and ok: "watch_ok c p (in_scan p lo hi) y (Watch_Registered tx sr compact i)"
    and run: "watch_lookup c tx sr compact i (st_store y) = Returns pc"
  shows "watch_ok c p (in_scan p lo hi) y pc"
proof -
  have reg: "registered c tx (st_store y)" "sr = watch_rev c" using ok by (simp_all add: watch_ok_def Let_def)
  have written: "hist_latest (st_history y) k \<noteq> None" if "n \<in> set (hist_revs (st_history y) k)" for k n
    using that hist_latest_None_iff[of "st_history y" k] by auto
  show ?thesis
  proof (cases "prefix_map (st_store y) p")
    case None
    have "\<not> in_scan p lo hi k" if "n \<in> set (hist_revs (st_history y) k)" for k n
      using written_key_found[OF inv fp _ written[OF that]] None by (metis option.distinct(1))
    then have "covered c (in_scan p lo hi) tx [] {} y" by (auto simp: covered_def)
    moreover have "pc = Watch_Done (Inr ([], i, tx))" using run pr None r by (simp add: watch_lookup_def)
    ultimately show ?thesis using reg by (simp add: watch_ok_def sound_past_def Let_def)
  next
    case (Some m)
    let ?es = "filter (\<lambda>(k, _). above lo k \<and> below hi k) m"
    have pc: "pc = Watch_Scan tx sr i p ?es []"
      using run pr Some r by (auto simp: watch_lookup_def bind_run_eq_Returns btree_range_Returns)
    have "covered c (in_scan p lo hi) tx [] ((\<lambda>(sfx, _). p @ sfx) ` set ?es) y"
      unfolding covered_def
    proof (intro allI impI, elim conjE)
      fix k n assume k: "in_scan p lo hi k" "n \<in> set (hist_revs (st_history y) k)"
      obtain m' sfx ref where "prefix_map (st_store y) p = Some m'"
        "(sfx, ref) \<in> set (filter (\<lambda>(k, _). above lo k \<and> below hi k) m')" "k = p @ sfx"
        by (rule written_key_found[OF inv fp k(1) written[OF k(2)]])
      with Some show "(\<exists>x\<in>set []. kv x = value_at (st_history y) k n) \<or> told tx y k n \<or> write_pending y n \<or>
          k \<in> (\<lambda>(sfx, _). p @ sfx) ` set ?es" by force
    qed
    moreover have "\<forall>(sfx, ref)\<in>set ?es. tree_map (st_store y) (p @ sfx) = Some ref \<and> in_scan p lo hi (p @ sfx)"
      using prefix_entries(2)[OF inv Some] by (auto simp: in_scan_alt)
    moreover have "sound_past c (in_scan p lo hi) [] (st_history y)" by (simp add: sound_past_def)
    ultimately show ?thesis using reg unfolding pc watch_ok_def Let_def watch_pc.case by blast
  qed
qed

lemma watch_ok_turn:
  assumes inv: "set_inv calls y" and e: "int (earliest_revision (values_by_revision (st_store y))) < watch_rev c"
    and ok: "watch_ok c p wanted y (Watch_Scan tx sr i q (x # es) past)"
    and free: "st_locks y (snd x) = None" and run: "watch_turn c tx sr i q x es past (st_store y) = Returns pc"
  shows "watch_ok c p wanted y pc"
proof -
  obtain sfx ref where x: "x = (sfx, ref)" by fastforce
  let ?h = "st_history y" and ?k = "p @ sfx" and ?e = "earliest_revision (values_by_revision (st_store y))"
  let ?ev = "events_from (st_history y) ?e (watch_rev c) (watch_prev c) (p @ sfx)"
  have reg: "registered c tx (st_store y)" "sr = watch_rev c" "q = p"
    and es: "tree_map (st_store y) ?k = Some ref" "wanted ?k"
      "\<forall>(sfx, ref)\<in>set es. tree_map (st_store y) (p @ sfx) = Some ref \<and> wanted (p @ sfx)"
    and past: "sound_past c wanted past ?h" "covered c wanted tx past (insert ?k ((\<lambda>(sfx, _). p @ sfx) ` set es)) y"
    using ok by (simp_all add: watch_ok_def x Let_def)
  have key: "item_key (tree_items (st_store y) ref) = ?k" using set_invD(1)[OF inv] es(1) unfolding index_but_def by blast
  have free': "st_locks y ref = None" using free x by simp
  have "gets_revs (st_store y) ?h ?k"
    by (rule gets_revs_log[OF set_invD(2)[OF inv] unlocked_rev_filled[OF inv es(1) free']])
  from past_changes_of_item[OF this set_invD(4)[OF inv es(1) free'] key e] run reg(2,3)
  have pc: "pc = Watch_Scan tx sr i p es (past @ ?ev)" by (simp add: watch_turn_def x)
  have kvs: "kv ` set ?ev = value_at ?h ?k ` {n \<in> set (hist_revs ?h ?k). watch_rev c \<le> n}"
    by (auto simp: events_from_def image_iff)
  have "sound_past c wanted (past @ ?ev) ?h"
    using past(1) es(2) unfolding sound_past_def set_append ball_Un by (auto simp: events_from_def)
  moreover have "covered c wanted tx (past @ ?ev) ((\<lambda>(sfx, _). p @ sfx) ` set es) y"
    unfolding covered_def
  proof (intro allI impI, elim conjE)
    fix k n assume k: "wanted k" "watches c k" "n \<in> set (hist_revs ?h k)" "watch_rev c \<le> n"
    have here: "\<exists>x\<in>set ?ev. kv x = value_at ?h k n" if "k = ?k"
    proof -
      have "value_at ?h ?k n \<in> kv ` set ?ev" unfolding kvs using k(3,4) that by blast
      then show ?thesis using that by auto
    qed
    from past(2) k have "(\<exists>x\<in>set past. kv x = value_at ?h k n) \<or> told tx y k n \<or> write_pending y n \<or>
        k = ?k \<or> k \<in> (\<lambda>(sfx, _). p @ sfx) ` set es"
      unfolding covered_def by blast
    with here show "(\<exists>x\<in>set (past @ ?ev). kv x = value_at ?h k n) \<or> told tx y k n \<or> write_pending y n \<or>
        k \<in> (\<lambda>(sfx, _). p @ sfx) ` set es"
      unfolding set_append by blast
  qed
  ultimately show ?thesis using reg es(3) unfolding pc watch_ok_def Let_def by simp
qed

definition watch_inv :: "(nat \<Rightarrow> set_call) \<Rightarrow> watch_call \<Rightarrow> Store \<Rightarrow> byte_array \<Rightarrow> (byte_array \<Rightarrow> bool) \<Rightarrow> set_threads \<times> watch_pc \<Rightarrow> bool" where
  "watch_inv calls c s0 p wanted z \<longleftrightarrow>
     (case z of (y, pc) \<Rightarrow>
        set_inv calls y \<and> fresh_pending calls s0 y \<and>
        (int (earliest_revision (values_by_revision (st_store y))) < watch_rev c \<longrightarrow> watch_ok c p wanted y pc))"

text \<open>The sections of the watch that change the store touch only the watchers.\<close>

lemma watch_inv_own:
  assumes inv: "watch_inv calls c s0 p wanted (y, pc)"
    and s': "prefix_map s' = prefix_map (st_store y)" "tree_map s' = tree_map (st_store y)"
      "tree_items s' = tree_items (st_store y)" "next_item s' = next_item (st_store y)"
      "values_by_revision s' = values_by_revision (st_store y)"
    and ok: "watch_ok c p wanted y pc \<Longrightarrow> watch_ok c p wanted (y\<lparr>st_store := s'\<rparr>) pc'"
  shows "watch_inv calls c s0 p wanted (y\<lparr>st_store := s'\<rparr>, pc')"
  using inv set_inv_store[OF _ s'] ok s'(2,5) by (auto simp: watch_inv_def fresh_pending_def)

lemma watch_inv_step:
  assumes "watch_step calls c z z'" "watch_inv calls c s0 p (in_scan p lo hi) z" "one_creator calls s0" "0 < watch_rev c"
    and pr: "prefix_and_range_of_key (watch_from c) (watch_to c) = Inr (p, lo, hi)"
  shows "watch_inv calls c s0 p (in_scan p lo hi) z'"
  using assms(1,2)
proof (induction rule: watch_step.induct)
  case (w_others y y' pc)
  have inv: "set_inv calls y" "fresh_pending calls s0 y" using w_others(3) by (simp_all add: watch_inv_def)
  have "watch_ok c p (in_scan p lo hi) y' pc" if "int (earliest_revision (values_by_revision (st_store y'))) < watch_rev c"
    using watch_ok_others[OF _ inv(1) w_others(1)] w_others(3) set_step_grows[OF w_others(1) inv(1)] that
    by (auto simp: watch_inv_def)
  with set_inv_step[OF w_others(1) inv(1)] fresh_pending_step[OF assms(3) w_others(1) inv] show ?case
    by (simp add: watch_inv_def)
next
  case (w_open y)
  with assms(4) show ?case
    by (auto simp: watch_begin_def watch_ok_def before_entry_def Let_def
        intro!: watch_inv_own[OF w_open] elim!: watchers_wf_wider)
next
  case (w_check y tx sr)
  then show ?case by (auto simp: watch_inv_def watch_check_def watch_ok_def Let_def)
next
  case (w_count y tx sr compact)
  then show ?case
    by (auto simp: watch_count_def watch_ok_def before_entry_def Let_def
        intro!: watch_inv_own[OF w_count] elim!: watchers_wf_wider)
next
  case (w_register y tx sr compact i)
  have "registered c tx ((st_store y)\<lparr>watchers := btree_insert (watch_from c, i) (the_watcher c tx sr) (watchers (st_store y))\<rparr>)"
    if ok: "watch_ok c p (in_scan p lo hi) y (Watch_Counted tx sr compact i)"
  proof -
    have b: "watchers_wf (st_store y)" "sr = watch_rev c" "tx < next_channel (st_store y)" "1 \<le> i"
      "i \<le> watch_counter (st_store y)" "watch_counter (st_store y) < i64_MAX"
      using ok by (simp_all add: watch_ok_def before_entry_def Let_def)
    have "btree_wf (watchers (st_store y))" using b(1) by (simp add: watchers_wf_def)
    from mem_btree_insert[OF this] watchers_wf_enter[OF b(1) _ b(4,5), of "the_watcher c tx sr" "watch_from c"] b show ?thesis
      by (auto simp: registered_def the_watcher_def)
  qed
  then show ?case using w_register
    by (auto simp: watch_register_def intro!: watch_inv_own[OF w_register]) (auto simp: watch_ok_def before_entry_def Let_def)
next
  case (w_lookup tx sr compact i y pc)
  then show ?case using watch_ok_lookup[OF _ _ assms(4) pr] by (auto simp: watch_inv_def)
next
  case (w_turn y e tx sr i prefix es past pc)
  then show ?case using watch_ok_turn[OF _ _ _ w_turn(1,2)] by (auto simp: watch_inv_def)
next
  case (w_finish y tx sr i prefix past)
  then show ?case by (auto simp: watch_inv_def watch_ok_def Let_def)
qed

lemma watch_inv_run:
  assumes "(watch_step calls c)\<^sup>*\<^sup>* z z'" "watch_inv calls c s0 p (in_scan p lo hi) z" "one_creator calls s0" "0 < watch_rev c"
    and "prefix_and_range_of_key (watch_from c) (watch_to c) = Inr (p, lo, hi)"
  shows "watch_inv calls c s0 p (in_scan p lo hi) z'"
  using assms(1,2) by (induction rule: rtranclp_induct) (use watch_inv_step[OF _ _ assms(3-5)] in blast)+

section \<open>Schedules\<close>

definition watch_advance :: "watch_call \<Rightarrow> set_threads \<Rightarrow> watch_pc \<Rightarrow> (set_threads \<times> watch_pc) option" where
  "watch_advance c y p =
     (case p of
        Watch_Start \<Rightarrow> Some (in_store y (watch_begin c (st_store y)))
      | Watch_Opened tx sr \<Rightarrow> Some (y, watch_check c tx sr (st_store y))
      | Watch_Checked tx sr compact \<Rightarrow> Some (in_store y (watch_count tx sr compact (st_store y)))
      | Watch_Counted tx sr compact i \<Rightarrow> Some (in_store y (watch_register c tx sr compact i (st_store y)))
      | Watch_Registered tx sr compact i \<Rightarrow> map_option (Pair y) (returned (watch_lookup c tx sr compact i (st_store y)))
      | Watch_Scan tx sr i prefix [] past \<Rightarrow> Some (y, Watch_Done (Inr (past, i, tx)))
      | Watch_Scan tx sr i prefix (e # es) past \<Rightarrow>
          if st_locks y (snd e) = None
          then map_option (Pair y) (returned (watch_turn c tx sr i prefix e es past (st_store y))) else None
      | Watch_Done res \<Rightarrow> None)"

definition watcher_act :: "(nat \<Rightarrow> set_call) \<Rightarrow> watch_call \<Rightarrow> turn \<Rightarrow> set_threads \<times> watch_pc \<Rightarrow> (set_threads \<times> watch_pc) option" where
  "watcher_act calls c a z =
     (case z of (y, p) \<Rightarrow>
        (case a of
           Write t \<Rightarrow>
             Option.bind (set_advance calls t y)
               (\<lambda>y'. if \<forall>prefix\<in>set_option (watch_holds p). prefix_map (st_store y') prefix = prefix_map (st_store y) prefix
                     then Some (y', p) else None)
         | Compact n \<Rightarrow>
             map_option (\<lambda>(s', _). (y\<lparr>st_store := s'\<rparr>, p)) (returned (store_compact (st_store y) n))
         | Read \<Rightarrow> watch_advance c y p))"

fun watcher_acts :: "(nat \<Rightarrow> set_call) \<Rightarrow> watch_call \<Rightarrow> turn list \<Rightarrow> set_threads \<times> watch_pc \<Rightarrow> (set_threads \<times> watch_pc) option" where
  "watcher_acts calls c [] z = Some z"
| "watcher_acts calls c (a # as) z = Option.bind (watcher_act calls c a z) (watcher_acts calls c as)"

lemma watch_advance_step: "watch_advance c y p = Some z \<Longrightarrow> watch_step calls c (y, p) z"
  unfolding watch_advance_def
  by (auto split: watch_pc.splits list.splits if_splits elim!: returned_SomeE intro: watch_step.intros)

lemma watcher_act_step:
  assumes "watcher_act calls c a z = Some z'"
  shows "watch_step calls c z z'"
proof -
  obtain y p where z: "z = (y, p)" by fastforce
  show ?thesis
  proof (cases a)
    case (Write t)
    with assms z show ?thesis
      by (auto simp: watcher_act_def Option.bind_eq_Some_conv split: if_splits
          intro!: watch_step.w_others set_advance_step)
  next
    case (Compact n)
    with assms z obtain s' res where sc: "store_compact (st_store y) n = Returns (s', res)" "z' = (y\<lparr>st_store := s'\<rparr>, p)"
      by (auto simp: watcher_act_def elim!: returned_SomeE)
    with set_step.at_compact[OF sc(1), of calls] compact_keeps_prefixes[OF sc(1)] show ?thesis
      by (auto simp: z sc(2) intro!: watch_step.w_others)
  next
    case Read
    with assms z show ?thesis by (auto simp: watcher_act_def intro: watch_advance_step)
  qed
qed

lemma watcher_acts_steps: "watcher_acts calls c as z = Some z' \<Longrightarrow> (watch_step calls c)\<^sup>*\<^sup>* z z'"
  by (induction as arbitrary: z)
    (auto simp: Option.bind_eq_Some_conv intro: converse_rtranclp_into_rtranclp dest!: watcher_act_step)

definition watching :: "(nat \<Rightarrow> set_call) \<Rightarrow> watch_call \<Rightarrow> turn list \<Rightarrow> Store \<Rightarrow> history \<Rightarrow> set_threads \<times> watch_pc" where
  "watching calls c as s h = the (watcher_acts calls c as (threads_init s h, Watch_Start))"

lemma watching_run:
  assumes "\<not> Option.is_none (watcher_acts calls c as (threads_init s h, Watch_Start))"
  shows "(watch_step calls c)\<^sup>*\<^sup>* (threads_init s h, Watch_Start) (watching calls c as s h)"
  using assms by (auto simp: watching_def Option.is_none_def intro: watcher_acts_steps)

lemma watch_advance_pc: "watch_advance c y p = Some (y', p') \<Longrightarrow> st_pc y' = st_pc y"
  by (auto simp: watch_advance_def watch_begin_def watch_count_def watch_register_def
      split: watch_pc.splits list.splits if_splits)

lemma watcher_acts_idle:
  "watcher_acts calls c as (y, p) = Some (y', p') \<Longrightarrow> Write t \<notin> set as \<Longrightarrow> st_pc y' t = st_pc y t"
proof (induction as arbitrary: y p)
  case (Cons a as)
  then obtain y1 p1 where 1: "watcher_act calls c a (y, p) = Some (y1, p1)" "watcher_acts calls c as (y1, p1) = Some (y', p')"
    by (auto simp: Option.bind_eq_Some_conv)
  have "st_pc y1 t = st_pc y t"
    using 1(1) Cons.prems(2) set_advance_other watch_advance_pc[of c y p y1 p1]
    by (cases a) (auto simp: watcher_act_def Option.bind_eq_Some_conv split: if_splits)
  with Cons.IH[OF 1(2)] Cons.prems(2) show ?case by simp
qed simp

lemma watching_quiescent:
  assumes "\<not> Option.is_none (watcher_acts calls c as (threads_init s h, Watch_Start))"
    and "\<And>t. Write t \<in> set as \<Longrightarrow> \<exists>res. st_pc (fst (watching calls c as s h)) t = Finished res"
  shows "quiescent (fst (watching calls c as s h))"
  unfolding quiescent_def
proof
  fix t
  obtain y p where z: "watcher_acts calls c as (threads_init s h, Watch_Start) = Some (y, p)"
    using assms(1) by (auto simp: Option.is_none_def)
  then show "st_pc (fst (watching calls c as s h)) t = Ready \<or> (\<exists>res. st_pc (fst (watching calls c as s h)) t = Finished res)"
    using assms(2)[of t] watcher_acts_idle[OF z, of t] by (cases "Write t \<in> set as") (simp_all add: watching_def threads_init_def)
qed

lemma quiescent_landed: "quiescent y \<Longrightarrow> \<not> write_pending y n"
  unfolding quiescent_def write_pending_def by (metis set_pc.distinct)

section \<open>Properties\<close>

text \<open>
  C6: No write is lost between the past changes and the channel of a watch that is opened beside
  concurrent writes. As long as no two calls create the same key, and nothing from the requested revision
  on is compacted, every write to a watched key from that revision on is among the past changes with
  its value, or a job with its value goes to the channel of the watch, or it is still on its way to
  its job; and every past change is such a write.
\<close>

theorem concurrent_watch_complete:
  assumes "store_repr s h" "watchers_wf s" "0 \<le> watch_counter s" "watch_counter s + 1 < i64_MAX"
    and "(watch_step calls c)\<^sup>*\<^sup>* (threads_init s h, Watch_Start) (y, Watch_Done (Inr (past, i, tx)))"
    and "one_creator calls s" "0 < watch_rev c" "compacted_revision (st_store y) < watch_rev c"
    and "prefix_and_range_of_key (watch_from c) (watch_to c) = Inr (p, lo, hi)"
  shows "(\<forall>k n. in_scan p lo hi k \<and> watches c k \<and> n \<in> set (hist_revs (st_history y) k) \<and> watch_rev c \<le> n \<longrightarrow>
      (\<exists>x\<in>set past. kv x = value_at (st_history y) k n) \<or>
      (\<exists>j\<in>set (notify_tx (st_store y)). job_rev j = n \<and> tx \<in> set (job_watchers j) \<and>
         kv (job_msg j) = value_at (st_history y) k n) \<or>
      write_pending y n) \<and>
    (\<forall>x\<in>set past. \<exists>k n. in_scan p lo hi k \<and> n \<in> set (hist_revs (st_history y) k) \<and> watch_rev c \<le> n \<and>
       kv x = value_at (st_history y) k n)"
proof -
  have "watch_inv calls c s p (in_scan p lo hi) (threads_init s h, Watch_Start)"
    using threads_inv_init[OF assms(1), of calls] assms(2-4)
    by (simp add: watch_inv_def threads_inv_def fresh_pending_def watch_ok_def threads_init_def)
  from watch_inv_run[OF assms(5) this assms(6,7,9)] assms(8) show ?thesis
    by (simp add: watch_inv_def watch_ok_def covered_def sound_past_def told_def compacted_revision_def Let_def)
qed

definition watch_a :: "i64 \<Rightarrow> watch_call" where
  "watch_a r = \<lparr>watch_from = key_a, watch_to = [], watch_rev = r, watch_prev = False\<rparr>"

text \<open>A put of the watched key after its item was scanned, but before the watch returns.\<close>

definition put_after_scan :: "turn list" where
  "put_after_scan = replicate 6 Read @ replicate 5 (Write 0) @ [Read]"

theorem concurrent_watch_complete_witness:
  "\<exists>y past. watching (puts_of key_a) (watch_a 3) put_after_scan example_store example_history = (y, Watch_Done (Inr (past, 1, 0))) \<and>
     map (\<lambda>x. kv_mod_revision (kv x)) past = [3, 4] \<and> quiescent y \<and> 6 \<in> set (hist_revs (st_history y) key_a) \<and>
     ((\<exists>x\<in>set past. kv x = value_at (st_history y) key_a 6) \<or>
      (\<exists>j\<in>set (notify_tx (st_store y)). job_rev j = 6 \<and> 0 \<in> set (job_watchers j) \<and>
         kv (job_msg j) = value_at (st_history y) key_a 6))"
proof -
  let ?z = "watching (puts_of key_a) (watch_a 3) put_after_scan example_store example_history"
  have run: "\<not> Option.is_none (watcher_acts (puts_of key_a) (watch_a 3) put_after_scan (threads_init example_store example_history, Watch_Start))"
    and fin: "st_pc (fst ?z) 0 = Finished (Inr 6)" and comp: "compacted_revision (st_store (fst ?z)) = 0"
    and rv: "6 \<in> set (hist_revs (st_history (fst ?z)) key_a)" and k: "tree_map example_store key_a \<noteq> None"
    and res: "(case snd ?z of Watch_Done (Inr (past, i, tx)) \<Rightarrow> map (\<lambda>x. kv_mod_revision (kv x)) past = [3, 4] \<and> i = 1 \<and> tx = 0 | _ \<Rightarrow> False)"
    and pr: "prefix_and_range_of_key (watch_from (watch_a 3)) (watch_to (watch_a 3)) = Inr (pods, Included [97], Included [97])"
    by code_simp+
  obtain y past where z: "?z = (y, Watch_Done (Inr (past, 1, 0)))" "map (\<lambda>x. kv_mod_revision (kv x)) past = [3, 4]"
    using res by (cases ?z) (auto split: watch_pc.splits sum.splits)
  have q: "quiescent y" using watching_quiescent[OF run] fin z by (auto simp: put_after_scan_def)
  have one: "one_creator (puts_of key_a) example_store" using k by (auto simp: one_creator_def puts_of_def)
  have wanted: "in_scan pods (Included [97]) (Included [97]) key_a" "watches (watch_a 3) key_a" "watch_rev (watch_a 3) \<le> 6"
    using range_of_key_single[OF pr[unfolded watch_a_def watch_call.simps]] by (simp_all add: in_scan_alt watches_def watch_a_def)
  have bounds: "0 \<le> watch_counter example_store" "watch_counter example_store + 1 < i64_MAX" "0 < watch_rev (watch_a 3)"
    "compacted_revision (st_store y) < watch_rev (watch_a 3)"
    using example_watchers(2) comp z by (simp_all add: watch_a_def i64_MAX_def)
  note concurrent_watch_complete[OF example_repr example_watchers(1) bounds(1,2) watching_run[OF run, unfolded z(1)] one bounds(3,4) pr,
      THEN conjunct1, rule_format, of key_a 6]
  with wanted rv z q quiescent_landed[OF q] show ?thesis by auto
qed

text \<open>A write that a watch which asked for it is never told of, although all calls have returned.\<close>

definition lost_write :: "(nat \<Rightarrow> set_call) \<Rightarrow> watch_call \<Rightarrow> Store \<Rightarrow> history \<Rightarrow> set_threads \<Rightarrow> byte_array \<Rightarrow> i64 \<Rightarrow> bool" where
  "lost_write calls c s h y k n \<longleftrightarrow> quiescent y \<and> watches c k \<and> n \<in> set (hist_revs (st_history y) k) \<and> watch_rev c \<le> n \<and>
     (\<exists>past i tx. (watch_step calls c)\<^sup>*\<^sup>* (threads_init s h, Watch_Start) (y, Watch_Done (Inr (past, i, tx))) \<and>
        (\<forall>x\<in>set past. kv_mod_revision (kv x) \<noteq> n) \<and>
        (\<forall>j\<in>set (notify_tx (st_store y)). job_rev j = n \<longrightarrow> tx \<notin> set (job_watchers j)))"

definition misses :: "i64 \<Rightarrow> set_threads \<times> watch_pc \<Rightarrow> bool" where
  "misses n z =
     (case z of (y, Watch_Done (Inr (past, i, tx))) \<Rightarrow>
        (\<forall>x\<in>set past. kv_mod_revision (kv x) \<noteq> n) \<and>
        (\<forall>j\<in>set (notify_tx (st_store y)). job_rev j = n \<longrightarrow> tx \<notin> set (job_watchers j))
      | _ \<Rightarrow> False)"

lemma lost_writeI:
  assumes "\<not> Option.is_none (watcher_acts calls c as (threads_init s h, Watch_Start))" "quiescent (fst (watching calls c as s h))"
    and "watches c k" "n \<in> set (hist_revs (st_history (fst (watching calls c as s h))) k)" "watch_rev c \<le> n"
    and "misses n (watching calls c as s h)"
  shows "lost_write calls c s h (fst (watching calls c as s h)) k n"
proof -
  obtain y past i tx where "watching calls c as s h = (y, Watch_Done (Inr (past, i, tx)))"
    using assms(6) by (auto simp: misses_def split: prod.splits watch_pc.splits sum.splits)
  with assms watching_run[OF assms(1)] show ?thesis unfolding lost_write_def misses_def by auto
qed

text \<open>The first put has created the item, and the second has returned, when the key is watched from 1 on.\<close>

definition new_key_race :: "turn list" where
  "new_key_race = map Write race_start @ replicate 5 Read @ replicate 4 (Write 0)"

text \<open>A compaction between the check of the revision and the scan.\<close>

definition compact_race :: "turn list" where
  "compact_race = Read # Read # Compact 4 # replicate 5 Read"

text \<open>
  C23: Neither of the two conditions can be dropped. Two puts of the same new key: a watch that is opened
  after one of them has returned, but before the other has entered the key in \<open>prefix_map\<close>, is never
  told of the write that returned. And with a compaction while the watch is being opened the past
  changes silently lack the writes that were compacted.
\<close>

theorem watch_loses_write:
  "(\<exists>calls c y k n. lost_write calls c (store_init 2 None) [] y k n \<and> compacted_revision (st_store y) = 0) \<and>
   (\<exists>calls c s h y k n. store_repr s h \<and> one_creator calls s \<and> compacted_revision s < watch_rev c \<and> lost_write calls c s h y k n)"
proof
  let ?z = "watching two_calls (watch_a 1) new_key_race (store_init 2 None) []"
  have run: "\<not> Option.is_none (watcher_acts two_calls (watch_a 1) new_key_race (threads_init (store_init 2 None) [], Watch_Start))"
    and fin: "st_pc (fst ?z) 0 = Finished (Inr 2)" "st_pc (fst ?z) 1 = Finished (Inr 1)"
    and m: "misses 1 ?z" "1 \<in> set (hist_revs (st_history (fst ?z)) key_a)" "compacted_revision (st_store (fst ?z)) = 0"
    by code_simp+
  have "quiescent (fst ?z)"
    by (rule watching_quiescent[OF run]) (use fin in \<open>auto simp: new_key_race_def race_start_def\<close>)
  from lost_writeI[OF run this _ m(2) _ m(1)] m(3)
  show "\<exists>calls c y k n. lost_write calls c (store_init 2 None) [] y k n \<and> compacted_revision (st_store y) = 0"
    by (force simp: watches_def watch_a_def)
next
  let ?z = "watching (puts_of key_a) (watch_a 1) compact_race example_store example_history"
  have run: "\<not> Option.is_none (watcher_acts (puts_of key_a) (watch_a 1) compact_race (threads_init example_store example_history, Watch_Start))"
    and m: "misses 1 ?z" "1 \<in> set (hist_revs (st_history (fst ?z)) key_a)"
    and k: "tree_map example_store key_a \<noteq> None" "compacted_revision example_store = 0"
    by code_simp+
  have "quiescent (fst ?z)" by (rule watching_quiescent[OF run]) (simp add: compact_race_def)
  from lost_writeI[OF run this _ m(2) _ m(1)] have "lost_write (puts_of key_a) (watch_a 1) example_store example_history (fst ?z) key_a 1"
    by (simp add: watches_def watch_a_def)
  moreover have "one_creator (puts_of key_a) example_store" using k by (auto simp: one_creator_def puts_of_def)
  moreover have "compacted_revision example_store < watch_rev (watch_a 1)" using k(2) by (simp add: watch_a_def)
  ultimately show "\<exists>calls c s h y k n. store_repr s h \<and> one_creator calls s \<and> compacted_revision s < watch_rev c \<and> lost_write calls c s h y k n"
    using example_repr by blast
qed

end
