(* ===== verification/Wal_Workers.thy ===== *)
theory Wal_Workers
  imports Wal_Manager
begin

text \<open>
  The threads of \<open>WalManager::spawn_writer_threads\<close> (\<open>src/wal.rs\<close>) and the appender, interleaved, for
  one \<open>PerPrefixWriter\<close>. The program counter of a worker names the line of the loop it is about to
  run; \<open>tokens\<close> counts how often the writer is in the channel of writers with work. A batch is any
  part of the queue, since a deadline bounds it. \<open>handled\<close> lists the records of the batches that
  were flushed, with the result of the write.
\<close>

section \<open>The step relation\<close>

datatype worker_pc =
  AtRecv | AtCheck | AtCas | AtWrite | AtFlush "WalRecord list" | AtStore | AtRecheck

record writer_state =
  appended :: "WalRecord list"
  app_pending :: bool
  wqueue :: "WalRecord list"
  tokens :: nat
  is_writing :: bool
  workers :: "worker_pc list"
  handled :: "(WalRecord \<times> bool) list"

definition workers_init :: "nat \<Rightarrow> writer_state" where
  "workers_init n =
     \<lparr>appended = [], app_pending = False, wqueue = [], tokens = 0, is_writing = False,
      workers = replicate n AtRecv, handled = []\<rparr>"

text \<open>A worker of index \<open>i\<close> at a program counter.\<close>

definition at :: "writer_state \<Rightarrow> nat \<Rightarrow> worker_pc \<Rightarrow> bool" where
  "at s i pc \<longleftrightarrow> i < length (workers s) \<and> workers s ! i = pc"

definition go :: "writer_state \<Rightarrow> nat \<Rightarrow> worker_pc \<Rightarrow> writer_state" where
  "go s i pc = s\<lparr>workers := (workers s)[i := pc]\<rparr>"

inductive wal_step :: "writer_state \<Rightarrow> writer_state \<Rightarrow> bool" where
  send_record: "\<not> app_pending s \<Longrightarrow>
    wal_step s (s\<lparr>wqueue := wqueue s @ [r], appended := appended s @ [r], app_pending := True\<rparr>)"
| send_token: "app_pending s \<Longrightarrow> wal_step s (s\<lparr>tokens := tokens s + 1, app_pending := False\<rparr>)"
| recv: "at s i AtRecv \<Longrightarrow> 0 < tokens s \<Longrightarrow> wal_step s ((go s i AtCheck)\<lparr>tokens := tokens s - 1\<rparr>)"
| check_empty: "at s i AtCheck \<Longrightarrow> wqueue s = [] \<Longrightarrow> wal_step s (go s i AtRecv)"
| check_work: "at s i AtCheck \<Longrightarrow> wqueue s \<noteq> [] \<Longrightarrow> wal_step s (go s i AtCas)"
| cas_fails: "at s i AtCas \<Longrightarrow> is_writing s \<Longrightarrow> wal_step s (go s i AtRecv)"
| cas_succeeds: "at s i AtCas \<Longrightarrow> \<not> is_writing s \<Longrightarrow> wal_step s ((go s i AtWrite)\<lparr>is_writing := True\<rparr>)"
| take_batch: "at s i AtWrite \<Longrightarrow>
    wal_step s ((go s i (AtFlush (take k (wqueue s))))\<lparr>wqueue := drop k (wqueue s)\<rparr>)"
| flush: "at s i (AtFlush b) \<Longrightarrow>
    wal_step s ((go s i AtStore)\<lparr>handled := handled s @ map (\<lambda>r. (r, ok)) b\<rparr>)"
| release: "at s i AtStore \<Longrightarrow> wal_step s ((go s i AtRecheck)\<lparr>is_writing := False\<rparr>)"
| recheck_more: "at s i AtRecheck \<Longrightarrow> wqueue s \<noteq> [] \<Longrightarrow>
    wal_step s ((go s i AtRecv)\<lparr>tokens := tokens s + 1\<rparr>)"
| recheck_done: "at s i AtRecheck \<Longrightarrow> wqueue s = [] \<Longrightarrow> wal_step s (go s i AtRecv)"

inductive wal_reachable :: "nat \<Rightarrow> writer_state \<Rightarrow> bool" for n where
  start: "wal_reachable n (workers_init n)"
| step: "wal_reachable n s \<Longrightarrow> wal_step s s' \<Longrightarrow> wal_reachable n s'"

section \<open>The invariant\<close>

fun holds_lock :: "worker_pc \<Rightarrow> bool" where
  "holds_lock AtWrite = True"
| "holds_lock (AtFlush b) = True"
| "holds_lock AtStore = True"
| "holds_lock _ = False"

fun batch_of :: "worker_pc \<Rightarrow> WalRecord list" where
  "batch_of (AtFlush b) = b"
| "batch_of _ = []"

definition in_flight :: "worker_pc list \<Rightarrow> WalRecord list" where
  "in_flight ws = concat (map batch_of ws)"

definition lock_inv :: "writer_state \<Rightarrow> bool" where
  "lock_inv s \<longleftrightarrow> length (filter holds_lock (workers s)) = (if is_writing s then 1 else 0)"

definition order_inv :: "writer_state \<Rightarrow> bool" where
  "order_inv s \<longleftrightarrow> map fst (handled s) @ in_flight (workers s) @ wqueue s = appended s"

definition wake_inv :: "writer_state \<Rightarrow> bool" where
  "wake_inv s \<longleftrightarrow>
     (wqueue s \<noteq> [] \<longrightarrow> 0 < tokens s \<or> app_pending s \<or> (\<exists>pc\<in>set (workers s). pc \<noteq> AtRecv))"

section \<open>Lemmas on the list of workers\<close>

lemma filter_update:
  assumes "i < length ws"
  shows "length (filter P (ws[i := pc])) + (if P (ws ! i) then 1 else 0) =
    length (filter P ws) + (if P pc then 1 else (0::nat))"
  using assms
proof (induction ws arbitrary: i)
  case (Cons w ws)
  then show ?case by (cases i) (auto split: if_splits)
qed simp

lemma holders_update:
  "i < length ws \<Longrightarrow> length (filter holds_lock (ws[i := pc])) =
     length (filter holds_lock ws) + (if holds_lock pc then 1 else 0) - (if holds_lock (ws ! i) then 1 else 0)"
  using filter_update[of i ws holds_lock pc] by (auto split: if_splits)

lemma in_flight_other:
  "i < length ws \<Longrightarrow> batch_of (ws ! i) = batch_of pc \<Longrightarrow> in_flight (ws[i := pc]) = in_flight ws"
proof (induction ws arbitrary: i)
  case (Cons w ws)
  then show ?case by (cases i) (auto simp: in_flight_def)
qed simp

lemma in_flight_unlocked: "filter holds_lock ws = [] \<Longrightarrow> in_flight ws = []"
proof (induction ws)
  case (Cons w ws)
  then show ?case by (cases w) (auto simp: in_flight_def split: if_splits)
qed (simp add: in_flight_def)

lemma in_flight_holder:
  assumes "length (filter holds_lock ws) = 1" "i < length ws" "holds_lock (ws ! i)"
  shows "in_flight (ws[i := pc]) = batch_of pc"
proof -
  have ws: "ws = take i ws @ ws ! i # drop (Suc i) ws" using assms(2) by (rule id_take_nth_drop)
  have "length (filter holds_lock (take i ws)) + Suc (length (filter holds_lock (drop (Suc i) ws))) = 1"
    using assms(1,3) arg_cong[OF ws, of "\<lambda>xs. length (filter holds_lock xs)"] by simp
  then have "filter holds_lock (take i ws) = []" "filter holds_lock (drop (Suc i) ws) = []" by auto
  then have "in_flight (take i ws) = []" "in_flight (drop (Suc i) ws) = []"
    by (simp_all add: in_flight_unlocked)
  moreover have "ws[i := pc] = take i ws @ pc # drop (Suc i) ws" using assms(2) by (rule upd_conv_take_nth_drop)
  moreover have "in_flight (xs @ pc # ys) = in_flight xs @ batch_of pc @ in_flight ys" for xs ys
    by (simp add: in_flight_def)
  ultimately show ?thesis by simp
qed

lemma in_flight_now:
  assumes "length (filter holds_lock ws) = 1" "i < length ws" "holds_lock (ws ! i)"
  shows "in_flight ws = batch_of (ws ! i)"
  using in_flight_holder[OF assms, of "ws ! i"] by simp

lemma some_holder:
  assumes "length (filter holds_lock ws) = 1" "i < length ws" "\<not> holds_lock (ws ! i)"
  shows "\<exists>pc'\<in>set (ws[i := pc]). pc' \<noteq> AtRecv"
proof -
  obtain w where w: "w \<in> set ws" "holds_lock w"
    using assms(1) by (metis filter_False length_0_conv list.size(3) zero_neq_one)
  then obtain j where j: "j < length ws" "ws ! j = w" by (auto simp: in_set_conv_nth)
  with assms(3) w(2) have "j \<noteq> i" by auto
  then have "ws[i := pc] ! j = w" using j by simp
  moreover have "w \<noteq> AtRecv" using w(2) by auto
  ultimately show ?thesis using j by (metis length_list_update nth_mem)
qed

lemma busy_after: "i < length ws \<Longrightarrow> pc \<noteq> AtRecv \<Longrightarrow> \<exists>pc'\<in>set (ws[i := pc]). pc' \<noteq> AtRecv"
  by (meson set_update_memI)

lemmas worker_simps = at_def go_def lock_inv_def order_inv_def wake_inv_def

lemma lock_inv_step: "wal_step s s' \<Longrightarrow> lock_inv s \<Longrightarrow> lock_inv s'"
  by (induction rule: wal_step.induct) (auto simp: worker_simps holders_update)

lemma order_inv_step:
  assumes "wal_step s s'" "lock_inv s" "order_inv s"
  shows "order_inv s'"
  using assms
proof (induction rule: wal_step.induct)
  case (take_batch s i k)
  then have l: "length (filter holds_lock (workers s)) = 1" "i < length (workers s)" "holds_lock (workers s ! i)"
    using filter_update[of i "workers s" holds_lock AtRecv] by (auto simp: worker_simps split: if_splits)
  have "in_flight (workers s) = []"
    using in_flight_now[OF l] take_batch.hyps by (simp add: at_def)
  with take_batch in_flight_holder[OF l] show ?case by (simp add: worker_simps)
next
  case (flush s i b ok)
  then have l: "length (filter holds_lock (workers s)) = 1" "i < length (workers s)" "holds_lock (workers s ! i)"
    using filter_update[of i "workers s" holds_lock AtRecv] by (auto simp: worker_simps split: if_splits)
  have "in_flight (workers s) = b"
    using in_flight_now[OF l] flush.hyps by (simp add: at_def)
  with flush in_flight_holder[OF l] show ?case by (simp add: worker_simps comp_def)
qed (auto simp: worker_simps in_flight_other)

lemma wake_inv_step:
  assumes "wal_step s s'" "lock_inv s" "wake_inv s"
  shows "wake_inv s'"
  using assms
proof (induction rule: wal_step.induct)
  case (cas_fails s i)
  then have "length (filter holds_lock (workers s)) = 1" "i < length (workers s)" "\<not> holds_lock (workers s ! i)"
    by (auto simp: worker_simps)
  from some_holder[OF this, of AtRecv] show ?case by (auto simp: worker_simps)
qed (auto simp: worker_simps intro!: busy_after)

lemma wal_invariant:
  assumes "wal_reachable n s"
  shows "lock_inv s" "order_inv s" "wake_inv s" "length (workers s) = n"
proof -
  have "lock_inv s \<and> order_inv s \<and> wake_inv s \<and> length (workers s) = n"
    using assms
  proof (induction rule: wal_reachable.induct)
    case start
    have "in_flight (replicate n AtRecv) = []" by (induction n) (auto simp: in_flight_def)
    then show ?case by (simp add: worker_simps workers_init_def)
  next
    case (step s s')
    moreover have "length (workers s') = length (workers s)" using step.hyps(2) by cases (simp_all add: go_def)
    ultimately show ?case using lock_inv_step order_inv_step wake_inv_step by auto
  qed
  then show "lock_inv s" "order_inv s" "wake_inv s" "length (workers s) = n" by auto
qed

lemma busy_worker_steps:
  assumes "at s i pc" "pc \<noteq> AtRecv"
  shows "\<exists>s'. wal_step s s' \<and> appended s' = appended s"
proof (cases pc)
  case AtCheck
  with assms check_empty[of s i] check_work[of s i] show ?thesis by (cases "wqueue s = []") (auto simp: go_def)
next
  case AtCas
  with assms cas_fails[of s i] cas_succeeds[of s i] show ?thesis by (cases "is_writing s") (auto simp: go_def)
next
  case AtRecheck
  with assms recheck_more[of s i] recheck_done[of s i] show ?thesis by (cases "wqueue s = []") (auto simp: go_def)
next
  case AtWrite
  with assms take_batch[of s i 0] show ?thesis by (auto simp: go_def)
next
  case (AtFlush b)
  with assms flush[of s i b True] show ?thesis by (auto simp: go_def)
next
  case AtStore
  with assms release[of s i] show ?thesis by (auto simp: go_def)
qed (use assms(2) in simp)

section \<open>Properties\<close>

text \<open>
  C12: at most one thread writes to a file at a time, and records reach the file in the order they
  were appended: in every reachable state the records handled, the batch in flight and the queue,
  in this order, are exactly the records appended.
\<close>

theorem wal_workers_keep_order:
  assumes "wal_reachable n s"
  shows "map fst (handled s) @ in_flight (workers s) @ wqueue s = appended s \<and>
    length (filter holds_lock (workers s)) \<le> 1"
  using wal_invariant[OF assms] by (auto simp: order_inv_def lock_inv_def)

text \<open>
  C29: no record is stranded. As long as a record is queued, some thread can take a step without a new
  append; when all threads are idle and the channels empty, every appended record was handled.
\<close>

theorem wal_workers_no_lost_record:
  assumes "wal_reachable n s" "0 < n"
  shows "(wqueue s \<noteq> [] \<longrightarrow> (\<exists>s'. wal_step s s' \<and> appended s' = appended s)) \<and>
    (tokens s = 0 \<and> \<not> app_pending s \<and> set (workers s) \<subseteq> {AtRecv} \<longrightarrow> map fst (handled s) = appended s)"
proof -
  note inv = wal_invariant[OF assms(1)]
  have "\<exists>s'. wal_step s s' \<and> appended s' = appended s" if q: "wqueue s \<noteq> []"
  proof (cases "\<exists>i pc. at s i pc \<and> pc \<noteq> AtRecv")
    case True
    then show ?thesis using busy_worker_steps by blast
  next
    case False
    then have idle: "\<forall>pc\<in>set (workers s). pc = AtRecv" by (auto simp: at_def in_set_conv_nth)
    have "at s 0 AtRecv" using idle inv(4) assms(2) by (auto simp: at_def)
    moreover have "0 < tokens s \<or> app_pending s" using inv(3) q idle by (auto simp: wake_inv_def)
    ultimately show ?thesis
      using recv[of s 0] send_token[of s] by (auto simp: go_def)
  qed
  moreover have "map fst (handled s) = appended s"
    if "tokens s = 0" "\<not> app_pending s" "set (workers s) \<subseteq> {AtRecv}"
  proof -
    have "wqueue s = []" using inv(3) that by (auto simp: wake_inv_def)
    moreover have "filter holds_lock (workers s) = []" using that(3) by (auto simp: filter_empty_conv)
    ultimately show ?thesis using inv(2) in_flight_unlocked by (simp add: order_inv_def)
  qed
  ultimately show ?thesis by blast
qed

lemma example_worker_state:
  "wal_reachable 1 ((workers_init 1)\<lparr>wqueue := [r], appended := [r], app_pending := True\<rparr>)"
proof -
  have "wal_step (workers_init 1) ((workers_init 1)\<lparr>wqueue := wqueue (workers_init 1) @ [r],
      appended := appended (workers_init 1) @ [r], app_pending := True\<rparr>)"
    by (rule send_record) (simp add: workers_init_def)
  from wal_reachable.step[OF start this] show ?thesis by (simp add: workers_init_def)
qed

definition example_record :: WalRecord where
  "example_record = \<lparr>wr_rev = 1, wr_key = [97], wr_value = Some [1], written_notify = None\<rparr>"

theorem wal_workers_keep_order_witness:
  "map fst (handled ((workers_init 1)\<lparr>wqueue := [example_record], appended := [example_record], app_pending := True\<rparr>)) @
     in_flight (workers (workers_init 1)) @ [example_record] = [example_record]"
  using wal_workers_keep_order[OF example_worker_state, of example_record] by simp

theorem wal_workers_no_lost_record_witness:
  "\<exists>s'. wal_step ((workers_init 1)\<lparr>wqueue := [example_record], appended := [example_record], app_pending := True\<rparr>) s' \<and>
     appended s' = [example_record]"
  using wal_workers_no_lost_record[OF example_worker_state, of example_record] by simp

end
