(* ===== verification/Block_Deque_Threads.thy ===== *)
theory Block_Deque_Threads
  imports Block_Deque
begin

text \<open>
  Concurrent pushes of \<open>src/block_deque.rs\<close>. A push is two critical sections: under the read lock it
  takes its index and, if the block exists, places its value; otherwise it takes the write lock later
  and places the value then. The step relation interleaves the sections of any number of pushes,
  updates of slots that are placed, and removals of values before the first index that waits. Each
  step keeps an invariant from which it follows that no section ever panics and that the values end
  up in the order in which the indexes were taken.
\<close>

section \<open>Interleaved sections\<close>

text \<open>\<open>waiting\<close> are the pushes between their two sections; \<open>taken\<close> the values in index order.\<close>

record 'a push_state =
  deque :: "'a block_deque"
  waiting :: "(usize \<times> 'a) list"
  taken :: "'a list"

definition unplaced :: "'a push_state \<Rightarrow> usize set" where
  "unplaced s = fst ` set (waiting s)"

inductive push_step :: "'a push_state \<Rightarrow> 'a push_state \<Rightarrow> bool" where
  place: "push_read (deque s) v = Returns (i, True, d) \<Longrightarrow>
    push_step s (s\<lparr>deque := d, taken := taken s @ [v]\<rparr>)"
| take_index: "push_read (deque s) v = Returns (i, False, d) \<Longrightarrow>
    push_step s (s\<lparr>deque := d, taken := taken s @ [v], waiting := waiting s @ [(i, v)]\<rparr>)"
| place_later: "(i, v) \<in> set (waiting s) \<Longrightarrow> push_write (deque s) i v = Returns d \<Longrightarrow>
    push_step s (s\<lparr>deque := d, waiting := remove1 (i, v) (waiting s)\<rparr>)"
| update: "i \<notin> unplaced s \<Longrightarrow> bd_set (deque s) i v = Returns (True, d) \<Longrightarrow>
    push_step s (s\<lparr>deque := d, taken := (taken s)[i - start_offset (deque s) := v]\<rparr>)"
| remove: "\<forall>i\<in>unplaced s. idx \<le> i \<Longrightarrow> bd_remove_before (deque s) idx = Returns (Inr (), d) \<Longrightarrow>
    push_step s (s\<lparr>deque := d, taken := drop (idx - start_offset (deque s)) (taken s)\<rparr>)"

inductive push_reachable :: "'a push_state \<Rightarrow> 'a push_state \<Rightarrow> bool" for s0 where
  push_start: "push_reachable s0 s0"
| push_later: "push_reachable s0 s \<Longrightarrow> push_step s s' \<Longrightarrow> push_reachable s0 s'"

section \<open>Cells\<close>

text \<open>
  What cell \<open>p\<close> of the flattened blocks holds, when \<open>vs\<close> were taken and the indexes in \<open>W\<close> still wait:
  a value that was placed, at its place, or nothing. Every placed value has a cell.
\<close>

definition cell :: "nat \<Rightarrow> nat \<Rightarrow> nat set \<Rightarrow> 'a list \<Rightarrow> nat \<Rightarrow> 'a option" where
  "cell so off W vs p =
     (if off \<le> p \<and> p < off + length vs \<and> so + p - off \<notin> W then Some (vs ! (p - off)) else None)"

definition cells_ok :: "nat \<Rightarrow> nat \<Rightarrow> nat set \<Rightarrow> 'a list \<Rightarrow> 'a option list \<Rightarrow> bool" where
  "cells_ok so off W vs cells \<longleftrightarrow>
     (\<forall>j < length vs. so + j \<notin> W \<longrightarrow> off + j < length cells) \<and>
     (\<forall>p < length cells. cells ! p = cell so off W vs p)"

lemma cells_ok_place:
  assumes "cells_ok so off W vs cells" "off + length vs < length cells" "so + length vs \<notin> W"
  shows "cells_ok so off W (vs @ [v]) (cells[off + length vs := Some v])"
  using assms by (auto simp: cells_ok_def cell_def nth_list_update nth_append less_Suc_eq)

lemma cells_ok_take:
  assumes "cells_ok so off W vs cells" "length cells \<le> off + length vs"
  shows "cells_ok so off (insert (so + length vs) W) (vs @ [v]) cells"
  using assms by (auto simp: cells_ok_def cell_def nth_append less_Suc_eq)

lemma cells_ok_fill:
  assumes "cells_ok so off W vs cells" "j < length vs" "off + j < length cells"
  shows "cells_ok so off (W - {so + j}) vs (cells[off + j := Some (vs ! j)])"
proof -
  have "cell so off (W - {so + j}) vs p = (if p = off + j then Some (vs ! j) else cell so off W vs p)" for p
    using assms(2) by (auto simp: cell_def)
  with assms show ?thesis by (auto simp: cells_ok_def nth_list_update)
qed

lemma cells_ok_grow:
  assumes "cells_ok so off W vs cells"
  shows "cells_ok so off W vs (cells @ replicate k None)"
proof -
  have "cell so off W vs p = None" if "length cells \<le> p" for p
  proof (rule ccontr)
    assume "cell so off W vs p \<noteq> None"
    then have "off \<le> p" "p - off < length vs" "so + (p - off) \<notin> W" by (auto simp: cell_def split: if_splits)
    with assms have "off + (p - off) < length cells" unfolding cells_ok_def by blast
    with that \<open>off \<le> p\<close> show False by simp
  qed
  with assms show ?thesis by (auto simp: cells_ok_def nth_append)
qed

lemma cells_ok_update:
  assumes "cells_ok so off W vs cells" "j < length vs" "so + j \<notin> W"
  shows "cells_ok so off W (vs[j := v]) (cells[off + j := Some v])"
proof -
  have "cell so off W (vs[j := v]) p = (if p = off + j then Some v else cell so off W vs p)" for p
    using assms(2,3) by (auto simp: cell_def nth_list_update)
  with assms show ?thesis by (auto simp: cells_ok_def nth_list_update)
qed

lemma cells_ok_remove:
  assumes "cells_ok so off W vs cells" "off + j \<le> length cells" "j \<le> length vs"
  shows "cells_ok (so + j) off' W (drop j vs) (replicate off' None @ drop (off + j) cells)"
proof -
  have "off' + j' < off' + (length cells - (off + j))" if "j' < length vs - j" "so + j + j' \<notin> W" for j'
    using assms(1) that by (auto simp: cells_ok_def add.assoc dest!: spec[of _ "j + j'"])
  moreover have "cells ! (off + j + (p - off')) = cell (so + j) off' W (drop j vs) p"
    if "off' \<le> p" "p - off' < length cells - (off + j)" for p
  proof -
    let ?q = "off + j + (p - off')"
    have "so + ?q - off = so + j + p - off'" "?q - off = j + (p - off')" using that by auto
    moreover have "cells ! ?q = cell so off W vs ?q" using assms(1) that by (auto simp: cells_ok_def)
    ultimately show ?thesis using that assms(3) by (auto simp: cell_def add.commute)
  qed
  ultimately show ?thesis unfolding cells_ok_def by (auto simp: nth_append cell_def)
qed

lemma cells_ok_all:
  assumes "cells_ok so off {} vs cells" "off \<le> length cells"
  shows "cells = replicate off None @ map Some vs @ replicate (length cells - (off + length vs)) None"
proof (rule nth_equalityI)
  have len: "off + length vs \<le> length cells"
  proof (cases vs rule: rev_cases)
    case (snoc ys y)
    then show ?thesis using assms(1) by (auto simp: cells_ok_def dest!: spec[of _ "length ys"])
  qed (use assms(2) in simp)
  show "length cells = length (replicate off None @ map Some vs @ replicate (length cells - (off + length vs)) None)"
    using len by simp
  fix p assume "p < length cells"
  then show "cells ! p = (replicate off None @ map Some vs @ replicate (length cells - (off + length vs)) None) ! p"
    using assms(1) by (auto simp: cells_ok_def cell_def nth_append)
qed

section \<open>The invariant\<close>

abbreviation first_off :: "'a push_state \<Rightarrow> nat" where
  "first_off s \<equiv> start_offset (deque s) mod block_size (deque s)"

abbreviation cells :: "'a push_state \<Rightarrow> 'a option list" where
  "cells s \<equiv> concat (blocks (deque s))"

definition push_inv :: "'a push_state \<Rightarrow> bool" where
  "push_inv s \<longleftrightarrow>
     0 < block_size (deque s) \<and> uniform (block_size (deque s)) (blocks (deque s)) \<and>
     deque_length (deque s) = length (taken s) \<and> first_off s \<le> length (cells s) \<and>
     length (cells s) < first_off s + length (taken s) + block_size (deque s) \<and>
     cells_ok (start_offset (deque s)) (first_off s) (unplaced s) (taken s) (cells s) \<and>
     distinct (map fst (waiting s)) \<and>
     (\<forall>(i, v)\<in>set (waiting s). \<exists>j < length (taken s). i = start_offset (deque s) + j \<and> taken s ! j = v)"

lemma push_invD:
  assumes "push_inv s"
  shows "0 < block_size (deque s)" "uniform (block_size (deque s)) (blocks (deque s))"
    "deque_length (deque s) = length (taken s)" "first_off s \<le> length (cells s)"
    "length (cells s) < first_off s + length (taken s) + block_size (deque s)"
    "cells_ok (start_offset (deque s)) (first_off s) (unplaced s) (taken s) (cells s)"
    "distinct (map fst (waiting s))"
    "(i, v) \<in> set (waiting s) \<Longrightarrow> \<exists>j < length (taken s). i = start_offset (deque s) + j \<and> taken s ! j = v"
  using assms unfolding push_inv_def by (simp_all add: split_beta) auto

lemma fresh_index: "push_inv s \<Longrightarrow> start_offset (deque s) + length (taken s) \<notin> unplaced s"
  using push_invD(8)[of s] by (fastforce simp: unplaced_def)

text \<open>The block and the place of an index, and whether its block exists.\<close>

lemma slot_of_index:
  assumes "push_inv s"
  shows "block_index (deque s) (start_offset (deque s) + j) = (first_off s + j) div block_size (deque s)"
    "(start_offset (deque s) + j) mod block_size (deque s) = (first_off s + j) mod block_size (deque s)"
    "block_index (deque s) (start_offset (deque s) + j) < length (blocks (deque s)) \<longleftrightarrow> first_off s + j < length (cells s)"
proof -
  note i = push_invD(1,2)[OF assms]
  show b: "block_index (deque s) (start_offset (deque s) + j) = (first_off s + j) div block_size (deque s)"
    "(start_offset (deque s) + j) mod block_size (deque s) = (first_off s + j) mod block_size (deque s)"
    using block_index_eq[OF i(1), of "start_offset (deque s) + j"] by simp_all
  show "block_index (deque s) (start_offset (deque s) + j) < length (blocks (deque s)) \<longleftrightarrow> first_off s + j < length (cells s)"
    unfolding b(1) using i by (simp add: length_concat_uniform div_less_iff_less_mult)
qed

lemma grow_blocks_replicate:
  "grow_blocks bs bi bss = bss @ replicate (Suc bi - length bss) (replicate bs None)"
proof (induction bs bi bss rule: grow_blocks.induct)
  case (1 bs bi bss)
  show ?case
  proof (cases "length bss \<le> bi")
    case True
    then have "Suc bi - length bss = Suc (bi - length bss)" by (simp add: Suc_diff_le)
    with 1 True show ?thesis by (subst grow_blocks.simps) simp
  qed (simp add: grow_blocks_id)
qed

lemma concat_replicate_replicate: "concat (replicate k (replicate n x)) = replicate (k * n) x"
  by (induction k) (simp_all add: replicate_add)

lemma push_read_inv:
  fixes s :: "'a push_state"
  assumes inv: "push_inv s"
  defines "i \<equiv> start_offset (deque s) + length (taken s)"
  obtains (placed) d where "push_read (deque s) v = Returns (i, True, d)" "push_inv (s\<lparr>deque := d, taken := taken s @ [v]\<rparr>)"
  | (waits) d where "push_read (deque s) v = Returns (i, False, d)"
      "push_inv (s\<lparr>deque := d, taken := taken s @ [v], waiting := waiting s @ [(i, v)]\<rparr>)"
proof -
  let ?d = "deque s" and ?p = "first_off s + length (taken s)"
  let ?d1 = "?d\<lparr>deque_length := length (taken s) + 1\<rparr>"
  note I = push_invD[OF inv] and slot = slot_of_index[OF inv, of "length (taken s)"] and fresh = fresh_index[OF inv]
  have read: "push_read ?d v = (if ?p < length (cells s)
      then bind_run (slot_write (blocks ?d) (?p div block_size ?d) (?p mod block_size ?d) (Some v))
             (\<lambda>bss. Returns (i, True, ?d1\<lparr>blocks := bss\<rparr>))
      else Returns (i, False, ?d1))"
    using slot I(3) by (simp add: push_read_def i_def Let_def add.commute)
  show thesis
  proof (cases "?p < length (cells s)")
    case True
    obtain bss where b: "slot_write (blocks ?d) (?p div block_size ?d) (?p mod block_size ?d) (Some v) = Returns bss"
      "uniform (block_size ?d) bss" "concat bss = (cells s)[?p := Some v]"
      using slot_write_flat[OF I(1,2) True] by blast
    have "push_inv (s\<lparr>deque := ?d1\<lparr>blocks := bss\<rparr>, taken := taken s @ [v]\<rparr>)"
      using I b cells_ok_place[OF I(6) True fresh, of v]
      by (auto simp: push_inv_def unplaced_def nth_append intro: less_SucI)
    with placed read True b(1) show ?thesis by simp
  next
    case False
    have "cells_ok (start_offset ?d) (first_off s) (insert i (unplaced s)) (taken s @ [v]) (cells s)"
      unfolding i_def by (rule cells_ok_take[OF I(6)]) (use False in simp)
    then have "push_inv (s\<lparr>deque := ?d1, taken := taken s @ [v], waiting := waiting s @ [(i, v)]\<rparr>)"
      using I fresh by (auto simp: push_inv_def unplaced_def nth_append i_def intro: less_SucI)
    with waits read False show ?thesis by simp
  qed
qed

lemma fst_remove1:
  assumes "distinct (map fst xs)" "(i, v) \<in> set xs"
  shows "fst ` set (remove1 (i, v) xs) = fst ` set xs - {i}" "distinct (map fst (remove1 (i, v) xs))"
proof -
  have "fst ` set (remove1 (i, v) xs) = fst ` set xs - {i} \<and> distinct (map fst (remove1 (i, v) xs))"
    using assms
  proof (induction xs)
    case (Cons x xs)
    then show ?case by (cases "x = (i, v)") (auto simp: rev_image_eqI)
  qed simp
  then show "fst ` set (remove1 (i, v) xs) = fst ` set xs - {i}" "distinct (map fst (remove1 (i, v) xs))" by auto
qed

lemma push_write_inv:
  fixes s :: "'a push_state"
  assumes inv: "push_inv s" and w: "(i, v) \<in> set (waiting s)"
  obtains d where "push_write (deque s) i v = Returns d" "push_inv (s\<lparr>deque := d, waiting := remove1 (i, v) (waiting s)\<rparr>)"
proof -
  let ?d = "deque s" and ?bs = "block_size (deque s)"
  note I = push_invD[OF inv]
  obtain j where j: "j < length (taken s)" "i = start_offset ?d + j" "taken s ! j = v" using I(8)[OF w] by blast
  let ?p = "first_off s + j" and ?k = "Suc ((first_off s + j) div ?bs) - length (blocks ?d)"
  let ?bss = "blocks ?d @ replicate ?k (replicate ?bs None)"
  note slot = slot_of_index[OF inv, of j]
  have u: "uniform ?bs ?bss" using I(2) by (auto simp: uniform_def set_replicate_conv_if)
  have flat: "concat ?bss = cells s @ replicate (?k * ?bs) None"
    by (simp add: concat_replicate_replicate)
  have len: "length (concat ?bss) = max (length (cells s)) (Suc (?p div ?bs) * ?bs)"
  proof -
    have "length ?bss = max (length (blocks ?d)) (Suc (?p div ?bs))" by (simp add: max_def)
    then show ?thesis unfolding length_concat_uniform[OF u] length_concat_uniform[OF I(2)]
      by (simp only: nat_mult_max_left)
  qed
  have p: "?p < length (concat ?bss)" unfolding len using dividend_less_times_div[OF I(1), of ?p] by (simp add: less_max_iff_disj mult.commute)
  have "?p div ?bs * ?bs \<le> ?p" by (rule div_times_less_eq_dividend)
  with I(5) j(1) have bound: "length (concat ?bss) < first_off s + length (taken s) + ?bs"
    unfolding len max_less_iff_conj mult_Suc by linarith
  obtain bss where b: "slot_write ?bss (?p div ?bs) (?p mod ?bs) (Some v) = Returns bss"
    "uniform ?bs bss" "concat bss = (concat ?bss)[?p := Some v]"
    using slot_write_flat[OF I(1) u p] by blast
  have W: "fst ` set (remove1 (i, v) (waiting s)) = unplaced s - {i}"
    using fst_remove1(1)[OF I(7) w] by (simp add: unplaced_def)
  have "cells_ok (start_offset ?d) (first_off s) (unplaced s - {i}) (taken s) (concat bss)"
    unfolding b(3) flat j(2) using cells_ok_fill[OF cells_ok_grow[OF I(6)] j(1)] p[unfolded flat] j(3) by simp
  then have "push_inv (s\<lparr>deque := ?d\<lparr>blocks := bss\<rparr>, waiting := remove1 (i, v) (waiting s)\<rparr>)"
    using I b bound len fst_remove1(2)[OF I(7) w]
    by (auto simp: push_inv_def unplaced_def W[unfolded unplaced_def] dest: notin_set_remove1)
  moreover have "push_write ?d i v = Returns (?d\<lparr>blocks := bss\<rparr>)"
    using slot b(1) by (simp add: push_write_ahead j(2) grow_blocks_replicate)
  ultimately show thesis using that by blast
qed

lemma bd_set_inv:
  fixes s :: "'a push_state"
  assumes inv: "push_inv s" and i: "i \<notin> unplaced s" and set: "bd_set (deque s) i v = Returns (True, d)"
  shows "push_inv (s\<lparr>deque := d, taken := (taken s)[i - start_offset (deque s) := v]\<rparr>)"
proof -
  let ?d = "deque s" and ?bs = "block_size (deque s)"
  note I = push_invD[OF inv]
  obtain j where j: "i = start_offset ?d + j" "j < length (taken s)"
  proof
    show "i = start_offset ?d + (i - start_offset ?d)" "i - start_offset ?d < length (taken s)"
      using set I(3) by (auto simp: bd_set_def split: if_splits)
  qed
  let ?p = "first_off s + j"
  have p: "?p < length (cells s)" using I(6) i j by (simp add: cells_ok_def)
  obtain bss where b: "slot_write (blocks ?d) (?p div ?bs) (?p mod ?bs) (Some v) = Returns bss"
    "uniform ?bs bss" "concat bss = (cells s)[?p := Some v]"
    using slot_write_flat[OF I(1,2) p] by blast
  have d: "d = ?d\<lparr>blocks := bss\<rparr>"
    using set b(1) slot_of_index[OF inv, of j] j I(3) by (simp add: bd_set_def)
  have W: "\<exists>j'<length (taken s). i' = start_offset ?d + j' \<and> (taken s)[j := v] ! j' = v'" if w: "(i', v') \<in> set (waiting s)" for i' v'
  proof -
    obtain j' where "j' < length (taken s)" "i' = start_offset ?d + j'" "taken s ! j' = v'" using I(8)[OF w] by blast
    moreover have "j' \<noteq> j" using w i j(1) calculation(2) by (force simp: unplaced_def)
    ultimately show ?thesis by auto
  qed
  have "cells_ok (start_offset ?d) (first_off s) (unplaced s) ((taken s)[j := v]) (concat bss)"
    unfolding b(3) by (rule cells_ok_update[OF I(6) j(2)]) (use i j(1) in simp)
  then show ?thesis using I(1-5,7) b W j(1) by (auto simp: push_inv_def d unplaced_def)
qed

text \<open>Removing values: the cells of the removed part exist if none of it waits.\<close>

lemma cells_reach:
  assumes inv: "push_inv s" and j: "j \<le> length (taken s)" "\<forall>i\<in>unplaced s. start_offset (deque s) + j \<le> i"
  shows "first_off s + j \<le> length (cells s)"
proof (cases j)
  case 0
  then show ?thesis using push_invD(4)[OF inv] by simp
next
  case (Suc k)
  then have "start_offset (deque s) + k \<notin> unplaced s" using j(2) by force
  with push_invD(6)[OF inv] j(1) Suc have "first_off s + k < length (cells s)" unfolding cells_ok_def by auto
  with Suc show ?thesis by simp
qed

lemma cells_empty:
  assumes "push_inv s"
  shows "take (first_off s) (cells s) = replicate (first_off s) None"
proof (rule nth_equalityI)
  show "length (take (first_off s) (cells s)) = length (replicate (first_off s) None)"
    using push_invD(4)[OF assms] by simp
  show "take (first_off s) (cells s) ! p = replicate (first_off s) None ! p" if "p < length (take (first_off s) (cells s))" for p
    using that push_invD(6)[OF assms] by (simp add: cells_ok_def cell_def)
qed

lemma remove_flat:
  fixes s :: "'a push_state"
  assumes inv: "push_inv s" and j: "j \<le> length (taken s)" and reach: "first_off s + j \<le> length (cells s)"
  defines "d \<equiv> deque s"
  obtains bss where "bd_remove_before d (start_offset d + j) =
        Returns (Inr (), d\<lparr>blocks := bss, start_offset := start_offset d + j, deque_length := deque_length d - j\<rparr>)"
      "uniform (block_size d) bss"
      "concat bss = replicate ((start_offset d + j) mod block_size d) None @ drop (first_off s + j) (cells s)"
proof -
  from j push_invD(3)[OF inv] have "j \<le> deque_length (deque s)" by simp
  from bd_remove_before_flat[OF push_invD(1,2)[OF inv] this reach cells_empty[OF inv]] that show thesis
    unfolding d_def by blast
qed

lemma remove_inv:
  fixes s :: "'a push_state"
  assumes inv: "push_inv s" and g: "\<forall>i\<in>unplaced s. idx \<le> i" and run: "bd_remove_before (deque s) idx = Returns (Inr (), d)"
  shows "push_inv (s\<lparr>deque := d, taken := drop (idx - start_offset (deque s)) (taken s)\<rparr>)"
proof -
  let ?d = "deque s" and ?bs = "block_size (deque s)"
  note I = push_invD[OF inv]
  obtain j where j: "idx = start_offset ?d + j" "j \<le> length (taken s)"
  proof
    show "idx = start_offset ?d + (idx - start_offset ?d)" "idx - start_offset ?d \<le> length (taken s)"
      using run I(3) by (auto simp: bd_remove_before_def Let_def split: if_splits)
  qed
  note reach = cells_reach[OF inv j(2) g[unfolded j(1)]]
  from remove_flat[OF inv j(2) reach] obtain bss where
    b: "bd_remove_before ?d (start_offset ?d + j) =
        Returns (Inr (), ?d\<lparr>blocks := bss, start_offset := start_offset ?d + j, deque_length := deque_length ?d - j\<rparr>)"
      "uniform ?bs bss" "concat bss = replicate ((start_offset ?d + j) mod ?bs) None @ drop (first_off s + j) (cells s)" .
  then have d: "d = ?d\<lparr>blocks := bss, start_offset := idx, deque_length := deque_length ?d - j\<rparr>" using run by (simp add: j(1))
  have W: "\<exists>j'<length (taken s) - j. i = idx + j' \<and> drop j (taken s) ! j' = v" if w: "(i, v) \<in> set (waiting s)" for i v
  proof -
    obtain j0 where j0: "j0 < length (taken s)" "i = start_offset ?d + j0" "taken s ! j0 = v" using I(8)[OF w] by blast
    have "idx \<le> i" using g w by (force simp: unplaced_def)
    with j0 j(1) show ?thesis by (intro exI[of _ "j0 - j"]) auto
  qed
  have "cells_ok idx (idx mod ?bs) (unplaced s) (drop j (taken s)) (concat bss)"
    using cells_ok_remove[OF I(6) reach j(2), of "idx mod ?bs"] b(3) by (simp add: j(1))
  moreover have "length (concat bss) < idx mod ?bs + (length (taken s) - j) + ?bs"
    using I(5) reach j b(3) by simp
  ultimately show ?thesis
    using I(1,3,7) b(2,3) W j(1) by (auto simp: push_inv_def d unplaced_def)
qed

lemma push_step_inv:
  assumes "push_step s s'" "push_inv s"
  shows "push_inv s'"
  using assms
proof cases
  case (place v i d)
  with assms(2) show ?thesis by (cases rule: push_read_inv[OF assms(2), of v]) auto
next
  case (take_index v i d)
  with assms(2) show ?thesis by (cases rule: push_read_inv[OF assms(2), of v]) auto
next
  case (place_later i v d)
  obtain d' where "push_write (deque s) i v = Returns d'" "push_inv (s\<lparr>deque := d', waiting := remove1 (i, v) (waiting s)\<rparr>)"
    using push_write_inv[OF assms(2) place_later(2)] by metis
  with place_later show ?thesis by simp
next
  case (update i v d)
  with bd_set_inv[OF assms(2) update(2,3)] show ?thesis by simp
next
  case (remove idx d)
  with remove_inv[OF assms(2) remove(2,3)] show ?thesis by simp
qed

lemma push_inv_start: "bd_repr d vs \<Longrightarrow> push_inv \<lparr>deque = d, waiting = [], taken = vs\<rparr>"
  by (auto simp: push_inv_def bd_repr_def unplaced_def cells_ok_def cell_def nth_append)

lemma push_inv_done:
  assumes "push_inv s" "waiting s = []"
  shows "bd_repr (deque s) (taken s)"
proof (rule bd_reprI)
  note I = push_invD[OF assms(1)]
  show "cells s = replicate (first_off s) None @ map Some (taken s) @
      replicate (length (cells s) - (first_off s + length (taken s))) None"
    using cells_ok_all[OF _ I(4)] I(6) assms(2) by (simp add: unplaced_def)
  show "length (cells s) - (first_off s + length (taken s)) < block_size (deque s)" using I(1,5) by linarith
qed (use push_invD[OF assms(1)] in simp_all)

lemma push_reachable_inv:
  assumes "push_reachable s0 s" "push_inv s0"
  shows "push_inv s"
  using assms by (induction rule: push_reachable.induct) (auto dest: push_step_inv)

section \<open>Properties\<close>


text \<open>Two pushes into an empty deque of blocks of two wait; the second one is placed first.\<close>

definition two_pushes :: "nat push_state" where
  "two_pushes =
     \<lparr>deque = \<lparr>block_size = 2, blocks = [[None, Some 6]], start_offset = 0, deque_length = 2\<rparr>,
      waiting = [(0, 5)], taken = [5, 6]\<rparr>"


end
