(* ===== verification/Deque_Races.thy ===== *)
theory Deque_Races
  imports Block_Deque_Threads
begin

text \<open>
  What concurrent callers of \<open>src/block_deque.rs\<close> can see beyond the orderly steps of
  \<open>Block_Deque_Threads\<close>: a removal that passes the index of a push which waits for the write lock, and
  a reader of \<open>latest_revision\<close>, which takes no lock, during a removal.
\<close>

section \<open>Removals that overtake a push\<close>

lemma grown_slot_write:
  assumes "0 < n" "uniform n bss"
  shows "\<exists>bss'. slot_write (grow_blocks n bi bss) bi (x mod n) v = Returns bss'"
proof -
  have "length (grow_blocks n bi bss ! bi) = n" "bi < length (grow_blocks n bi bss)"
    using assms(2) by (auto simp: grow_blocks_replicate uniform_def nth_append)
  with assms(1) show ?thesis by (simp add: slot_write_def)
qed

lemma remove_panics_iff:
  assumes inv: "push_inv s" and j: "j \<le> length (taken s)"
  shows "bd_remove_before (deque s) (start_offset (deque s) + j) = Panics \<longleftrightarrow> length (cells s) < first_off s + j"
proof (cases "length (cells s) < first_off s + j")
  case True
  with bd_remove_before_Panics[of "deque s" j] push_invD(1-3)[OF inv] j show ?thesis by simp
next
  case False
  then have "first_off s + j \<le> length (cells s)" by simp
  from remove_flat[OF inv j this] False show ?thesis by (metis run.distinct(1))
qed

lemma remove_panics_block:
  assumes inv: "push_inv s" and idx: "start_offset (deque s) \<le> idx" "idx \<le> start_offset (deque s) + length (taken s)"
  shows "bd_remove_before (deque s) idx = Panics \<longleftrightarrow>
    start_offset (deque s) < idx \<and> length (blocks (deque s)) \<le> block_index (deque s) (idx - 1)"
proof (cases "idx = start_offset (deque s)")
  case True
  with remove_panics_iff[OF inv, of 0] push_invD(4)[OF inv] show ?thesis by simp
next
  case False
  define k where "k = idx - 1 - start_offset (deque s)"
  have k: "idx - 1 = start_offset (deque s) + k" "idx = start_offset (deque s) + Suc k" using False idx by (auto simp: k_def)
  have "bd_remove_before (deque s) idx = Panics \<longleftrightarrow> length (cells s) \<le> first_off s + k"
    using remove_panics_iff[OF inv, of "Suc k"] idx(2) k(2) by auto
  with slot_of_index(3)[OF inv, of k] k(1) idx(1) False show ?thesis by auto
qed

lemma remove_keeps_uniform:
  assumes inv: "push_inv s" and run: "bd_remove_before (deque s) idx = Returns (Inr (), d)"
  shows "block_size d = block_size (deque s)" "uniform (block_size d) (blocks d)" "start_offset d = idx"
proof -
  let ?d = "deque s"
  define j where "j = idx - start_offset ?d"
  have j: "idx = start_offset ?d + j" "j \<le> length (taken s)"
    using run push_invD(3)[OF inv] by (auto simp: bd_remove_before_def Let_def j_def split: if_splits)
  with run remove_panics_iff[OF inv, of j] have le: "first_off s + j \<le> length (cells s)" by auto
  from remove_flat[OF inv j(2) le] obtain bss where
    "bd_remove_before ?d idx =
       Returns (Inr (), ?d\<lparr>blocks := bss, start_offset := idx, deque_length := deque_length ?d - j\<rparr>)"
    "uniform (block_size ?d) bss"
    unfolding j(1) by metis
  then have "d = ?d\<lparr>blocks := bss, start_offset := idx, deque_length := deque_length ?d - j\<rparr>"
    "uniform (block_size ?d) bss" using run by simp_all
  then show "block_size d = block_size ?d" "uniform (block_size d) (blocks d)" "start_offset d = idx" by simp_all
qed

lemma push_write_panics_iff:
  assumes "0 < block_size d" "uniform (block_size d) (blocks d)"
  shows "push_write d i v = Panics \<longleftrightarrow> i div block_size d < start_offset d div block_size d"
proof -
  obtain bss where "slot_write (grow_blocks (block_size d) (block_index d i) (blocks d)) (block_index d i)
      (i mod block_size d) (Some v) = Returns bss"
    using grown_slot_write[OF assms] by blast
  then show ?thesis by (simp add: push_write_def Let_def)
qed

lemma removal_needs_waiting:
  assumes inv: "push_inv s" and idx: "start_offset (deque s) \<le> idx" "idx \<le> start_offset (deque s) + length (taken s)"
    and p: "bd_remove_before (deque s) idx = Panics"
  shows "\<exists>i\<in>unplaced s. i < idx"
proof (rule ccontr)
  define j where "j = idx - start_offset (deque s)"
  have j: "idx = start_offset (deque s) + j" "j \<le> length (taken s)" using idx by (auto simp: j_def)
  assume "\<not> (\<exists>i\<in>unplaced s. i < idx)"
  then have "first_off s + j \<le> length (cells s)" using cells_reach[OF inv j(2)] j(1) by (auto simp: not_less)
  with remove_panics_iff[OF inv j(2)] p j(1) show False by simp
qed

text \<open>
  C24: when a compaction and a push collide. In every state that interleaved pushes can reach, a removal
  up to an index within the bounds panics exactly if the block of the last removed index was not
  allocated yet, which can only be while a push below that index waits for the write lock; the write
  lock is held then, and poisoned for every later caller. If the removal returns, a push that waits
  panics in its second section exactly if the removal went beyond its block.
\<close>

theorem removal_overtakes_push:
  assumes "bd_repr d vs" "push_reachable \<lparr>deque = d, waiting = [], taken = vs\<rparr> s"
    "start_offset (deque s) \<le> idx" "idx \<le> latest_revision (deque s)"
  shows "(bd_remove_before (deque s) idx = Panics \<longleftrightarrow>
      start_offset (deque s) < idx \<and> length (blocks (deque s)) \<le> block_index (deque s) (idx - 1)) \<and>
    (bd_remove_before (deque s) idx = Panics \<longrightarrow> (\<exists>i\<in>unplaced s. i < idx)) \<and>
    (\<forall>d' i v. bd_remove_before (deque s) idx = Returns (Inr (), d') \<and> (i, v) \<in> set (waiting s) \<longrightarrow>
      (push_write d' i v = Panics \<longleftrightarrow> i div block_size (deque s) < idx div block_size (deque s)))"
proof -
  note inv = push_reachable_inv[OF assms(2) push_inv_start[OF assms(1)]]
  have le: "idx \<le> start_offset (deque s) + length (taken s)"
    using assms(4) push_invD(3)[OF inv] by (simp add: latest_revision_def)
  have "push_write d' i v = Panics \<longleftrightarrow> i div block_size (deque s) < idx div block_size (deque s)"
    if "bd_remove_before (deque s) idx = Returns (Inr (), d')" for d' i v
    using remove_keeps_uniform[OF inv that] push_invD(1)[OF inv] push_write_panics_iff[of d' i v] by simp
  with remove_panics_block[OF inv assms(3) le] removal_needs_waiting[OF inv assms(3) le] show ?thesis by blast
qed

text \<open>
  Two pushes have taken the indexes 0 and 1 of a new deque and wait. The store's current revision is 2
  then, and it lets \<open>compact(2)\<close> remove the values before index 1.
\<close>

definition two_waiting :: "nat push_state" where
  "two_waiting =
     \<lparr>deque = \<lparr>block_size = 2, blocks = [], start_offset = 0, deque_length = 2\<rparr>,
      waiting = [(0, 5), (1, 6)], taken = [5, 6]\<rparr>"

lemma two_waiting_reachable: "push_reachable \<lparr>deque = bd_new 2, waiting = [], taken = []\<rparr> two_waiting"
proof -
  let ?s0 = "\<lparr>deque = bd_new 2, waiting = [], taken = []\<rparr> :: nat push_state"
  define d1 :: "nat block_deque" where "d1 = (bd_new 2)\<lparr>deque_length := 1\<rparr>"
  have r: "push_read (bd_new 2) (5 :: nat) = Returns (0, False, d1)" "push_read d1 6 = Returns (1, False, deque two_waiting)"
    by (simp_all add: push_read_def bd_new_def d1_def two_waiting_def block_index_def Let_def)
  have "push_step ?s0 \<lparr>deque = d1, waiting = [(0, 5)], taken = [5]\<rparr>"
    using push_step.take_index[of ?s0 5 0 d1] r(1) by simp
  moreover have "push_step \<lparr>deque = d1, waiting = [(0, 5)], taken = [5]\<rparr> two_waiting"
    using push_step.take_index[of "\<lparr>deque = d1, waiting = [(0, 5)], taken = [5]\<rparr>" 6 1 "deque two_waiting"] r(2)
    by (simp add: two_waiting_def)
  ultimately show ?thesis by (meson push_reachable.intros)
qed

theorem removal_overtakes_push_witness:
  "latest_revision (deque two_waiting) = 2 \<and> bd_remove_before (deque two_waiting) 1 = Panics"
proof -
  have "bd_repr (bd_new 2 :: nat block_deque) []" by (rule bd_repr_new) simp
  from removal_overtakes_push[OF this two_waiting_reachable, of 1] show ?thesis
    by (simp add: two_waiting_def latest_revision_def)
qed

section \<open>The bounds, read without the lock\<close>

text \<open>
  The two atomics of the deque. A push adds to the length under the read lock; a removal subtracts from
  the length, drops the blocks and then stores the offset, all under the write lock. \<open>removing\<close> is the
  new offset between the two writes of a removal.
\<close>

record revision_words =
  word_length :: usize
  word_offset :: usize
  removing :: "usize option"

definition words_of :: "'a block_deque \<Rightarrow> revision_words" where
  "words_of d = \<lparr>word_length = deque_length d, word_offset = start_offset d, removing = None\<rparr>"

inductive words_step :: "revision_words \<Rightarrow> revision_words \<Rightarrow> bool" where
  pushed: "removing w = None \<Longrightarrow> words_step w (w\<lparr>word_length := word_length w + 1\<rparr>)"
| shortened: "removing w = None \<Longrightarrow> word_offset w \<le> idx \<Longrightarrow> idx \<le> word_offset w + word_length w \<Longrightarrow>
    words_step w (w\<lparr>word_length := word_length w - (idx - word_offset w), removing := Some idx\<rparr>)"
| moved: "removing w = Some idx \<Longrightarrow> words_step w (w\<lparr>word_offset := idx, removing := None\<rparr>)"

text \<open>\<open>latest_revision\<close> loads the length in \<open>w\<close> and the offset in a later state \<open>w'\<close>.\<close>

definition latest_reading :: "revision_words \<Rightarrow> revision_words \<Rightarrow> usize" where
  "latest_reading w w' = word_length w + word_offset w'"

text \<open>The first index that is left once a removal in progress is done, and the next index to be taken.\<close>

definition first_left :: "revision_words \<Rightarrow> usize" where
  "first_left w = (case removing w of None \<Rightarrow> word_offset w | Some idx \<Rightarrow> idx)"

definition next_taken :: "revision_words \<Rightarrow> usize" where
  "next_taken w = first_left w + word_length w"

text \<open>The steps are those of the sections: a push is one step, a removal two.\<close>

lemma push_words: "push_read d v = Returns (i, b, d') \<Longrightarrow> words_step (words_of d) (words_of d')"
  using words_step.pushed[of "words_of d"]
  by (auto simp: push_read_def words_of_def Let_def bind_run_eq_Returns split: if_splits)

lemma remove_words:
  assumes "bd_remove_before d idx = Returns (Inr (), d')"
  shows "words_step\<^sup>*\<^sup>* (words_of d) (words_of d')"
proof -
  from assms have b: "start_offset d \<le> idx" "idx \<le> start_offset d + deque_length d"
    "deque_length d' = deque_length d - (idx - start_offset d)" "start_offset d' = idx"
    by (auto simp: bd_remove_before_def Let_def bind_run_eq_Returns split: if_splits)
  let ?m = "(words_of d)\<lparr>word_length := deque_length d', removing := Some idx\<rparr>"
  have "words_step (words_of d) ?m" using words_step.shortened[of "words_of d" idx] b by (simp add: words_of_def)
  moreover have "words_step ?m (words_of d')" using words_step.moved[of ?m idx] b by (simp add: words_of_def)
  ultimately show ?thesis by (meson converse_rtranclp_into_rtranclp r_into_rtranclp)
qed

definition words_ok :: "revision_words \<Rightarrow> bool" where
  "words_ok w \<longleftrightarrow> word_offset w \<le> first_left w"

lemma words_step_mono:
  assumes "words_step w w'" "words_ok w"
  shows "words_ok w' \<and> word_offset w \<le> word_offset w' \<and> first_left w \<le> first_left w' \<and> next_taken w \<le> next_taken w' \<and>
    (word_offset w' = word_offset w \<or> word_offset w' = first_left w)"
  using assms by cases (auto simp: words_ok_def first_left_def next_taken_def split: option.splits)

lemma words_mono:
  assumes "words_step\<^sup>*\<^sup>* w w'" "words_ok w"
  shows "words_ok w' \<and> word_offset w \<le> word_offset w' \<and> first_left w \<le> first_left w' \<and> next_taken w \<le> next_taken w'"
  using assms by (induction rule: rtranclp_induct) (auto dest: words_step_mono)

text \<open>
  C39: how far the latest revision that a reader computes can be off. Whatever runs between its two
  loads, the reading lies at most as far below the next index at its start as a removal in progress
  then removes, and at most as far above it as was removed in between; it is exact if and only if the
  offset it loads is the one that belongs to the length it loaded.
\<close>

theorem latest_reading_bounds:
  assumes "words_ok w" "words_step\<^sup>*\<^sup>* w w'"
  shows "next_taken w - (first_left w - word_offset w) \<le> latest_reading w w' \<and>
    latest_reading w w' \<le> next_taken w + (first_left w' - first_left w) \<and>
    (latest_reading w w' = next_taken w \<longleftrightarrow> word_offset w' = first_left w)"
  using words_mono[OF assms(2,1)] by (auto simp: latest_reading_def next_taken_def words_ok_def)

text \<open>
  Ten values, and a removal before index 7. A reader that starts before it and ends after it gets 17,
  one that runs between its two writes gets 3; nothing was pushed.
\<close>

theorem latest_reading_bounds_witness:
  "\<exists>w w1 w2. words_step\<^sup>*\<^sup>* w w2 \<and> words_step w w1 \<and> next_taken w = 10 \<and> next_taken w1 = 10 \<and> next_taken w2 = 10 \<and>
     latest_reading w w2 = 17 \<and> latest_reading w1 w1 = 3 \<and>
     latest_reading w w2 \<le> next_taken w + 7 \<and> next_taken w1 - 7 \<le> latest_reading w1 w1"
proof -
  define w :: revision_words where "w = \<lparr>word_length = 10, word_offset = 0, removing = None\<rparr>"
  define w1 where "w1 = \<lparr>word_length = 3, word_offset = 0, removing = Some 7\<rparr>"
  define w2 where "w2 = \<lparr>word_length = 3, word_offset = 7, removing = None\<rparr>"
  note defs = w_def w1_def w2_def first_left_def next_taken_def latest_reading_def
  have s1: "words_step w w1" using words_step.shortened[of w 7] by (simp add: defs)
  have s2: "words_step w1 w2" using words_step.moved[of w1 7] by (simp add: defs)
  have run: "words_step\<^sup>*\<^sup>* w w2" using s1 s2 by (meson converse_rtranclp_into_rtranclp r_into_rtranclp)
  have ok: "words_ok w" "words_ok w1" by (simp_all add: words_ok_def defs)
  show ?thesis
    using latest_reading_bounds[OF ok(1) run] latest_reading_bounds[OF ok(2) rtranclp.rtrancl_refl] s1 run
    by (intro exI[of _ w] exI[of _ w1] exI[of _ w2] conjI) (simp_all add: defs)
qed

end
