(* ===== verification/Store_Recovery.thy ===== *)
theory Store_Recovery
  imports Notify_Thread Store_Snapshot
begin

text \<open>
  \<open>Store::new\<close> with the replay of the log directory (\<open>src/store.rs\<close>), and what spans the store, the
  notification thread and the WAL: a store recovers its whole history from the log that its own
  jobs produced, and what the notification thread does after such a recovery.
\<close>

section \<open>Operations\<close>

record WalSettings =
  ws_dir :: "dir_entry list"
  ws_default_mode :: wal_mode
  ws_load_wal_dir :: bool
  ws_no_persist :: "byte_array set"

text \<open>The callback of the loader, and the constructor; a failed load is a panic (\<open>expect\<close>).\<close>

definition replay_records :: "Store \<Rightarrow> WalRecord list \<Rightarrow> Store run" where
  "replay_records s recs = replay_writes s (map (\<lambda>rec. (wr_key rec, wr_value rec)) recs)"

definition store_new :: "usize \<Rightarrow> WalSettings option \<Rightarrow> Store run" where
  "store_new bs settings =
     (case settings of
        None \<Rightarrow> Returns (store_init bs None)
      | Some ws \<Rightarrow>
          let s = store_init bs (Some (ws_default_mode ws)) in
          if ws_load_wal_dir ws then
            bind_run (load_wal_dir (ws_dir ws))
              (\<lambda>(recs, res). bind_run (replay_records s recs)
                 (\<lambda>s'. case res of Inl _ \<Rightarrow> Panics | Inr _ \<Rightarrow> Returns s'))
          else Returns s)"

definition notify_env_new :: "WalSettings option \<Rightarrow> (channel_ref \<Rightarrow> channel) \<Rightarrow> notify_env" where
  "notify_env_new settings chs =
     \<lparr>channels = chs,
      nt_wal = map_option (\<lambda>ws. wal_manager_new (ws_default_mode ws) (ws_no_persist ws)) settings\<rparr>"

section \<open>The jobs of a history\<close>

definition job_write :: "NotifyJob \<Rightarrow> byte_array \<times> byte_array option" where
  "job_write j = (kv_key (kv (job_msg j)), job_value j)"

definition jobs_of :: "nat \<Rightarrow> history \<Rightarrow> NotifyJob list \<Rightarrow> bool" where
  "jobs_of n h jobs \<longleftrightarrow>
     map job_rev jobs = [int n + 1..int (length h)] \<and> map job_write jobs = drop n (rev h) \<and>
     (\<forall>j\<in>set jobs. prefix_str j = from_utf8_lossy (fst (prefix_split (kv_key (kv (job_msg j))))))"

lemma job_value_write:
  assumes "job_msg j = \<lparr>prev_kv = pv, kv = as_mvcc_key_value (write_value (hist_latest h k) (int (length h) + 1) v) k\<rparr>"
  shows "job_write j = (k, v)"
proof -
  have "1 \<le> version (write_value (hist_latest h k) (int (length h) + 1) v)"
    using hist_latest_wf[of "(k, v) # h" k] by simp
  with assms show ?thesis
    by (auto simp: job_write_def job_value_def as_mvcc_key_value_def Let_def split: option.splits)
qed

lemma jobs_of_set:
  assumes s: "store_repr s h" and j: "jobs_of n h (notify_tx s)" and n: "n \<le> length h"
  shows "\<exists>s' res w. store_set s k v None = Returns (s', res, w) \<and>
    store_repr s' (if v = None \<and> hist_live h k = None then h else (k, v) # h) \<and>
    jobs_of n (if v = None \<and> hist_live h k = None then h else (k, v) # h) (notify_tx s')"
proof (cases "v = None \<and> hist_live h k = None")
  case True
  with store_set_refused[OF s, of k v None] j show ?thesis by (auto simp: admits_unconditional)
next
  case False
  then have "admits (hist_live h k) v None" by (simp add: admits_unconditional)
  from store_set_admitted[OF s this] obtain s' job w where
    s': "store_set s k v None = Returns (s', Inr (int (length h) + 1), w)" "store_repr s' ((k, v) # h)"
    and job: "notify_tx s' = notify_tx s @ [job]" "job_rev job = int (length h) + 1"
      "prefix_str job = from_utf8_lossy (fst (prefix_split k))"
    and msg: "job_msg job = \<lparr>prev_kv = map_option (\<lambda>x. as_mvcc_key_value x k)
        (map_option (\<lambda>r. latest_value (tree_items s r)) (tree_map s k)),
      kv = as_mvcc_key_value (write_value (hist_latest h k) (int (length h) + 1) v) k\<rparr>" by blast
  have "[int n + 1..int (length h)] @ [int (length h) + 1] = [int n + 1..int (length h) + 1]"
    using n by (simp add: upto_rec2)
  moreover have "kv_key (kv (job_msg job)) = k" by (simp add: msg as_mvcc_key_value_def Let_def)
  ultimately have "jobs_of n ((k, v) # h) (notify_tx s')"
    using j job n job_value_write[OF msg] by (auto simp: jobs_of_def add.commute)
  with False s' show ?thesis by auto
qed

lemma jobs_of_writes:
  assumes "store_repr s h" "jobs_of n h (notify_tx s)" "n \<le> length h"
  shows "\<exists>s'. store_writes s ws = Returns s' \<and> store_repr s' (hist_writes h ws) \<and>
    jobs_of n (hist_writes h ws) (notify_tx s')"
  using assms
proof (induction ws arbitrary: s h)
  case (Cons w ws)
  obtain k v where w: "w = (k, v)" by fastforce
  let ?h = "if v = None \<and> hist_live h k = None then h else (k, v) # h"
  from jobs_of_set[OF Cons.prems, of k v] obtain s1 res x where
    s1: "store_set s k v None = Returns (s1, res, x)" "store_repr s1 ?h" "jobs_of n ?h (notify_tx s1)" by blast
  have "n \<le> length ?h" using Cons.prems(3) by simp
  from Cons.IH[OF s1(2,3) this] s1(1) show ?case by (simp add: w)
qed simp

lemma jobs_of_start: "notify_tx s = [] \<Longrightarrow> jobs_of (length h) h (notify_tx s)"
  by (simp add: jobs_of_def)

lemma hist_writes_entries: "set (hist_writes h ws) \<subseteq> set h \<union> set ws"
proof (induction h ws rule: hist_writes.induct)
  case (2 h k v ws)
  then show ?case by (auto split: if_splits)
qed simp

lemma length_hist_writes: "length (hist_writes h ws) \<le> length h + length ws"
proof (induction h ws rule: hist_writes.induct)
  case (2 h k v ws)
  then show ?case by (auto split: if_splits)
qed simp

section \<open>The log of a history\<close>

lemma mset_by_prefix:
  assumes "distinct ps" "\<forall>x\<in>set xs. f x \<in> set ps"
  shows "mset (concat (map (\<lambda>p. filter (\<lambda>x. f x = p) xs) ps)) = mset xs"
  using assms
proof (induction ps arbitrary: xs)
  case (Cons p ps)
  let ?r = "filter (\<lambda>x. f x \<noteq> p) xs"
  have eq: "map (\<lambda>q. filter (\<lambda>x. f x = q) xs) ps = map (\<lambda>q. filter (\<lambda>x. f x = q) ?r) ps"
    using Cons.prems(1) by (auto intro!: filter_cong)
  have "mset (concat (map (\<lambda>q. filter (\<lambda>x. f x = q) xs) ps)) = mset ?r"
    unfolding eq by (rule Cons.IH) (use Cons.prems in auto)
  then show ?case using multiset_partition[of "mset xs" "\<lambda>x. f x = p"] by simp
qed simp

lemma sorted_records_unique:
  assumes "mset L = mset R" "sorted (map wr_rev L)" "sorted (map wr_rev R)" "distinct (map wr_rev R)"
  shows "L = R"
proof -
  have "inj_on wr_rev (set R)" using assms(4) by (simp add: distinct_map)
  then have "sort_key wr_rev R = R" "sort_key wr_rev R = L"
    using sort_key_inj_key_eq[of R R wr_rev] sort_key_inj_key_eq[of R L wr_rev] assms by auto
  then show ?thesis by simp
qed

lemma replayed_log:
  assumes j: "jobs_of 0 h jobs" and ps: "distinct ps" "\<forall>j\<in>set jobs. prefix_str j \<in> set ps"
    and enc: "\<forall>j\<in>set jobs. encodable (job_record j)"
  shows "load_wal_dir (dir_of (map (\<lambda>p. (p, map job_record (filter (\<lambda>j. prefix_str j = p) jobs))) ps)) =
    Returns (map (stored \<circ> job_record) jobs, Inr ())"
proof -
  let ?recs = "\<lambda>p. map job_record (filter (\<lambda>j. prefix_str j = p) jobs)"
  let ?logs = "map (\<lambda>p. (p, ?recs p)) ps"
  have revs: "map (wr_rev \<circ> job_record) jobs = [1..int (length h)]"
    using j by (simp add: jobs_of_def job_record_def comp_def)
  have srt: "sorted (map wr_rev (?recs p))" for p
    using sorted_filter[of "wr_rev \<circ> job_record" jobs "\<lambda>j. prefix_str j = p"] revs by (simp add: comp_def)
  from enc srt have logs_ok: "\<forall>(p, recs)\<in>set ?logs. (\<forall>rec\<in>set recs. encodable rec) \<and> sorted (map wr_rev recs)" by auto
  from load_dir_sorted[OF logs_ok] obtain L where
    L: "load_wal_dir (dir_of ?logs) = Returns (L, Inr ())" "mset L = mset (map stored (concat (map snd ?logs)))"
      "sorted (map wr_rev L)" by blast
  have "concat (map snd ?logs) = map job_record (concat (map (\<lambda>p. filter (\<lambda>j. prefix_str j = p) jobs) ps))"
    by (simp add: map_concat comp_def)
  then have "mset L = mset (map (stored \<circ> job_record) jobs)"
    using L(2) mset_by_prefix[OF ps] by (simp add: mset_map[symmetric] del: mset_map) (simp add: multiset.map_comp)
  moreover have "map wr_rev (map (stored \<circ> job_record) jobs) = [1..int (length h)]"
    using revs by (simp add: stored_def comp_def)
  ultimately have "L = map (stored \<circ> job_record) jobs"
    using L(3) by (intro sorted_records_unique) simp_all
  with L(1) show ?thesis by simp
qed

section \<open>Nothing is sent before the first revision\<close>

lemma notify_run_stalls:
  assumes "\<forall>j\<in>set jobs. 1 < job_rev j"
  shows "notify_run jobs (notify_init env) = (notify_init env)\<lparr>job_spool := rev jobs\<rparr>"
  using assms
  by (induction jobs rule: rev_induct) (auto simp: notify_run_def notify_init_def notify_recv_def heap_push_def)

lemma notify_run_wal:
  assumes "nt_wal (nt_env st) \<noteq> None"
  shows "nt_wal (nt_env (notify_run jobs st)) \<noteq> None"
proof -
  have send: "nt_wal env \<noteq> None \<Longrightarrow> nt_wal (do_send j env) \<noteq> None" for j env
    using do_send_wal[of env] by (cases "nt_wal env") auto
  have drain: "nt_wal (nt_env st) \<noteq> None \<Longrightarrow> nt_wal (nt_env (drain_spool st)) \<noteq> None" for st
  proof (induction st rule: drain_spool.induct)
    case (1 st)
    then show ?case using send by (subst drain_spool.simps) (auto split: option.splits simp del: not_None_eq)
  qed
  have "nt_wal (nt_env st) \<noteq> None \<Longrightarrow> nt_wal (nt_env (notify_recv j st)) \<noteq> None" for j st
    using send drain by (auto simp: notify_recv_def Let_def simp del: not_None_eq)
  then show ?thesis
    using assms unfolding notify_run_def by (induction jobs arbitrary: st) (auto simp del: not_None_eq)
qed

text \<open>What the log directory of a run holds, when it holds the queue of each prefix, and what it loads as.\<close>

lemma logged_writes_load:
  assumes "0 < bs" "ws_default_mode st \<noteq> WalNone" "ws_no_persist st = {}"
    and small: "length ws < 2 ^ 63" "\<forall>(k, v)\<in>set ws. length k < 2 ^ 32 \<and> length (case v of None \<Rightarrow> [] | Some b \<Rightarrow> b) < DELETE_MARKER"
    and run: "store_writes (store_init bs (Some (ws_default_mode st))) ws = Returns s"
    and arrive: "mset arrivals = mset (notify_tx s)"
    and m: "nt_wal (nt_env (notify_run arrivals (notify_init (notify_env_new (Some st) chs)))) = Some m"
    and dir: "distinct ps" "\<forall>j\<in>set arrivals. prefix_str j \<in> set ps"
  obtains recs where "load_wal_dir (dir_of (map (\<lambda>p. (p, wal_queue m p)) ps)) = Returns (recs, Inr ())"
    "hist_writes [] (map (\<lambda>rec. (wr_key rec, wr_value rec)) recs) = hist_writes [] ws" "store_repr s (hist_writes [] ws)"
proof -
  let ?h = "hist_writes [] ws" and ?jobs = "notify_tx s"
  let ?m0 = "wal_manager_new (ws_default_mode st) {}"
  have init: "store_repr (store_init bs (Some (ws_default_mode st))) []" by (rule store_repr_init[OF assms(1)])
  have "jobs_of 0 [] (notify_tx (store_init bs (Some (ws_default_mode st))))"
    by (simp add: jobs_of_def store_init_def)
  from jobs_of_writes[OF init this, of ws] run have s: "store_repr s ?h" and j: "jobs_of 0 ?h ?jobs" by auto
  have revs: "map job_rev ?jobs = [1..int (length ?h)]" and wr: "map job_write ?jobs = rev ?h"
    using j by (simp_all add: jobs_of_def)
  have arr: "mset (map job_rev arrivals) = mset [1..int (length ?h)]" "set arrivals = set ?jobs"
    using arrive revs by (metis mset_map, metis mset_eq_setD)
  then have "distinct (map job_rev arrivals)" using mset_eq_imp_distinct_iff by fastforce
  moreover have "job_rev ` set arrivals = {1..int (length ?h)}"
    using arg_cong[OF arr(1), of set_mset] by simp
  moreover have "sort_key job_rev arrivals = ?jobs"
    using sort_key_inj_key_eq[OF arrive, of job_rev] calculation revs by (simp add: distinct_map)
  ultimately have run: "nt_env (notify_run arrivals (notify_init (notify_env_new (Some st) chs))) =
      fold do_send ?jobs (notify_env_new (Some st) chs)"
    using notify_run_complete[of arrivals "length ?h"] by simp
  have "nt_wal (notify_env_new (Some st) chs) = Some ?m0" by (simp add: notify_env_new_def assms(3))
  from sent_records[OF this, of ?jobs] m run assms(2)
  have q: "wal_queue m p = map job_record (filter (\<lambda>j. prefix_str j = p) ?jobs)" for p
    by (auto simp: persisted_def wal_manager_new_def wal_queue_def)
  have "encodable (job_record j)" if "j \<in> set ?jobs" for j
  proof -
    have "job_rev j \<in> set [1..int (length ?h)]" "job_write j \<in> set ?h"
      using that revs wr by (metis imageI set_map, metis imageI set_map set_rev)
    then have "1 \<le> job_rev j" "job_rev j \<le> int (length ws)" "job_write j \<in> set ws"
      using length_hist_writes[of "[]" ws] hist_writes_entries[of "[]" ws] by auto
    with small show ?thesis
      by (auto simp: encodable_def job_record_def job_write_def split: option.splits)
  qed
  then have "load_wal_dir (dir_of (map (\<lambda>p. (p, wal_queue m p)) ps)) = Returns (map (stored \<circ> job_record) ?jobs, Inr ())"
    unfolding q using replayed_log[OF j dir(1)] dir(2) arr(2) by blast
  moreover have "map (\<lambda>rec. (wr_key rec, wr_value rec)) (map (stored \<circ> job_record) ?jobs) = rev ?h"
    unfolding wr[symmetric] by (simp add: stored_def job_record_def job_write_def)
  moreover have "hist_writes [] (rev ?h) = ?h" by (rule replay_admitted) (simp add: hist_writes_admitted)
  ultimately show thesis using that s by simp
qed

section \<open>Properties\<close>

text \<open>
  Durability from end to end. Run any sequence of puts and deletes on a new store whose prefixes
  are all logged; let the jobs reach the notification thread in any order; let the log directory
  hold the queue of each prefix, the files listed in any order. A new store that loads that
  directory returns with the whole history of the first one: the same revisions, values, create
  revisions and versions.
\<close>

lemma recovery_restores_history:
  assumes "0 < bs" "ws_default_mode st \<noteq> WalNone" "ws_no_persist st = {}" "ws_load_wal_dir st"
    and small: "length ws < 2 ^ 63" "\<forall>(k, v)\<in>set ws. length k < 2 ^ 32 \<and> length (case v of None \<Rightarrow> [] | Some b \<Rightarrow> b) < DELETE_MARKER"
    and run: "store_writes (store_init bs (Some (ws_default_mode st))) ws = Returns s"
    and arrive: "mset arrivals = mset (notify_tx s)"
    and m: "nt_wal (nt_env (notify_run arrivals (notify_init (notify_env_new (Some st) chs)))) = Some m"
    and dir: "distinct ps" "\<forall>j\<in>set arrivals. prefix_str j \<in> set ps"
      "ws_dir st = dir_of (map (\<lambda>p. (p, wal_queue m p)) ps)"
  shows "\<exists>t h. store_new bs (Some st) = Returns t \<and> store_repr s h \<and> store_repr t h"
proof -
  have init: "store_repr (store_init bs (Some (ws_default_mode st))) []" by (rule store_repr_init[OF assms(1)])
  obtain recs where "load_wal_dir (ws_dir st) = Returns (recs, Inr ())"
    "hist_writes [] (map (\<lambda>rec. (wr_key rec, wr_value rec)) recs) = hist_writes [] ws" "store_repr s (hist_writes [] ws)"
    unfolding dir(3) by (rule logged_writes_load[OF assms(1-3) small run arrive m dir(1,2)])
  with replay_writes_repr[OF init, of "map (\<lambda>rec. (wr_key rec, wr_value rec)) recs"] assms(4) show ?thesis
    by (auto simp: store_new_def replay_records_def Let_def)
qed

text \<open>The example writes, logged, and recovered from the one file they fill.\<close>

definition no_channels :: "channel_ref \<Rightarrow> channel" where
  "no_channels = (\<lambda>_. \<lparr>buffered = [], receiver_dropped = True\<rparr>)"

definition logged_store :: Store where
  "logged_store = the (returned (store_writes (store_init 2 (Some WalAsync)) example_writes))"

definition settings_for :: "dir_entry list \<Rightarrow> WalSettings" where
  "settings_for d = \<lparr>ws_dir = d, ws_default_mode = WalAsync, ws_load_wal_dir = True, ws_no_persist = {}\<rparr>"

definition logged_manager :: WalManager where
  "logged_manager = the (nt_wal (nt_env (notify_run (rev (notify_tx logged_store))
     (notify_init (notify_env_new (Some (settings_for [])) no_channels)))))"

definition recovery_settings :: WalSettings where
  "recovery_settings = settings_for (dir_of [(pods, wal_queue logged_manager pods)])"

lemma recovery_restores_history_witness:
  "\<exists>t h. store_new 2 (Some recovery_settings) = Returns t \<and> store_repr logged_store h \<and> store_repr t h"
proof -
  obtain s' where "store_writes (store_init 2 (Some WalAsync)) example_writes = Returns s'"
    using store_writes_repr[OF store_repr_init[of 2 "Some WalAsync"], of example_writes] by auto
  then have run: "store_writes (store_init 2 (Some (ws_default_mode recovery_settings))) example_writes = Returns logged_store"
    by (simp add: logged_store_def recovery_settings_def settings_for_def)
  have env: "notify_env_new (Some recovery_settings) no_channels = notify_env_new (Some (settings_for [])) no_channels"
    by (simp add: notify_env_new_def recovery_settings_def settings_for_def)
  have m: "nt_wal (nt_env (notify_run (rev (notify_tx logged_store))
      (notify_init (notify_env_new (Some recovery_settings) no_channels)))) = Some logged_manager"
    unfolding env logged_manager_def
    using notify_run_wal[of "notify_init (notify_env_new (Some (settings_for [])) no_channels)" "rev (notify_tx logged_store)"]
    by (auto simp: notify_init_def notify_env_new_def)
  have pre: "\<forall>j\<in>set (rev (notify_tx logged_store)). prefix_str j \<in> set [pods]"
    "length key_a = 16" "length key_b = 16" by code_simp+
  show ?thesis
    by (rule recovery_restores_history[OF _ _ _ _ _ _ run _ m _ pre(1)])
      (simp_all add: recovery_settings_def settings_for_def example_writes_def DELETE_MARKER_def pre(2,3))
qed

text \<open>
  After a recovery the notification thread is silent. It starts at revision 1, but the replay has
  used up the first revisions without a job; so every job of the recovered store waits in the
  spool: no watcher gets an event, nothing is appended to the log, no writer that waits for the log
  is woken, and the reported progress stays 0.
\<close>

lemma recovery_stalls_notifications:
  assumes "store_repr t h" "h \<noteq> []" "notify_tx t = []" "store_writes t ws = Returns u"
  shows "let st = notify_run (notify_tx u) (notify_init env)
    in nt_env st = env \<and> job_spool st = rev (notify_tx u) \<and> rev_written st = 0"
proof -
  from jobs_of_writes[OF assms(1) _ order_refl, of ws] assms(3,4) jobs_of_start[of t h]
  have "jobs_of (length h) (hist_writes h ws) (notify_tx u)" by auto
  then have later: "job_rev j \<in> set [int (length h) + 1..int (length (hist_writes h ws))]" if "j \<in> set (notify_tx u)" for j
    using that by (metis imageI jobs_of_def set_map)
  have "1 \<le> length h" using assms(2) by (simp add: Suc_le_eq)
  with later have "\<forall>j\<in>set (notify_tx u). 1 < job_rev j" by fastforce
  from notify_run_stalls[OF this] show ?thesis by (simp add: notify_init_def Let_def)
qed

definition recovered_store :: Store where
  "recovered_store = the (returned (replay_writes (store_init 2 None) example_writes))"

definition later_store :: Store where
  "later_store = the (returned (store_writes recovered_store [(key_a, Some [9])]))"

lemma recovery_stalls_notifications_witness:
  "length (notify_tx later_store) = 1 \<and>
   (let st = notify_run (notify_tx later_store) (notify_init sample_env)
    in nt_env st = sample_env \<and> job_spool st = rev (notify_tx later_store) \<and> rev_written st = 0)"
proof -
  from replay_writes_repr[OF store_repr_init[of 2 None], of example_writes]
  have t: "store_repr recovered_store example_history" "notify_tx recovered_store = []"
    by (auto simp: recovered_store_def example_history_def store_init_def)
  from store_writes_repr[OF t(1), of "[(key_a, Some [9])]"]
  have u: "store_writes recovered_store [(key_a, Some [9])] = Returns later_store"
    by (auto simp: later_store_def)
  have "example_history \<noteq> []" using example_facts(1) by auto
  moreover have "length (notify_tx later_store) = 1" by code_simp
  ultimately show ?thesis using recovery_stalls_notifications[OF t(1) _ t(2) u, of sample_env] by simp
qed

end
