(* ===== verification/Server_Start.thy ===== *)
theory Server_Start
  imports Store_Recovery Kv_Service
begin

text \<open>
  The start of the server (\<open>src/main.rs\<close>): from the command line to the WAL settings, to the store, to
  the dummy key that every start writes before anything is served. \<open>server_start\<close> returns the store
  and the notification on which that write waits.
\<close>

section \<open>Operations\<close>

datatype CliWalMode = CliNone | CliBuffered | CliFsync

fun wal_mode_of_cli :: "CliWalMode \<Rightarrow> wal_mode" where
  "wal_mode_of_cli CliNone = WalNone"
| "wal_mode_of_cli CliBuffered = WalAsync"
| "wal_mode_of_cli CliFsync = WalSync"

text \<open>Of the command line, what reaches the store; \<open>cli_wal_dir\<close> is the content of the directory.\<close>

record Cli =
  cli_wal_dir :: "dir_entry list"
  cli_wal_default :: CliWalMode
  wal_no_write_prefixes :: "string list"
  raft_enabled :: bool

definition cli_wal_settings :: "Cli \<Rightarrow> WalSettings" where
  "cli_wal_settings cli =
     \<lparr>ws_dir = cli_wal_dir cli, ws_default_mode = wal_mode_of_cli (cli_wal_default cli),
      ws_load_wal_dir = (\<not> raft_enabled cli), ws_no_persist = set (map bytes (wal_no_write_prefixes cli))\<rparr>"

definition dummy_key :: byte_array where
  "dummy_key = [126]"

definition server_start :: "usize \<Rightarrow> Cli \<Rightarrow> (Store \<times> notify_ref option) run" where
  "server_start bs cli =
     bind_run (store_new bs (Some (cli_wal_settings cli)))
       (\<lambda>s. bind_run (store_set s dummy_key (Some []) None)
          (\<lambda>(s', res, waits). case res of Inl _ \<Rightarrow> Panics | Inr _ \<Rightarrow> Returns (s', waits)))"

section \<open>Lemmas\<close>

definition record_writes :: "WalRecord list \<Rightarrow> (byte_array \<times> byte_array option) list" where
  "record_writes recs = map (\<lambda>rec. (wr_key rec, wr_value rec)) recs"

lemma insert_item_frame:
  "wal_default_mode (insert_item s k it) = wal_default_mode s" "next_notify (insert_item s k it) = next_notify s"
  by (simp_all add: insert_item_def Let_def split: prod.split)

lemma commit_value_frame:
  "commit_value s r revs v = Returns (n, nv, t) \<Longrightarrow>
     wal_default_mode t = wal_default_mode s \<and> next_notify t = next_notify s"
  by (auto simp: commit_value_def Let_def bind_run_eq_Returns)

lemma set_for_replay_frame:
  "set_for_replay s k v = Returns t \<Longrightarrow> wal_default_mode t = wal_default_mode s \<and> next_notify t = next_notify s"
  by (auto simp: set_for_replay_def Let_def bind_run_eq_Returns insert_item_frame
      dest!: commit_value_frame split: option.splits if_splits)

lemma replay_writes_frame:
  "replay_writes s ws = Returns t \<Longrightarrow> wal_default_mode t = wal_default_mode s \<and> next_notify t = next_notify s"
  by (induction s ws rule: replay_writes.induct) (auto simp: bind_run_eq_Returns dest!: set_for_replay_frame)

text \<open>A new store has the history of the records it loads, none without loading.\<close>

lemma store_new_loads:
  assumes "0 < bs" "\<not> ws_load_wal_dir st \<and> recs = [] \<or> ws_load_wal_dir st \<and> load_wal_dir (ws_dir st) = Returns (recs, Inr ())"
  obtains t where "store_new bs (Some st) = Returns t" "store_repr t (hist_writes [] (record_writes recs))"
    "notify_tx t = []" "wal_default_mode t = Some (ws_default_mode st)" "next_notify t = 0"
proof -
  let ?s = "store_init bs (Some (ws_default_mode st))"
  have init: "store_repr ?s []" "notify_tx ?s = []" by (rule store_repr_init[OF assms(1)]) (simp add: store_init_def)
  obtain t where t: "replay_writes ?s (record_writes recs) = Returns t"
    "store_repr t (hist_writes [] (record_writes recs))" "notify_tx t = notify_tx ?s"
    using replay_writes_repr[OF init(1), of "record_writes recs"] by blast
  have frame: "wal_default_mode t = wal_default_mode ?s" "next_notify t = next_notify ?s"
    using replay_writes_frame[OF t(1)] by auto
  show thesis
  proof (rule that[of t])
    show "store_new bs (Some st) = Returns t"
      using assms(2) t(1) by (auto simp: store_new_def replay_records_def record_writes_def)
  qed (use t frame init in \<open>simp_all add: store_init_def\<close>)
qed

lemma server_start_set:
  assumes "0 < bs" "raft_enabled cli \<and> recs = [] \<or> \<not> raft_enabled cli \<and> load_wal_dir (cli_wal_dir cli) = Returns (recs, Inr ())"
  defines "h \<equiv> hist_writes [] (record_writes recs)"
  obtains s job where
    "server_start bs cli = Returns (s, if cli_wal_default cli = CliFsync then Some 0 else None)"
    "store_repr s ((dummy_key, Some []) # h)" "notify_tx s = [job]" "job_rev job = int (length h) + 1"
proof -
  obtain t where t: "store_new bs (Some (cli_wal_settings cli)) = Returns t" "store_repr t h"
    "notify_tx t = []" "wal_default_mode t = Some (wal_mode_of_cli (cli_wal_default cli))" "next_notify t = 0"
    using store_new_loads[OF assms(1), of "cli_wal_settings cli" recs] assms(2)
    by (auto simp: cli_wal_settings_def h_def)
  have "admits (hist_live h dummy_key) (Some []) None" by (simp add: admits_unconditional)
  from store_set_admitted[OF t(2) this] t(3-5) obtain s job where
    s: "store_set t dummy_key (Some []) None = Returns (s, Inr (int (length h) + 1),
          if wal_mode_of_cli (cli_wal_default cli) = WalSync then Some 0 else None)"
      "store_repr s ((dummy_key, Some []) # h)" "notify_tx s = [job]" "job_rev job = int (length h) + 1"
    by auto
  have "wal_mode_of_cli (cli_wal_default cli) = WalSync \<longleftrightarrow> cli_wal_default cli = CliFsync"
    by (cases "cli_wal_default cli") simp_all
  with t(1) s show thesis by (intro that[of s job]) (simp_all add: server_start_def)
qed

section \<open>Properties\<close>

text \<open>
  A server that starts on a readable log (or behind Raft, which loads none) serves the recovered
  history plus one write of the dummy key: the store it serves has at least one revision, and the
  start waits for the log exactly in fsync mode.
\<close>

lemma server_start_history:
  assumes "0 < bs"
    and "raft_enabled cli \<and> recs = [] \<or> \<not> raft_enabled cli \<and> load_wal_dir (cli_wal_dir cli) = Returns (recs, Inr ())"
  shows "\<exists>s. server_start bs cli = Returns (s, if cli_wal_default cli = CliFsync then Some 0 else None) \<and>
    store_repr s ((dummy_key, Some []) # hist_writes [] (record_writes recs)) \<and>
    current_revision s = int (length (hist_writes [] (record_writes recs))) + 1"
proof -
  obtain s job where s: "server_start bs cli = Returns (s, if cli_wal_default cli = CliFsync then Some 0 else None)"
    "store_repr s ((dummy_key, Some []) # hist_writes [] (record_writes recs))"
    by (rule server_start_set[OF assms])
  with store_reprD(6)[OF s(2)] show ?thesis by simp
qed

definition fresh_cli :: "CliWalMode \<Rightarrow> Cli" where
  "fresh_cli mode = \<lparr>cli_wal_dir = [], cli_wal_default = mode, wal_no_write_prefixes = [], raft_enabled = False\<rparr>"

lemma server_start_history_witness:
  "\<exists>s. server_start 2 (fresh_cli CliBuffered) = Returns (s, None) \<and> store_repr s [(dummy_key, Some [])] \<and>
    current_revision s = 1"
proof -
  have "load_wal_dir [] = Returns ([], Inr ())" by code_simp
  then show ?thesis
    using server_start_history[where bs = 2 and cli = "fresh_cli CliBuffered" and recs = "[]"]
    by (auto simp: fresh_cli_def record_writes_def)
qed

text \<open>
  C34: A restart in fsync mode does not come up. If the log holds at least one write that is replayed,
  the start waits for the log entry of the dummy key, but the notification thread keeps that job in
  its spool: its channels and its log stay as they were, so the writer threads get no record to
  acknowledge.
\<close>

theorem fsync_restart_hangs:
  assumes "0 < bs" "cli_wal_default cli = CliFsync" "\<not> raft_enabled cli"
    and "load_wal_dir (cli_wal_dir cli) = Returns (recs, Inr ())" "hist_writes [] (record_writes recs) \<noteq> []"
  shows "\<exists>s job. server_start bs cli = Returns (s, Some 0) \<and> notify_tx s = [job] \<and>
    (\<forall>env. nt_env (notify_run (notify_tx s) (notify_init env)) = env \<and>
       job_spool (notify_run (notify_tx s) (notify_init env)) = [job])"
proof -
  obtain s job where s: "server_start bs cli = Returns (s, if cli_wal_default cli = CliFsync then Some 0 else None)"
    "notify_tx s = [job]" "job_rev job = int (length (hist_writes [] (record_writes recs))) + 1"
    by (rule server_start_set[of bs cli recs]) (use assms in auto)
  have "1 < job_rev job" using s(3) assms(5) by simp
  then have "notify_run (notify_tx s) (notify_init env) = (notify_init env)\<lparr>job_spool := [job]\<rparr>" for env
    using notify_run_stalls[of "notify_tx s" env] s(2) by simp
  with s assms(2) show ?thesis by (auto simp: notify_init_def)
qed

definition one_record :: WalRecord where
  "one_record = \<lparr>wr_rev = 1, wr_key = dummy_key, wr_value = Some [], written_notify = None\<rparr>"

definition restart_cli :: Cli where
  "restart_cli = (fresh_cli CliFsync)\<lparr>cli_wal_dir := dir_of [([], [one_record])]\<rparr>"

theorem fsync_restart_hangs_witness:
  "\<exists>s job. server_start 2 restart_cli = Returns (s, Some 0) \<and> notify_tx s = [job] \<and>
    (\<forall>env. nt_env (notify_run (notify_tx s) (notify_init env)) = env \<and>
       job_spool (notify_run (notify_tx s) (notify_init env)) = [job])"
proof -
  have "encodable one_record" by (simp add: encodable_def one_record_def dummy_key_def DELETE_MARKER_def)
  with load_dir_sorted[of "[([], [one_record])]"]
  have "load_wal_dir (cli_wal_dir restart_cli) = Returns ([stored one_record], Inr ())"
    by (auto simp: restart_cli_def)
  moreover have "stored one_record = one_record" by (simp add: stored_def one_record_def)
  ultimately have "load_wal_dir (cli_wal_dir restart_cli) = Returns ([one_record], Inr ())" by simp
  then show ?thesis
    using fsync_restart_hangs[where bs = 2 and cli = restart_cli and recs = "[one_record]"]
    by (simp add: restart_cli_def fresh_cli_def record_writes_def one_record_def)
qed

end
