(* ===== verification/Peer_List.thy ===== *)
theory Peer_List
  imports Raft_Log
begin

text \<open>
  The peer list of the command line (\<open>parse_peers\<close> of \<open>src/raft.rs\<close>) and the node maps built from it.
  Strings are lists of ASCII characters. The parser is the inverse of writing the list down.
\<close>

section \<open>Strings\<close>

text \<open>\<open>str::split\<close> on a character, and \<open>str::trim\<close> on ASCII text.\<close>

fun split_on :: "char \<Rightarrow> string \<Rightarrow> string list" where
  "split_on c [] = [[]]"
| "split_on c (x # xs) =
     (if x = c then [] # split_on c xs
      else case split_on c xs of [] \<Rightarrow> [[x]] | s # ss \<Rightarrow> (x # s) # ss)"

definition is_space :: "char \<Rightarrow> bool" where
  "is_space c \<longleftrightarrow> of_char c \<in> {9, 10, 11, 12, 13, 32 :: nat}"

definition trim :: "string \<Rightarrow> string" where
  "trim s = rev (dropWhile is_space (rev (dropWhile is_space s)))"

definition split_once :: "char \<Rightarrow> string \<Rightarrow> (string \<times> string) option" where
  "split_once c s =
     (case dropWhile (\<lambda>x. x \<noteq> c) s of [] \<Rightarrow> None | _ # rest \<Rightarrow> Some (takeWhile (\<lambda>x. x \<noteq> c) s, rest))"

text \<open>\<open>u64::from_str\<close>: an optional plus sign and at least one decimal digit, without overflow.\<close>

datatype parse_int_error = EmptyInt | InvalidDigit | PosOverflow

definition digit_value :: "char \<Rightarrow> nat option" where
  "digit_value c = (let n = of_char c in if 48 \<le> n \<and> n \<le> 57 then Some (n - 48) else None)"

fun parse_digits :: "nat \<Rightarrow> string \<Rightarrow> parse_int_error + nat" where
  "parse_digits acc [] = Inr acc"
| "parse_digits acc (c # cs) =
     (case digit_value c of
        None \<Rightarrow> Inl InvalidDigit
      | Some d \<Rightarrow> if 2 ^ 64 \<le> 10 * acc + d then Inl PosOverflow else parse_digits (10 * acc + d) cs)"

definition parse_u64 :: "string \<Rightarrow> parse_int_error + nat" where
  "parse_u64 s =
     (case s of
        [] \<Rightarrow> Inl EmptyInt
      | c # cs \<Rightarrow>
          if c = CHR ''+'' then (if cs = [] then Inl InvalidDigit else parse_digits 0 cs)
          else parse_digits 0 s)"

section \<open>parse_peers\<close>

datatype peers_error = InvalidEntry string | InvalidId parse_int_error

definition parse_entry :: "string \<Rightarrow> peers_error + NodeId \<times> string" where
  "parse_entry entry =
     (case split_once CHR ''@'' entry of
        None \<Rightarrow> Inl (InvalidEntry entry)
      | Some (l, r) \<Rightarrow>
          (case parse_u64 (trim l) of
             Inl e \<Rightarrow> Inl (InvalidId e)
           | Inr i \<Rightarrow> Inr (i, trim r)))"

fun parse_entries :: "string list \<Rightarrow> peers_error + (NodeId \<times> string) list" where
  "parse_entries [] = Inr []"
| "parse_entries (e # es) =
     (let entry = trim e in
      if entry = [] then parse_entries es
      else case parse_entry entry of
        Inl err \<Rightarrow> Inl err
      | Inr p \<Rightarrow> (case parse_entries es of Inl err \<Rightarrow> Inl err | Inr ps \<Rightarrow> Inr (p # ps)))"

definition parse_peers :: "string \<Rightarrow> peers_error + (NodeId \<times> string) list" where
  "parse_peers peers_str = parse_entries (split_on CHR '','' peers_str)"

text \<open>The maps from node to address: \<open>GrpcRouter::new\<close> and \<open>init_grpc_cluster\<close>, \<open>init_cluster\<close>.\<close>

definition peer_map :: "(NodeId \<times> string) list \<Rightarrow> (NodeId, string) btree" where
  "peer_map peers = fold (\<lambda>(i, a) m. btree_insert i a m) peers btree_new"

section \<open>Writing a list down\<close>

definition digit_char :: "nat \<Rightarrow> char" where
  "digit_char d = char_of (48 + d)"

fun decimal :: "nat \<Rightarrow> string" where
  "decimal n = (if n < 10 then [digit_char n] else decimal (n div 10) @ [digit_char (n mod 10)])"

declare decimal.simps [simp del]

definition show_peer :: "NodeId \<times> string \<Rightarrow> string" where
  "show_peer p = decimal (fst p) @ CHR ''@'' # snd p"

fun show_peers :: "(NodeId \<times> string) list \<Rightarrow> string" where
  "show_peers [] = []"
| "show_peers [p] = show_peer p"
| "show_peers (p # ps) = show_peer p @ CHR '','' # show_peers ps"

text \<open>An address that survives: no comma, and no space at its ends.\<close>

definition plain_address :: "string \<Rightarrow> bool" where
  "plain_address a \<longleftrightarrow> CHR '','' \<notin> set a \<and> (a \<noteq> [] \<longrightarrow> \<not> is_space (hd a) \<and> \<not> is_space (last a))"

section \<open>Lemmas\<close>

lemma dropWhile_none: "xs = [] \<or> \<not> P (hd xs) \<Longrightarrow> dropWhile P xs = xs"
  by (cases xs) auto

lemma trim_plain: "s = [] \<or> \<not> is_space (hd s) \<and> \<not> is_space (last s) \<Longrightarrow> trim s = s"
  using dropWhile_none[of s is_space] dropWhile_none[of "rev s" is_space] by (auto simp: trim_def hd_rev)

lemma split_on_append: "c \<notin> set xs \<Longrightarrow> split_on c (xs @ c # ys) = xs # split_on c ys"
  by (induction xs) auto

lemma split_on_none: "c \<notin> set xs \<Longrightarrow> split_on c xs = [xs]"
  by (induction xs) auto

lemma split_once_append: "c \<notin> set xs \<Longrightarrow> split_once c (xs @ c # ys) = Some (xs, ys)"
  by (simp add: split_once_def dropWhile_append takeWhile_append)

lemma digit_value_char: "d < 10 \<Longrightarrow> digit_value (digit_char d) = Some d"
  by (simp add: digit_value_def digit_char_def Let_def)

lemma parse_digits_append:
  "parse_digits acc (xs @ ys) = (case parse_digits acc xs of Inl e \<Rightarrow> Inl e | Inr n \<Rightarrow> parse_digits n ys)"
  by (induction acc xs rule: parse_digits.induct) (auto split: option.split)

lemma parse_digits_decimal: "n < 2 ^ 64 \<Longrightarrow> parse_digits 0 (decimal n) = Inr n"
proof (induction n rule: decimal.induct)
  case (1 n)
  show ?case
  proof (cases "n < 10")
    case True
    with 1(2) show ?thesis by (subst decimal.simps) (simp add: digit_value_char)
  next
    case False
    have "n div 10 < 2 ^ 64" using 1(2) by (rule le_less_trans[OF div_le_dividend])
    with 1 False show ?thesis by (subst decimal.simps) (simp add: parse_digits_append digit_value_char)
  qed
qed

lemma decimal_digits: "c \<in> set (decimal n) \<Longrightarrow> \<exists>d<10. c = digit_char d"
proof (induction n rule: decimal.induct)
  case (1 n)
  show ?case
  proof (cases "n < 10")
    case True
    with 1(2) show ?thesis by (subst (asm) decimal.simps) auto
  next
    case False
    with 1(2) have "c \<in> set (decimal (n div 10)) \<or> c = digit_char (n mod 10)"
      by (subst (asm) decimal.simps) auto
    with 1(1)[OF False] show ?thesis by (auto intro: exI[of _ "n mod 10"])
  qed
qed

lemma decimal_not_Nil [simp]: "decimal n \<noteq> []"
  by (subst decimal.simps) simp

lemma digit_char_plain:
  assumes "d < 10"
  shows "digit_char d \<noteq> CHR ''@''" "digit_char d \<noteq> CHR '',''" "digit_char d \<noteq> CHR ''+''"
    "\<not> is_space (digit_char d)"
proof -
  have "of_char (digit_char d) = 48 + d" using assms by (simp add: digit_char_def)
  then show "digit_char d \<noteq> CHR ''@''" "digit_char d \<noteq> CHR '',''" "digit_char d \<noteq> CHR ''+''"
    "\<not> is_space (digit_char d)" using assms by (auto simp: is_space_def)
qed

lemma decimal_plain:
  "CHR ''@'' \<notin> set (decimal n)" "CHR '','' \<notin> set (decimal n)"
  "\<not> is_space (hd (decimal n))" "\<not> is_space (last (decimal n))" "hd (decimal n) \<noteq> CHR ''+''"
proof -
  have digit: "\<exists>d<10. c = digit_char d" if "c \<in> set (decimal n)" for c using decimal_digits[OF that] .
  note ends = hd_in_set[OF decimal_not_Nil[of n]] last_in_set[OF decimal_not_Nil[of n]]
  show "CHR ''@'' \<notin> set (decimal n)" "CHR '','' \<notin> set (decimal n)"
    using digit[of "CHR ''@''"] digit[of "CHR '',''"] digit_char_plain(1,2) by metis+
  obtain d where d: "d < 10" "hd (decimal n) = digit_char d" using digit[OF ends(1)] by blast
  obtain e where e: "e < 10" "last (decimal n) = digit_char e" using digit[OF ends(2)] by blast
  show "\<not> is_space (hd (decimal n))" "\<not> is_space (last (decimal n))" "hd (decimal n) \<noteq> CHR ''+''"
    using d e digit_char_plain by simp_all
qed

lemma parse_u64_decimal: "n < 2 ^ 64 \<Longrightarrow> parse_u64 (decimal n) = Inr n"
  using decimal_plain(5)[of n] parse_digits_decimal[of n]
  by (cases "decimal n") (auto simp: parse_u64_def)

lemma parse_show_peer:
  assumes "i < 2 ^ 64" "plain_address a"
  shows "parse_entry (show_peer (i, a)) = Inr (i, a)" "trim (show_peer (i, a)) = show_peer (i, a)"
    "show_peer (i, a) \<noteq> []" "CHR '','' \<notin> set (show_peer (i, a))"
proof -
  have t: "trim (decimal i) = decimal i" "trim a = a"
    using decimal_plain[of i] assms(2) by (auto simp: plain_address_def intro!: trim_plain)
  show "parse_entry (show_peer (i, a)) = Inr (i, a)"
    by (simp add: parse_entry_def show_peer_def split_once_append decimal_plain t parse_u64_decimal[OF assms(1)])
  show "trim (show_peer (i, a)) = show_peer (i, a)"
    using decimal_plain(3)[of i] assms(2)
    by (intro trim_plain) (auto simp: show_peer_def plain_address_def is_space_def)
  show "show_peer (i, a) \<noteq> []" "CHR '','' \<notin> set (show_peer (i, a))"
    using decimal_plain(2) assms(2) by (auto simp: show_peer_def plain_address_def)
qed

lemma split_show_peers:
  assumes "ps \<noteq> []" "\<forall>p\<in>set ps. CHR '','' \<notin> set (show_peer p)"
  shows "split_on CHR '','' (show_peers ps) = map show_peer ps"
  using assms by (induction ps rule: show_peers.induct) (auto simp: split_on_none split_on_append)

lemma parse_entries_show:
  assumes "\<forall>(i, a)\<in>set ps. i < 2 ^ 64 \<and> plain_address a"
  shows "parse_entries (map show_peer ps) = Inr ps"
  using assms
proof (induction ps)
  case (Cons p ps)
  then show ?case using parse_show_peer[of "fst p" "snd p"] by (cases p) simp
qed simp

section \<open>Properties\<close>

text \<open>
  The peer list is read as it is written. For any list of node ids of 64 bits and addresses
  without commas and without spaces at their ends, parsing \<open>id@address,...\<close> gives the list back.
\<close>

lemma parse_show_peers:
  assumes "\<forall>(i, a)\<in>set ps. i < 2 ^ 64 \<and> plain_address a"
  shows "parse_peers (show_peers ps) = Inr ps"
proof (cases "ps = []")
  case True
  then show ?thesis by (simp add: parse_peers_def trim_def)
next
  case False
  have "CHR '','' \<notin> set (show_peer p)" if "p \<in> set ps" for p
    using assms that parse_show_peer(4)[of "fst p" "snd p"] by (cases p) auto
  with split_show_peers[OF False] parse_entries_show[OF assms] show ?thesis by (simp add: parse_peers_def)
qed

lemma parse_show_peers_witness:
  "parse_peers ''1@a:2379,12@b:2380'' = Inr [(1, ''a:2379''), (12, ''b:2380'')]"
proof -
  have "show_peers [(1, ''a:2379''), (12, ''b:2380'')] = ''1@a:2379,12@b:2380''"
    by code_simp
  moreover have "\<forall>(i, a)\<in>set [(1 :: nat, ''a:2379''), (12, ''b:2380'')]. i < 2 ^ 64 \<and> plain_address a"
    by (auto simp: plain_address_def is_space_def)
  ultimately show ?thesis using parse_show_peers[of "[(1, ''a:2379''), (12, ''b:2380'')]"] by simp
qed

end
