(* ===== verification/Raft_Network.thy ===== *)
theory Raft_Network
  imports Peer_List Key_Prefix
begin

text \<open>
  The Raft transport of \<open>src/raft.rs\<close>: the dispatch of incoming calls (\<open>RaftGrpcService::raft_rpc\<close> and
  \<open>run_raft_rpc_loop\<close>), and the two clients (\<open>Router\<close> in memory, \<open>GrpcRouter\<close> over gRPC) with their
  error mapping. The codec (\<open>serde_json\<close>), the Raft calls themselves (\<open>openraft\<close>) and the connections
  (\<open>tonic\<close>) are parameters. A call through a transport that reaches the peer has the result of the
  peer's own call.
\<close>

section \<open>Parameters\<close>

text \<open>
  The result of a Raft call, \<open>Result<R, RaftError>\<close>, and a codec for values. \<open>append_entries\<close> and
  \<open>vote\<close> have no API error of their own; for them the branch is \<open>unreachable!\<close>.
\<close>

datatype ('x, 'f) raft_error = APIError 'x | Fatal 'f

type_synonym ('x, 'f, 'r) raft_result = "('x, 'f) raft_error + 'r"

record 'a codec =
  to_vec :: "'a \<Rightarrow> string + byte_array"
  from_slice :: "byte_array \<Rightarrow> string + 'a"

text \<open>The three calls of a Raft node with state \<open>'s\<close>, and the codecs of their requests and results.\<close>

record ('s, 'q, 'x, 'f, 'r) raft_call =
  call :: "'s \<Rightarrow> 'q \<Rightarrow> 's \<times> ('x, 'f, 'r) raft_result"
  req_codec :: "'q codec"
  res_codec :: "('x, 'f, 'r) raft_result codec"

record ('s, 'aq, 'ar, 'vq, 'vr, 'sq, 'sr, 'x, 'f) RaftApi =
  append_entries :: "('s, 'aq, 'x, 'f, 'ar) raft_call"
  vote_call :: "('s, 'vq, 'x, 'f, 'vr) raft_call"
  snapshot_call :: "('s, 'sq, 'x, 'f, 'sr) raft_call"

record RaftPayload =
  path :: string
  payload_data :: byte_array

section \<open>Dispatch\<close>

text \<open>Decode, call, encode; \<open>Inl\<close> marks a request that does not decode, \<open>Inr (Inl _)\<close> a result that does not encode.\<close>

definition serve :: "('s, 'q, 'x, 'f, 'r) raft_call \<Rightarrow> byte_array \<Rightarrow> 's \<Rightarrow> 's \<times> (string + (string + byte_array))" where
  "serve c data s =
     (case from_slice (req_codec c) data of
        Inl e \<Rightarrow> (s, Inl e)
      | Inr req \<Rightarrow> (let (s', res) = call c s req in (s', Inr (to_vec (res_codec c) res))))"

definition grpc_answer :: "string \<Rightarrow> string \<Rightarrow> 's \<times> (string + (string + byte_array)) \<Rightarrow> 's \<times> (status + byte_array)" where
  "grpc_answer bad_request bad_result r =
     (fst r, case snd r of
        Inl e \<Rightarrow> Inl (Status InvalidArgument bad_request [bytes e])
      | Inr (Inl e) \<Rightarrow> Inl (Status Internal bad_result [bytes e])
      | Inr (Inr data) \<Rightarrow> Inr data)"

definition raft_rpc ::
    "('s, 'aq, 'ar, 'vq, 'vr, 'sq, 'sr, 'x, 'f) RaftApi \<Rightarrow> RaftPayload \<Rightarrow> 's \<Rightarrow> 's \<times> (status + RaftPayload)" where
  "raft_rpc api req s =
     (let (s', result) =
        (if path req = ''/raft/append''
         then grpc_answer ''deserialize append_entries: {}'' ''serialize append_entries resp: {}''
                (serve (append_entries api) (payload_data req) s)
         else if path req = ''/raft/vote''
         then grpc_answer ''deserialize vote: {}'' ''serialize vote resp: {}'' (serve (vote_call api) (payload_data req) s)
         else if path req = ''/raft/snapshot''
         then grpc_answer ''deserialize install_snapshot: {}'' ''serialize install_snapshot resp: {}''
                (serve (snapshot_call api) (payload_data req) s)
         else (s, Inl (Status NotFound ''unknown raft rpc path: {}'' [bytes (path req)])))
      in (s', case result of
           Inl e \<Rightarrow> Inl e
         | Inr data \<Rightarrow> Inr \<lparr>path = [], payload_data = data\<rparr>))"

text \<open>The loop of the in-memory network answers with strings.\<close>

definition loop_answer :: "'s \<times> (string + (string + byte_array)) \<Rightarrow> 's \<times> (string + byte_array)" where
  "loop_answer r =
     (fst r, case snd r of
        Inl e \<Rightarrow> Inl (''deserialize error: '' @ e)
      | Inr (Inl e) \<Rightarrow> Inl e
      | Inr (Inr data) \<Rightarrow> Inr data)"

definition rpc_loop_message ::
    "('s, 'aq, 'ar, 'vq, 'vr, 'sq, 'sr, 'x, 'f) RaftApi \<Rightarrow> RaftPayload \<Rightarrow> 's \<Rightarrow> 's \<times> (string + byte_array)" where
  "rpc_loop_message api msg s =
     (if path msg = ''/raft/append'' then loop_answer (serve (append_entries api) (payload_data msg) s)
      else if path msg = ''/raft/vote'' then loop_answer (serve (vote_call api) (payload_data msg) s)
      else if path msg = ''/raft/snapshot'' then loop_answer (serve (snapshot_call api) (payload_data msg) s)
      else (s, Inl (''unknown path: '' @ path msg)))"

section \<open>Clients\<close>

text \<open>
  The errors a client reports to Raft: the peer is unreachable, with a text or with the text of the
  fatal error of its Raft, or it answered an error of its own.
\<close>

datatype ('x, 'f) net_error = Unreachable string | UnreachableFatal 'f | RemoteError NodeId 'x

text \<open>What becomes of a decoded result: for calls without an API error, and for snapshots.\<close>

definition finish_call :: "('x, 'f, 'r) raft_result \<Rightarrow> (('x, 'f) net_error + 'r) run" where
  "finish_call res =
     (case res of
        Inr r \<Rightarrow> Returns (Inr r)
      | Inl (APIError _) \<Rightarrow> Panics
      | Inl (Fatal f) \<Rightarrow> Returns (Inl (UnreachableFatal f)))"

definition finish_snapshot :: "NodeId \<Rightarrow> ('x, 'f, 'r) raft_result \<Rightarrow> (('x, 'f) net_error + 'r) run" where
  "finish_snapshot target res =
     (case res of
        Inr r \<Rightarrow> Returns (Inr r)
      | Inl (APIError e) \<Rightarrow> Returns (Inl (RemoteError target e))
      | Inl (Fatal f) \<Rightarrow> Returns (Inl (UnreachableFatal f)))"

text \<open>
  In memory: the router knows which nodes are registered; the state of the nodes is \<open>'w\<close>, and
  \<open>deliver\<close> is what happens to a message put into a node's channel.
\<close>

datatype delivery = ChannelClosed | ResponseDropped | Responded "string + byte_array"

record Router =
  targets :: "NodeId set"

definition router_new :: Router where
  "router_new = \<lparr>targets = {}\<rparr>"

definition register :: "NodeId \<Rightarrow> Router \<Rightarrow> Router" where
  "register i r = r\<lparr>targets := insert i (targets r)\<rparr>"

definition unregister :: "NodeId \<Rightarrow> Router \<Rightarrow> Router" where
  "unregister i r = r\<lparr>targets := targets r - {i}\<rparr>"

definition router_send ::
    "(NodeId \<Rightarrow> RaftPayload \<Rightarrow> 'w \<Rightarrow> 'w \<times> delivery) \<Rightarrow>
     (('x, 'f, 'r) raft_result \<Rightarrow> (('x, 'f) net_error + 'r) run) \<Rightarrow>
     'q codec \<Rightarrow> ('x, 'f, 'r) raft_result codec \<Rightarrow>
     Router \<Rightarrow> NodeId \<Rightarrow> string \<Rightarrow> 'q \<Rightarrow> 'w \<Rightarrow> 'w \<times> (('x, 'f) net_error + 'r) run" where
  "router_send deliver finish qc rc router to p req w =
     (case to_vec qc req of
        Inl e \<Rightarrow> (w, Returns (Inl (Unreachable e)))
      | Inr data \<Rightarrow>
          if to \<notin> targets router
          then (w, Returns (Inl (Unreachable (''node '' @ decimal to @ '' not found''))))
          else let (w', d) = deliver to \<lparr>path = p, payload_data = data\<rparr> w in
            (w', case d of
               ChannelClosed \<Rightarrow> Returns (Inl (Unreachable (''node '' @ decimal to @ '' channel closed'')))
             | ResponseDropped \<Rightarrow> Returns (Inl (Unreachable (''node '' @ decimal to @ '' dropped response'')))
             | Responded (Inl e) \<Rightarrow> Returns (Inl (Unreachable e))
             | Responded (Inr resp) \<Rightarrow>
                 (case from_slice rc resp of
                    Inl e \<Rightarrow> Returns (Inl (Unreachable (''deserialize error: '' @ e)))
                  | Inr result \<Rightarrow> finish result)))"

text \<open>
  Over gRPC: addresses and cached connections. \<open>connect\<close> opens a connection to an address (with the
  error text of the failed step), and \<open>remote\<close> makes a call on one.
\<close>

record 'c GrpcRouter =
  router_peers :: "(NodeId, string) btree"
  router_channels :: "(NodeId, 'c) btree"

definition grpc_router_new :: "(NodeId \<times> string) list \<Rightarrow> 'c GrpcRouter" where
  "grpc_router_new peers = \<lparr>router_peers = peer_map peers, router_channels = btree_new\<rparr>"

definition get_channel ::
    "(string \<Rightarrow> string + 'c) \<Rightarrow> 'c GrpcRouter \<Rightarrow> NodeId \<Rightarrow> 'c GrpcRouter \<times> (string + 'c)" where
  "get_channel connect router target =
     (case btree_get (router_channels router) target of
        Some c \<Rightarrow> (router, Inr c)
      | None \<Rightarrow>
          (case btree_get (router_peers router) target of
             None \<Rightarrow> (router, Inl (''node '' @ decimal target @ '' address not found''))
           | Some addr \<Rightarrow>
               (case connect (''http://'' @ addr) of
                  Inl e \<Rightarrow> (router, Inl e)
                | Inr c \<Rightarrow> (router\<lparr>router_channels := btree_insert target c (router_channels router)\<rparr>, Inr c))))"

definition grpc_send ::
    "(string \<Rightarrow> string + 'c) \<Rightarrow> ('c \<Rightarrow> RaftPayload \<Rightarrow> 'w \<Rightarrow> 'w \<times> (string + RaftPayload)) \<Rightarrow>
     (('x, 'f, 'r) raft_result \<Rightarrow> (('x, 'f) net_error + 'r) run) \<Rightarrow>
     'q codec \<Rightarrow> ('x, 'f, 'r) raft_result codec \<Rightarrow>
     'c GrpcRouter \<Rightarrow> NodeId \<Rightarrow> string \<Rightarrow> 'q \<Rightarrow> 'w \<Rightarrow> 'c GrpcRouter \<times> 'w \<times> (('x, 'f) net_error + 'r) run" where
  "grpc_send connect remote finish qc rc router target p req w =
     (let (router', ch) = get_channel connect router target in
      case ch of
        Inl e \<Rightarrow> (router', w, Returns (Inl (Unreachable e)))
      | Inr c \<Rightarrow>
          (case to_vec qc req of
             Inl e \<Rightarrow> (router', w, Returns (Inl (Unreachable (''serialize request: '' @ e))))
           | Inr data \<Rightarrow>
               let (w', resp) = remote c \<lparr>path = p, payload_data = data\<rparr> w in
               (router', w', case resp of
                  Inl e \<Rightarrow> Returns (Inl (Unreachable (''gRPC call to '' @ decimal target @ '' failed: '' @ e)))
                | Inr answer \<Rightarrow>
                    (case from_slice rc (payload_data answer) of
                       Inl e \<Rightarrow> Returns (Inl (Unreachable (''deserialize response: '' @ e)))
                     | Inr result \<Rightarrow> finish result))))"

text \<open>The clients' calls: each path with its codecs.\<close>

definition grpc_append where
  "grpc_append connect remote api router target req w =
     grpc_send connect remote finish_call (req_codec (append_entries api)) (res_codec (append_entries api))
       router target ''/raft/append'' req w"

definition grpc_vote where
  "grpc_vote connect remote api router target req w =
     grpc_send connect remote finish_call (req_codec (vote_call api)) (res_codec (vote_call api))
       router target ''/raft/vote'' req w"

text \<open>\<open>grpc_send_snapshot\<close> repeats \<open>grpc_send\<close> with its own texts and keeps the peer's API errors.\<close>

definition grpc_send_snapshot where
  "grpc_send_snapshot connect remote api router target req w =
     (let (router', ch) = get_channel connect router target in
      case ch of
        Inl e \<Rightarrow> (router', w, Returns (Inl (Unreachable e)))
      | Inr c \<Rightarrow>
          (case to_vec (req_codec (snapshot_call api)) req of
             Inl e \<Rightarrow> (router', w, Returns (Inl (Unreachable e)))
           | Inr data \<Rightarrow>
               let (w', resp) = remote c \<lparr>path = ''/raft/snapshot'', payload_data = data\<rparr> w in
               (router', w', case resp of
                  Inl e \<Rightarrow> Returns (Inl (Unreachable (''gRPC call to '' @ decimal target @ '' failed: '' @ e)))
                | Inr answer \<Rightarrow>
                    (case from_slice (res_codec (snapshot_call api)) (payload_data answer) of
                       Inl e \<Rightarrow> Returns (Inl (Unreachable (''deserialize: '' @ e)))
                     | Inr result \<Rightarrow> finish_snapshot target result))))"

definition router_append where
  "router_append deliver api router target req w =
     router_send deliver finish_call (req_codec (append_entries api)) (res_codec (append_entries api))
       router target ''/raft/append'' req w"

definition router_vote where
  "router_vote deliver api router target req w =
     router_send deliver finish_call (req_codec (vote_call api)) (res_codec (vote_call api))
       router target ''/raft/vote'' req w"

definition router_install_snapshot where
  "router_install_snapshot deliver api router target req w =
     router_send deliver (finish_snapshot target) (req_codec (snapshot_call api)) (res_codec (snapshot_call api))
       router target ''/raft/snapshot'' req w"

section \<open>Waiting for a leader\<close>

text \<open>
  \<open>wait_for_leader_grpc\<close>: each poll sees the leader the metrics name and whether the timeout has
  passed; \<open>None\<close> while it still waits.
\<close>

fun wait_for_leader :: "(NodeId option \<times> bool) list \<Rightarrow> (unit + NodeId) option" where
  "wait_for_leader [] = None"
| "wait_for_leader ((leader, late) # polls) =
     (case leader of
        Some l \<Rightarrow> Some (Inr l)
      | None \<Rightarrow> if late then Some (Inl ()) else wait_for_leader polls)"

section \<open>Lemmas\<close>

definition lossless :: "'a codec \<Rightarrow> bool" where
  "lossless c \<longleftrightarrow> (\<forall>x. \<exists>data. to_vec c x = Inr data \<and> from_slice c data = Inr x)"

definition lossless_call :: "('s, 'q, 'x, 'f, 'r) raft_call \<Rightarrow> bool" where
  "lossless_call c \<longleftrightarrow> lossless (req_codec c) \<and> lossless (res_codec c)"

lemma losslessE:
  assumes "lossless c"
  obtains data where "to_vec c x = Inr data" "from_slice c data = Inr x"
  using assms unfolding lossless_def by blast

text \<open>An encoded request, served, gives an answer that decodes to the result of the call.\<close>

lemma call_lossless:
  assumes "lossless_call c"
  obtains data out where "to_vec (req_codec c) q = Inr data" "serve c data w = (fst (call c w q), Inr (Inr out))"
    "from_slice (res_codec c) out = Inr (snd (call c w q))"
proof -
  obtain data where data: "to_vec (req_codec c) q = Inr data" "from_slice (req_codec c) data = Inr q"
    using losslessE[of "req_codec c"] assms unfolding lossless_call_def by metis
  obtain out where "to_vec (res_codec c) (snd (call c w q)) = Inr out"
    "from_slice (res_codec c) out = Inr (snd (call c w q))"
    using losslessE[of "res_codec c"] assms unfolding lossless_call_def by metis
  with data that show ?thesis by (simp add: serve_def split_beta Let_def)
qed

text \<open>A connection that carries payloads to the dispatcher of a peer.\<close>

definition reaches ::
    "('s, 'aq, 'ar, 'vq, 'vr, 'sq, 'sr, 'x, 'f) RaftApi \<Rightarrow> (status \<Rightarrow> string) \<Rightarrow>
     (RaftPayload \<Rightarrow> 's \<Rightarrow> 's \<times> (string + RaftPayload)) \<Rightarrow> bool" where
  "reaches api status_text carry \<longleftrightarrow>
     (\<forall>pl w. carry pl w = (fst (raft_rpc api pl w),
        case snd (raft_rpc api pl w) of Inl st \<Rightarrow> Inl (status_text st) | Inr p \<Rightarrow> Inr p))"

lemma reaches_serve:
  assumes "reaches api status_text carry"
  shows "serve (append_entries api) data w = (w', Inr (Inr out)) \<Longrightarrow>
      carry \<lparr>path = ''/raft/append'', payload_data = data\<rparr> w = (w', Inr \<lparr>path = [], payload_data = out\<rparr>)"
    "serve (vote_call api) data w = (w', Inr (Inr out)) \<Longrightarrow>
      carry \<lparr>path = ''/raft/vote'', payload_data = data\<rparr> w = (w', Inr \<lparr>path = [], payload_data = out\<rparr>)"
    "serve (snapshot_call api) data w = (w', Inr (Inr out)) \<Longrightarrow>
      carry \<lparr>path = ''/raft/snapshot'', payload_data = data\<rparr> w = (w', Inr \<lparr>path = [], payload_data = out\<rparr>)"
  using assms by (simp_all add: reaches_def raft_rpc_def grpc_answer_def)

section \<open>Properties\<close>

text \<open>
  C37: gRPC calls are transparent. If a connection to the peer can be had, the connection carries
  payloads to the peer's dispatcher, and the codecs are lossless, then each of the three calls
  changes the peer's state as the call made there would, and its result is the one of that call:
  answers come back as they are, a stopped peer is unreachable, and the API errors of a snapshot
  installation come back as errors of that node.
\<close>

theorem grpc_calls_reach_peer:
  assumes "get_channel connect router target = (router', Inr c)" "reaches api status_text (remote c)"
    and "lossless_call (append_entries api)" "lossless_call (vote_call api)" "lossless_call (snapshot_call api)"
  shows "grpc_append connect remote api router target aq w =
      (router', fst (call (append_entries api) w aq), finish_call (snd (call (append_entries api) w aq))) \<and>
    grpc_vote connect remote api router target vq w =
      (router', fst (call (vote_call api) w vq), finish_call (snd (call (vote_call api) w vq))) \<and>
    grpc_send_snapshot connect remote api router target sq w =
      (router', fst (call (snapshot_call api) w sq), finish_snapshot target (snd (call (snapshot_call api) w sq)))"
proof (intro conjI)
  show "grpc_append connect remote api router target aq w =
      (router', fst (call (append_entries api) w aq), finish_call (snd (call (append_entries api) w aq)))"
    by (rule call_lossless[OF assms(3), of aq w])
      (simp add: grpc_append_def grpc_send_def assms(1) reaches_serve(1)[OF assms(2)])
  show "grpc_vote connect remote api router target vq w =
      (router', fst (call (vote_call api) w vq), finish_call (snd (call (vote_call api) w vq)))"
    by (rule call_lossless[OF assms(4), of vq w])
      (simp add: grpc_vote_def grpc_send_def assms(1) reaches_serve(2)[OF assms(2)])
  show "grpc_send_snapshot connect remote api router target sq w =
      (router', fst (call (snapshot_call api) w sq), finish_snapshot target (snd (call (snapshot_call api) w sq)))"
    by (rule call_lossless[OF assms(5), of sq w])
      (simp add: grpc_send_snapshot_def assms(1) reaches_serve(3)[OF assms(2)])
qed

text \<open>A peer that counts the calls it gets, with byte strings for requests and answers.\<close>

definition bytes_codec :: "byte_array codec" where
  "bytes_codec = \<lparr>to_vec = Inr, from_slice = Inr\<rparr>"

definition result_codec :: "(unit, unit, byte_array) raft_result codec" where
  "result_codec =
     \<lparr>to_vec = (\<lambda>r. Inr (case r of Inl (APIError _) \<Rightarrow> [1] | Inl (Fatal _) \<Rightarrow> [2] | Inr bs \<Rightarrow> 0 # bs)),
      from_slice = (\<lambda>bs. case bs of
         [] \<Rightarrow> Inl ''EOF'' | b # bs \<Rightarrow> if b = 0 then Inr (Inr bs) else if b = 1 then Inr (Inl (APIError ()))
           else Inr (Inl (Fatal ())))\<rparr>"

definition counting_call :: "(nat \<Rightarrow> byte_array \<Rightarrow> (unit, unit, byte_array) raft_result) \<Rightarrow>
    (nat, byte_array, unit, unit, byte_array) raft_call" where
  "counting_call answer = \<lparr>call = (\<lambda>n q. (n + 1, answer n q)), req_codec = bytes_codec, res_codec = result_codec\<rparr>"

definition counting_peer ::
    "(nat, byte_array, byte_array, byte_array, byte_array, byte_array, byte_array, unit, unit) RaftApi" where
  "counting_peer =
     \<lparr>append_entries = counting_call (\<lambda>n q. Inr q), vote_call = counting_call (\<lambda>n q. Inl (Fatal ())),
      snapshot_call = counting_call (\<lambda>n q. Inl (APIError ()))\<rparr>"

lemma counting_peer_lossless:
  "lossless_call (append_entries counting_peer)" "lossless_call (vote_call counting_peer)"
  "lossless_call (snapshot_call counting_peer)"
  by (auto simp: counting_peer_def counting_call_def lossless_call_def lossless_def bytes_codec_def result_codec_def
      split: sum.split raft_error.split)

definition carry_to :: "string \<Rightarrow> RaftPayload \<Rightarrow> nat \<Rightarrow> nat \<times> (string + RaftPayload)" where
  "carry_to addr pl w = (fst (raft_rpc counting_peer pl w),
     case snd (raft_rpc counting_peer pl w) of Inl st \<Rightarrow> Inl ''error'' | Inr p \<Rightarrow> Inr p)"

theorem grpc_calls_reach_peer_witness:
  "\<exists>router'. grpc_append Inr carry_to counting_peer (grpc_router_new [(2, ''b:2379'')]) 2 [7] 0 = (router', 1, Returns (Inr [7])) \<and>
    grpc_vote Inr carry_to counting_peer (grpc_router_new [(2, ''b:2379'')]) 2 [] 5 = (router', 6, Returns (Inl (UnreachableFatal ()))) \<and>
    grpc_send_snapshot Inr carry_to counting_peer (grpc_router_new [(2, ''b:2379'')]) 2 [] 6 = (router', 7, Returns (Inl (RemoteError 2 ())))"
proof -
  let ?r = "grpc_router_new [(2, ''b:2379'')] :: string GrpcRouter"
  have c: "get_channel Inr ?r 2 = (?r\<lparr>router_channels := [(2, ''http://b:2379'')]\<rparr>, Inr ''http://b:2379'')"
    by (simp add: get_channel_def grpc_router_new_def peer_map_def btree_new_def btree_get_def)
  have "reaches counting_peer (\<lambda>_. ''error'') (carry_to ''http://b:2379'')" by (simp add: reaches_def carry_to_def)
  note reach = grpc_calls_reach_peer[where remote = carry_to and api = counting_peer and connect = Inr and
      router = ?r and target = 2, OF c this counting_peer_lossless]
  from reach[of "[7]" 0 "[]" "[]"] reach[of "[]" 5 "[]" "[]"] reach[of "[]" 6 "[]" "[]"] show ?thesis
    by (auto simp: counting_peer_def counting_call_def finish_call_def finish_snapshot_def)
qed

text \<open>
  The in-memory network behaves like the remote one. A call to a registered node whose loop
  answers has the effect and the result of the call made at that node; a call to a node that is not
  registered reports it as unreachable, and nothing happens anywhere.
\<close>

lemma router_calls_reach_peer:
  assumes "\<And>pl w. deliver target pl w = (fst (rpc_loop_message api pl w), Responded (snd (rpc_loop_message api pl w)))"
    and "lossless_call (append_entries api)" "lossless_call (vote_call api)" "lossless_call (snapshot_call api)"
  shows "router_append deliver api (register target router) target aq w =
      (fst (call (append_entries api) w aq), finish_call (snd (call (append_entries api) w aq))) \<and>
    router_vote deliver api (register target router) target vq w =
      (fst (call (vote_call api) w vq), finish_call (snd (call (vote_call api) w vq))) \<and>
    router_install_snapshot deliver api (register target router) target sq w =
      (fst (call (snapshot_call api) w sq), finish_snapshot target (snd (call (snapshot_call api) w sq))) \<and>
    router_append deliver api (unregister target router) target aq w =
      (w, Returns (Inl (Unreachable (''node '' @ decimal target @ '' not found''))))"
proof (intro conjI)
  show "router_append deliver api (register target router) target aq w =
      (fst (call (append_entries api) w aq), finish_call (snd (call (append_entries api) w aq)))"
    by (rule call_lossless[OF assms(2), of aq w])
      (simp add: router_append_def router_send_def register_def assms(1) rpc_loop_message_def loop_answer_def)
  show "router_vote deliver api (register target router) target vq w =
      (fst (call (vote_call api) w vq), finish_call (snd (call (vote_call api) w vq)))"
    by (rule call_lossless[OF assms(3), of vq w])
      (simp add: router_vote_def router_send_def register_def assms(1) rpc_loop_message_def loop_answer_def)
  show "router_install_snapshot deliver api (register target router) target sq w =
      (fst (call (snapshot_call api) w sq), finish_snapshot target (snd (call (snapshot_call api) w sq)))"
    by (rule call_lossless[OF assms(4), of sq w])
      (simp add: router_install_snapshot_def router_send_def register_def assms(1) rpc_loop_message_def loop_answer_def)
  show "router_append deliver api (unregister target router) target aq w =
      (w, Returns (Inl (Unreachable (''node '' @ decimal target @ '' not found''))))"
    by (rule call_lossless[OF assms(2), of aq w]) (simp add: router_append_def router_send_def unregister_def)
qed

lemma router_calls_reach_peer_witness:
  "router_append (\<lambda>_ pl w. (fst (rpc_loop_message counting_peer pl w), Responded (snd (rpc_loop_message counting_peer pl w))))
      counting_peer (register 3 router_new) 3 [7] 0 = (1, Returns (Inr [7])) \<and>
   router_append (\<lambda>_ pl w. (fst (rpc_loop_message counting_peer pl w), Responded (snd (rpc_loop_message counting_peer pl w))))
      counting_peer (unregister 3 router_new) 3 [7] 0 = (0, Returns (Inl (Unreachable ''node 3 not found'')))"
proof -
  have d: "''node '' @ decimal 3 @ '' not found'' = ''node 3 not found''" by code_simp
  from router_calls_reach_peer[of "\<lambda>_ pl w. (fst (rpc_loop_message counting_peer pl w), Responded (snd (rpc_loop_message counting_peer pl w)))"
      3 counting_peer router_new "[7]" 0, OF _ counting_peer_lossless] d
  show ?thesis by (simp add: counting_peer_def counting_call_def finish_call_def)
qed

end
