(* ===== verification/Raft_Node.thy ===== *)
theory Raft_Node
  imports Server_Start Raft_Network Raft_State_Machine
begin

text \<open>
  Setting up a Raft node: the constructors of \<open>src/raft.rs\<close> (\<open>create_raft_node\<close>,
  \<open>create_grpc_raft_node\<close>, \<open>init_cluster\<close>, \<open>init_grpc_cluster\<close>) and the Raft part of \<open>main\<close> in
  \<open>src/main.rs\<close>. \<open>Config::validate\<close>, \<open>Raft::new\<close> and \<open>Raft::initialize\<close> belong to \<open>openraft\<close> and are
  parameters.
\<close>

section \<open>Operations\<close>

record Config =
  heartbeat_interval :: nat
  election_timeout_min :: nat
  election_timeout_max :: nat

definition memory_config :: Config where
  "memory_config = \<lparr>heartbeat_interval = 100, election_timeout_min = 300, election_timeout_max = 600\<rparr>"

definition grpc_config :: Config where
  "grpc_config = \<lparr>heartbeat_interval = 250, election_timeout_min = 1000, election_timeout_max = 2000\<rparr>"

text \<open>A node: its Raft, and the router with the node registered.\<close>

definition create_raft_node ::
    "(Config \<Rightarrow> 'e + Config) \<Rightarrow>
     (NodeId \<Rightarrow> Config \<Rightarrow> Router \<Rightarrow> ('l, 'm, 'v) LogStoreInner \<Rightarrow> ('l, 'm) StateMachineStore \<Rightarrow> 'e + 'raft) \<Rightarrow>
     'm \<Rightarrow> NodeId \<Rightarrow> Router \<Rightarrow> Store \<Rightarrow> Router \<times> ('e + NodeId \<times> 'raft \<times> Store)" where
  "create_raft_node validate raft_new no_members i router s =
     (case validate memory_config of
        Inl e \<Rightarrow> (router, Inl e)
      | Inr config \<Rightarrow>
          (let router' = register i router in
           case raft_new i config router' log_store_default (state_machine_new no_members s) of
             Inl e \<Rightarrow> (router', Inl e)
           | Inr raft \<Rightarrow> (router', Inr (i, raft, s))))"

definition create_grpc_raft_node ::
    "(Config \<Rightarrow> 'e + Config) \<Rightarrow>
     (NodeId \<Rightarrow> Config \<Rightarrow> 'c GrpcRouter \<Rightarrow> ('l, 'm, 'v) LogStoreInner \<Rightarrow> ('l, 'm) StateMachineStore \<Rightarrow> 'e + 'raft) \<Rightarrow>
     'm \<Rightarrow> NodeId \<Rightarrow> (NodeId \<times> string) list \<Rightarrow> Store \<Rightarrow> 'e + 'raft" where
  "create_grpc_raft_node validate raft_new no_members i peers s =
     (case validate grpc_config of
        Inl e \<Rightarrow> Inl e
      | Inr config \<Rightarrow>
          raft_new i config (grpc_router_new peers) log_store_default (state_machine_new no_members s))"

definition init_cluster :: "((NodeId, string) btree \<Rightarrow> 'e + unit) \<Rightarrow> NodeId list \<Rightarrow> 'e + unit" where
  "init_cluster initialize node_ids =
     initialize (fold (\<lambda>i m. btree_insert i (''in-memory-'' @ decimal i) m) node_ids btree_new)"

definition init_grpc_cluster :: "((NodeId, string) btree \<Rightarrow> 'e + unit) \<Rightarrow> (NodeId \<times> string) list \<Rightarrow> 'e + unit" where
  "init_grpc_cluster initialize peers = initialize (peer_map peers)"

section \<open>main\<close>

record RaftCli = Cli +
  raft_node_id :: "NodeId option"
  raft_peers :: "string option"

datatype 'e main_error = NodeIdRequired | PeersRequired | BadPeers peers_error | RaftFailed 'e

definition raft_setup :: "RaftCli \<Rightarrow> 'e main_error + NodeId \<times> (NodeId \<times> string) list" where
  "raft_setup cli =
     (case raft_node_id cli of
        None \<Rightarrow> Inl NodeIdRequired
      | Some i \<Rightarrow>
          (case raft_peers cli of
             None \<Rightarrow> Inl PeersRequired
           | Some peers_str \<Rightarrow>
               (case parse_peers peers_str of Inl e \<Rightarrow> Inl (BadPeers e) | Inr peers \<Rightarrow> Inr (i, peers))))"

text \<open>
  \<open>main\<close> up to the services: the store with the dummy key, then the KV service on it, alone or behind a
  Raft node; with the notification the start waits for.
\<close>

definition server_main ::
    "(Config \<Rightarrow> 'e + Config) \<Rightarrow>
     (NodeId \<Rightarrow> Config \<Rightarrow> 'c GrpcRouter \<Rightarrow> ('l, 'm, 'v) LogStoreInner \<Rightarrow> ('l, 'm) StateMachineStore \<Rightarrow> 'e + 'w RaftNode) \<Rightarrow>
     'm \<Rightarrow> usize \<Rightarrow> RaftCli \<Rightarrow> (notify_ref option \<times> ('e main_error + 'w KvService)) run" where
  "server_main validate raft_new no_members bs cli =
     bind_run (server_start bs (Cli.truncate cli))
       (\<lambda>(s, waits). Returns (waits,
          if raft_enabled cli
          then case raft_setup cli of
                 Inl e \<Rightarrow> Inl e
               | Inr (i, peers) \<Rightarrow>
                   (case create_grpc_raft_node validate raft_new no_members i peers s of
                      Inl e \<Rightarrow> Inl (RaftFailed e)
                    | Inr raft \<Rightarrow> Inr (kv_with_raft s raft))
          else Inr (kv_new s)))"

section \<open>Lemmas\<close>

lemma btree_get_fold_insert:
  assumes "btree_wf m"
  shows "btree_wf (fold (\<lambda>(i, a) m. btree_insert i a m) ps m) \<and>
    btree_get (fold (\<lambda>(i, a) m. btree_insert i a m) ps m) = btree_get m ++ map_of (rev ps)"
  using assms
proof (induction ps arbitrary: m)
  case (Cons p ps)
  obtain i a where p: "p = (i, a)" by fastforce
  have wf: "btree_wf (btree_insert i a m)" by (rule bt.wf_insert[OF Cons.prems])
  have step: "(btree_get m)(i \<mapsto> a) ++ map_of (rev ps) = btree_get m ++ map_of (rev (p # ps))"
    by (rule ext) (simp add: p map_add_def split: option.split)
  show ?case
    using Cons.IH[OF wf] unfolding btree_get_insert[OF Cons.prems] step by (simp only: p fold_simps prod.case)
qed simp

lemma peer_map_get: "btree_get (peer_map ps) = map_of (rev ps)"
  using btree_get_fold_insert[OF bt.wf_empty, of ps] by (simp add: peer_map_def bt.lookup_empty)

lemma truncate_fields [simp]:
  "cli_wal_dir (Cli.truncate cli) = cli_wal_dir cli" "cli_wal_default (Cli.truncate cli) = cli_wal_default cli"
  "raft_enabled (Cli.truncate cli) = raft_enabled cli"
  by (simp_all add: Cli.truncate_def)

section \<open>Properties\<close>

text \<open>
  From the command line to a cluster. With a list of peers written as the option documents it, \<open>main\<close>
  creates the Raft node on exactly these peers, with an empty log and a state machine on a store that
  holds the dummy key and nothing else, whatever the log directory holds; the KV service answers
  through that node. The router's addresses and the members of an initialised cluster are the same.
\<close>

lemma server_main_raft:
  assumes "0 < bs" "raft_enabled cli" "raft_node_id cli = Some i" "raft_peers cli = Some (show_peers ps)"
    and "\<forall>(j, a)\<in>set ps. j < 2 ^ 64 \<and> plain_address a" "validate grpc_config = Inr config"
  shows "\<exists>s waits router. server_main validate raft_new no_members bs cli = Returns (waits,
      case raft_new i config router log_store_default (state_machine_new no_members s) of
        Inl e \<Rightarrow> Inl (RaftFailed e) | Inr raft \<Rightarrow> Inr (kv_with_raft s raft)) \<and>
    store_repr s [(dummy_key, Some [])] \<and>
    btree_get (router_peers router) = map_of (rev ps) \<and> init_grpc_cluster initialize ps = initialize (router_peers router)"
proof -
  obtain s job where s: "server_start bs (Cli.truncate cli) = Returns (s, if cli_wal_default (Cli.truncate cli) = CliFsync then Some 0 else None)"
    "store_repr s ((dummy_key, Some []) # hist_writes [] (record_writes []))"
    by (rule server_start_set[OF assms(1), of "Cli.truncate cli" "[]"]) (simp add: assms(2))
  with assms(2-4,6) parse_show_peers[OF assms(5)] show ?thesis
    by (intro exI[of _ s] exI[of _ "if cli_wal_default cli = CliFsync then Some 0 else None"] exI[of _ "grpc_router_new ps"])
      (simp add: server_main_def raft_setup_def create_grpc_raft_node_def record_writes_def grpc_router_new_def peer_map_get init_grpc_cluster_def)
qed

definition raft_cli :: RaftCli where
  "raft_cli = \<lparr>cli_wal_dir = [], cli_wal_default = CliBuffered, wal_no_write_prefixes = [], raft_enabled = True,
     raft_node_id = Some 1, raft_peers = Some (show_peers [(1, ''a:1''), (2, ''b:2'')])\<rparr>"

definition lone_node :: "NodeId \<Rightarrow> string RaftNode" where
  "lone_node i = \<lparr>node_id = i, current_leader = None, client_write = (\<lambda>s _. Returns (s, Inl ''no leader''))\<rparr>"

definition lone_raft :: "NodeId \<Rightarrow> Config \<Rightarrow> unit GrpcRouter \<Rightarrow> (nat, unit, unit) LogStoreInner \<Rightarrow>
    (nat, unit) StateMachineStore \<Rightarrow> string + string RaftNode" where
  "lone_raft i config router logs machine = Inr (lone_node i)"

lemma server_main_raft_witness:
  "\<exists>s waits. server_main Inr lone_raft () 2 raft_cli = Returns (waits, Inr (kv_with_raft s (lone_node 1))) \<and>
    store_repr s [(dummy_key, Some [])]"
proof -
  have "\<forall>(j, a)\<in>set [(1 :: nat, ''a:1''), (2, ''b:2'')]. j < 2 ^ 64 \<and> plain_address a"
    by (auto simp: plain_address_def is_space_def)
  from server_main_raft[where bs = 2 and cli = raft_cli and i = 1 and validate = Inr and raft_new = lone_raft and no_members = "()"
      and initialize = "\<lambda>_. (Inr () :: unit + unit)",
      OF _ _ _ _ this refl]
  show ?thesis by (auto simp: raft_cli_def lone_raft_def)
qed

end
