(* ===== verification/Lease_Maintenance.thy ===== *)
theory Lease_Maintenance
  imports Kv_Service
begin

text \<open>
  The lease and maintenance services (\<open>src/lease_service.rs\<close>, \<open>src/maintenance_service.rs\<close>). Leases are
  not kept: granting one only hands out a number. Maintenance reads the revision of the store and the
  size metric, which is an argument. Neither service changes the store.
\<close>

section \<open>Leases\<close>

record LeaseService =
  lease_id :: i64

definition lease_new :: LeaseService where
  "lease_new = \<lparr>lease_id = 1\<rparr>"

record LeaseGrantRequest =
  grant_id :: i64
  grant_ttl :: i64

record LeaseGrantResponse =
  granted_header :: ResponseHeader
  granted_id :: i64
  granted_ttl :: i64
  granted_error :: string

definition lease_grant :: "LeaseService \<Rightarrow> LeaseGrantRequest \<Rightarrow> LeaseService \<times> LeaseGrantResponse" where
  "lease_grant sv req =
     (let (sv', i) = (if grant_id req = 0 then (sv\<lparr>lease_id := lease_id sv + 1\<rparr>, lease_id sv) else (sv, grant_id req))
      in (sv', \<lparr>granted_header = header 1, granted_id = i, granted_ttl = grant_ttl req, granted_error = []\<rparr>))"

definition lease_revoke :: "i64 \<Rightarrow> ResponseHeader" where
  "lease_revoke i = header 2"

definition lease_time_to_live :: "i64 \<Rightarrow> status + unit" where
  "lease_time_to_live i = Inl (Status Unimplemented ''lease_time_to_live not implemented'' [])"

definition lease_leases :: "status + unit" where
  "lease_leases = Inl (Status Unimplemented ''lease_leases not implemented'' [])"

record LeaseKeepAliveResponse =
  alive_header :: ResponseHeader
  alive_id :: i64
  alive_ttl :: i64

text \<open>
  The stream of \<open>lease_keep_alive\<close>: the one response put into its channel before the sender is
  dropped, whatever the client sends.
\<close>

definition lease_keep_alive :: "'a list \<Rightarrow> LeaseKeepAliveResponse list" where
  "lease_keep_alive requests = [\<lparr>alive_header = header 1, alive_id = 0, alive_ttl = 0\<rparr>]"

section \<open>Maintenance\<close>

definition alarm :: "Store \<Rightarrow> ResponseHeader \<times> unit list" where
  "alarm s = (header (current_revision s), [])"

record StatusResponse =
  status_header :: ResponseHeader
  status_version :: string
  db_size :: i64
  db_size_in_use :: i64

definition maintenance_status :: "i64 \<Rightarrow> Store \<Rightarrow> StatusResponse" where
  "maintenance_status tree_map_size_bytes s =
     \<lparr>status_header = header (current_revision s), status_version = ''3.5.16'',
      db_size = tree_map_size_bytes, db_size_in_use = tree_map_size_bytes\<rparr>"

definition defragment :: "Store \<Rightarrow> ResponseHeader" where
  "defragment s = header (current_revision s)"

datatype unimplemented_call = Hash | HashKv | SnapshotCall | MoveLeader | Downgrade

fun maintenance_unimplemented :: "unimplemented_call \<Rightarrow> status" where
  "maintenance_unimplemented Hash = Status Unimplemented ''hash not implemented'' []"
| "maintenance_unimplemented HashKv = Status Unimplemented ''hash_kv not implemented'' []"
| "maintenance_unimplemented SnapshotCall = Status Unimplemented ''snapshot not implemented'' []"
| "maintenance_unimplemented MoveLeader = Status Unimplemented ''move_leader not implemented'' []"
| "maintenance_unimplemented Downgrade = Status Unimplemented ''downgrade not implemented'' []"

section \<open>Lemmas\<close>

fun grants :: "LeaseService \<Rightarrow> LeaseGrantRequest list \<Rightarrow> i64 list" where
  "grants sv [] = []"
| "grants sv (r # rs) = (let (sv', resp) = lease_grant sv r in granted_id resp # grants sv' rs)"

definition generated :: "LeaseGrantRequest list \<Rightarrow> i64 list \<Rightarrow> i64 list" where
  "generated reqs ids = map snd (filter (\<lambda>(r, _). grant_id r = 0) (zip reqs ids))"

text \<open>The ids the service makes up are consecutive, so no two of them are equal.\<close>

lemma generated_ids:
  "generated reqs (grants sv reqs) =
     [lease_id sv..lease_id sv + int (length (filter (\<lambda>r. grant_id r = 0) reqs)) - 1]"
proof (induction reqs arbitrary: sv)
  case (Cons r reqs)
  show ?case
  proof (cases "grant_id r = 0")
    case True
    let ?n = "int (length (filter (\<lambda>r. grant_id r = 0) reqs))"
    have "[lease_id sv..lease_id sv + ?n] = lease_id sv # [lease_id sv + 1..lease_id sv + ?n]"
      by (subst upto.simps) simp
    with True Cons[of "sv\<lparr>lease_id := lease_id sv + 1\<rparr>"] show ?thesis
      by (simp add: lease_grant_def generated_def)
  next
    case False
    with Cons[of sv] show ?thesis by (simp add: lease_grant_def generated_def)
  qed
qed (simp add: generated_def)

lemma generated_distinct: "distinct (generated reqs (grants sv reqs))"
  by (simp add: generated_ids)

text \<open>But an id the client chose can be made up again for another lease.\<close>

lemma lease_id_collides:
  "grants lease_new [\<lparr>grant_id = 1, grant_ttl = 5\<rparr>, \<lparr>grant_id = 0, grant_ttl = 7\<rparr>] = [1, 1]"
  by (simp add: lease_new_def lease_grant_def)

end
