(* ===== verification/Server_Main.thy ===== *)
theory Server_Main
  imports Raft_Node Lease_Maintenance Watch_Service Notify_Thread
begin

text \<open>
  The rest of \<open>main\<close> in \<open>src/main.rs\<close>: once the store (and the Raft node) exist, which tasks are spawned,
  which ports are bound and which services are offered, in the order of the code. The operating system
  decides whether a port can be bound and how serving ends; the write of the dummy key may wait for a
  notification. Both are arguments.
\<close>

section \<open>The command line\<close>

record MainCli = RaftCli +
  cli_port :: nat
  cli_metrics_port :: nat
  raft_init :: bool

section \<open>What main does\<close>

text \<open>
  The background tasks: initialising the cluster after three seconds, reporting the leader after five,
  emitting the number of requests in flight every five seconds, serving the metrics.
\<close>

datatype task =
  Init_Cluster "(NodeId \<times> string) list"
| Report_Leader
| Emit_In_Flight
| Serve_Metrics Store

datatype 'e service =
  Kv_Server "'e KvService"
| Maintenance_Server Store
| Lease_Server LeaseService
| Watch_Server Store
| Raft_Transport "'e RaftNode"

datatype 'e action =
  Spawn task
| Bind_Metrics nat
| Serve nat "'e service list"

definition raft_actions :: "MainCli \<Rightarrow> (NodeId \<times> string) list \<Rightarrow> Store \<Rightarrow> 'e RaftNode \<Rightarrow> 'e action list" where
  "raft_actions cli peers s raft =
     (if raft_init cli then [Spawn (Init_Cluster peers)] else []) @
     [Spawn Report_Leader, Spawn Emit_In_Flight, Bind_Metrics (cli_metrics_port cli), Spawn (Serve_Metrics s),
      Serve (cli_port cli)
        [Kv_Server (kv_with_raft s raft), Maintenance_Server s, Lease_Server lease_new, Watch_Server s, Raft_Transport raft]]"

definition single_actions :: "MainCli \<Rightarrow> Store \<Rightarrow> 'e action list" where
  "single_actions cli s =
     [Bind_Metrics (cli_metrics_port cli), Spawn (Serve_Metrics s), Spawn Emit_In_Flight,
      Serve (cli_port cli) [Kv_Server (kv_new s), Maintenance_Server s, Lease_Server lease_new, Watch_Server s]]"

text \<open>How \<open>main\<close> ends. \<open>Waiting\<close>: the write of the dummy key is never acknowledged.\<close>

datatype ('e, 'io) outcome = Waiting | Panicked | Failed "'e main_error" | Served "'io + unit"

text \<open>A port for the metrics that cannot be bound is a panic; the outcome of serving is that of \<open>main\<close>.\<close>

fun perform :: "(nat \<Rightarrow> bool) \<Rightarrow> (nat \<Rightarrow> 'io + unit) \<Rightarrow> 'e action list \<Rightarrow> 'e action list \<times> ('e, 'io) outcome" where
  "perform binds listen [] = ([], Served (Inr ()))"
| "perform binds listen (Spawn t # as) = apfst ((#) (Spawn t)) (perform binds listen as)"
| "perform binds listen (Bind_Metrics port # as) =
     (if binds port then apfst ((#) (Bind_Metrics port)) (perform binds listen as) else ([], Panicked))"
| "perform binds listen (Serve port services # as) =
     (case listen port of
        Inl e \<Rightarrow> ([Serve port services], Served (Inl e))
      | Inr _ \<Rightarrow> apfst ((#) (Serve port services)) (perform binds listen as))"

definition main_run ::
    "(Config \<Rightarrow> 'e + Config) \<Rightarrow>
     (NodeId \<Rightarrow> Config \<Rightarrow> 'c GrpcRouter \<Rightarrow> ('l, 'm, 'v) LogStoreInner \<Rightarrow> ('l, 'm) StateMachineStore \<Rightarrow> 'e + 'e RaftNode) \<Rightarrow>
     'm \<Rightarrow> (notify_ref \<Rightarrow> bool) \<Rightarrow> (nat \<Rightarrow> bool) \<Rightarrow> (nat \<Rightarrow> 'io + unit) \<Rightarrow> usize \<Rightarrow> MainCli \<Rightarrow>
     'e action list \<times> ('e, 'io) outcome" where
  "main_run validate raft_new no_members acked binds listen bs cli =
     (case server_start bs (Cli.truncate cli) of
        Panics \<Rightarrow> ([], Panicked)
      | Returns (s, waits) \<Rightarrow>
          if \<not> (case waits of None \<Rightarrow> True | Some n \<Rightarrow> acked n) then ([], Waiting)
          else if raft_enabled cli then
            case raft_setup (RaftCli.truncate cli) of
              Inl e \<Rightarrow> ([], Failed e)
            | Inr (i, peers) \<Rightarrow>
                (case create_grpc_raft_node validate raft_new no_members i peers s of
                   Inl e \<Rightarrow> ([], Failed (RaftFailed e))
                 | Inr raft \<Rightarrow> perform binds listen (raft_actions cli peers s raft))
          else perform binds listen (single_actions cli s))"

section \<open>The tasks that report\<close>

datatype 'e report = Initialized nat | Init_Failed 'e | Leader_Ready NodeId | No_Leader

definition init_task :: "((NodeId, string) btree \<Rightarrow> 'e + unit) \<Rightarrow> (NodeId \<times> string) list \<Rightarrow> 'e report" where
  "init_task initialize peers =
     (case init_grpc_cluster initialize peers of Inr _ \<Rightarrow> Initialized (length peers) | Inl e \<Rightarrow> Init_Failed e)"

definition leader_task :: "(NodeId option \<times> bool) list \<Rightarrow> 'e report option" where
  "leader_task polls =
     map_option (\<lambda>res. case res of Inr leader \<Rightarrow> Leader_Ready leader | Inl _ \<Rightarrow> No_Leader) (wait_for_leader polls)"

section \<open>Lemmas\<close>

lemma perform_raft:
  "perform binds listen (raft_actions cli peers s raft) =
     (if binds (cli_metrics_port cli) then (raft_actions cli peers s raft, Served (listen (cli_port cli)))
      else (takeWhile (\<lambda>a. \<forall>p. a \<noteq> Bind_Metrics p) (raft_actions cli peers s raft), Panicked))"
  by (cases "listen (cli_port cli)") (auto simp: raft_actions_def)

lemma perform_single:
  "perform binds listen (single_actions cli s) =
     (if binds (cli_metrics_port cli) then (single_actions cli s, Served (listen (cli_port cli))) else ([], Panicked))"
  by (cases "listen (cli_port cli)") (auto simp: single_actions_def)

lemma truncated:
  "cli_wal_dir (Cli.truncate (cli :: MainCli)) = cli_wal_dir cli" "cli_wal_default (Cli.truncate cli) = cli_wal_default cli"
  "raft_enabled (Cli.truncate cli) = raft_enabled cli"
  "raft_node_id (RaftCli.truncate cli) = raft_node_id cli" "raft_peers (RaftCli.truncate cli) = raft_peers cli"
  by (simp_all add: Cli.truncate_def RaftCli.truncate_def)

section \<open>Properties\<close>


definition main_cli :: "bool \<Rightarrow> MainCli" where
  "main_cli raft = \<lparr>cli_wal_dir = [], cli_wal_default = CliBuffered, wal_no_write_prefixes = [], raft_enabled = raft,
     raft_node_id = Some 1, raft_peers = Some (show_peers [(1, ''a:1''), (2, ''b:2'')]),
     cli_port = 2379, cli_metrics_port = 9000, raft_init = True\<rparr>"


end
