(* ===== verification/Metrics.thy ===== *)
theory Metrics
  imports Complex_Main Store_Watch
begin

text \<open>
  The metrics of the server (\<open>src/metrics.rs\<close>), the scrape of the metrics endpoint (\<open>src/main.rs\<close>) and the
  accounting of the bytes that the values hold (\<open>src/store.rs\<close>, \<open>Drop for Value\<close>). Each static is a
  description that is registered when it is first used; a registration that fails panics. The
  Prometheus registry is a parameter.
\<close>

section \<open>The statics\<close>

datatype metric_type = IntCounterVec | CounterVec | IntGauge | IntGaugeVec | HistogramVec "rat list"

record metric =
  metric_name :: string
  metric_help :: string
  metric_labels :: "string list"
  metric_type :: metric_type

definition REQUEST_COUNT :: metric where
  "REQUEST_COUNT = \<lparr>metric_name = ''mem_etcd_requests_total'',
     metric_help = ''Total requests received, labeled by request type'',
     metric_labels = [''type''], metric_type = IntCounterVec\<rparr>"

definition REQUEST_LATENCY :: metric where
  "REQUEST_LATENCY = \<lparr>metric_name = ''mem_etcd_request_latency_seconds'',
     metric_help = ''Request latency distribution'',
     metric_labels = [''type''], metric_type = (HistogramVec [1 / 1000, 1 / 200, 1 / 100, 1 / 20, 1 / 10, 1 / 2, 1, 5, 10])\<rparr>"

definition IN_FLIGHT_REQUESTS :: metric where
  "IN_FLIGHT_REQUESTS = \<lparr>metric_name = ''mem_etcd_in_flight_requests'',
     metric_help = ''Number of in-flight requests'',
     metric_labels = [], metric_type = IntGauge\<rparr>"

definition LOCK_TIME_SECONDS :: metric where
  "LOCK_TIME_SECONDS = \<lparr>metric_name = ''mem_etcd_lock_seconds'',
     metric_help = ''Amount of time waiting for the lock'',
     metric_labels = [''method'', ''structure'', ''rw''], metric_type = CounterVec\<rparr>"

definition LOCK_COUNT :: metric where
  "LOCK_COUNT = \<lparr>metric_name = ''mem_etcd_lock_count'',
     metric_help = ''Number of times the lock was acquired'',
     metric_labels = [''method'', ''structure'', ''rw''], metric_type = IntCounterVec\<rparr>"

definition TREE_MAP_ITEM_COUNT :: metric where
  "TREE_MAP_ITEM_COUNT = \<lparr>metric_name = ''mem_etcd_tree_map_item_count'',
     metric_help = ''Number of keys currently stored in the tree_map. Never goes down, including when an item is deleted or compacted.'',
     metric_labels = [''prefix''], metric_type = IntGaugeVec\<rparr>"

definition TREE_MAP_SIZE_BYTES :: metric where
  "TREE_MAP_SIZE_BYTES = \<lparr>metric_name = ''mem_etcd_tree_map_size_bytes'',
     metric_help = ''Approximate total size (in bytes) for items in the tree_map'',
     metric_labels = [], metric_type = IntGauge\<rparr>"

definition REVISION_COUNT :: metric where
  "REVISION_COUNT = \<lparr>metric_name = ''mem_etcd_revision_count'',
     metric_help = ''Current revision count'',
     metric_labels = [], metric_type = IntGauge\<rparr>"

definition COMPACTED_REVISION_COUNT :: metric where
  "COMPACTED_REVISION_COUNT = \<lparr>metric_name = ''mem_etcd_compacted_revision_count'',
     metric_help = ''Current compacted revision'',
     metric_labels = [], metric_type = IntGauge\<rparr>"

definition WATCHER_COUNT :: metric where
  "WATCHER_COUNT = \<lparr>metric_name = ''mem_etcd_watcher_count'',
     metric_help = ''Current watcher count'',
     metric_labels = [], metric_type = IntGauge\<rparr>"

definition RANGE_RESPONSE_BYTES :: metric where
  "RANGE_RESPONSE_BYTES = \<lparr>metric_name = ''mem_etcd_range_response_bytes'',
     metric_help = ''Total size in bytes of range response KVs'',
     metric_labels = [''prefix''], metric_type = IntCounterVec\<rparr>"

definition RANGE_RESPONSE_COUNT :: metric where
  "RANGE_RESPONSE_COUNT = \<lparr>metric_name = ''mem_etcd_range_response_count'',
     metric_help = ''Total number of range response KVs'',
     metric_labels = [''prefix''], metric_type = IntCounterVec\<rparr>"

definition WATCH_RESPONSE_BYTES :: metric where
  "WATCH_RESPONSE_BYTES = \<lparr>metric_name = ''mem_etcd_watch_response_bytes'',
     metric_help = ''Total size in bytes of watch response KVs'',
     metric_labels = [''prefix''], metric_type = IntCounterVec\<rparr>"

definition WATCH_RESPONSE_COUNT :: metric where
  "WATCH_RESPONSE_COUNT = \<lparr>metric_name = ''mem_etcd_watch_response_count'',
     metric_help = ''Total number of watch response KVs sent'',
     metric_labels = [''prefix''], metric_type = IntCounterVec\<rparr>"

definition WATCH_RESPONSE_PER_WATCHER_COUNT :: metric where
  "WATCH_RESPONSE_PER_WATCHER_COUNT = \<lparr>metric_name = ''mem_etcd_watch_response_per_watcher_count'',
     metric_help = ''Total number of watch response KVs sent per watcher'',
     metric_labels = [''prefix''], metric_type = IntCounterVec\<rparr>"

definition WATCH_RESPONSE_BLOCKING_TIME_SECONDS :: metric where
  "WATCH_RESPONSE_BLOCKING_TIME_SECONDS = \<lparr>metric_name = ''mem_etcd_watch_response_blocking_time_seconds'',
     metric_help = ''Total time spent blocking on watch response KVs'',
     metric_labels = [''prefix''], metric_type = CounterVec\<rparr>"

definition WATCH_RESPONSE_BLOCKING_COUNT :: metric where
  "WATCH_RESPONSE_BLOCKING_COUNT = \<lparr>metric_name = ''mem_etcd_watch_response_blocking_count'',
     metric_help = ''Total number of times watch response KVs were blocked'',
     metric_labels = [''prefix''], metric_type = IntCounterVec\<rparr>"

definition WATCH_RESPONSE_CLOSED_COUNT :: metric where
  "WATCH_RESPONSE_CLOSED_COUNT = \<lparr>metric_name = ''mem_etcd_watch_response_closed_count'',
     metric_help = ''Total number of times we tried to send a watch response to a closed channel'',
     metric_labels = [''prefix''], metric_type = IntCounterVec\<rparr>"

section \<open>Registration\<close>

text \<open>The process-wide registry with the statics that were used so far.\<close>

datatype collector = Metric metric | Runtime_Collector

record 'r metrics_state =
  forced :: "metric set"
  metrics_registry :: 'r

definition force_metric :: "('r \<Rightarrow> collector \<Rightarrow> 'e + 'r) \<Rightarrow> metric \<Rightarrow> 'r metrics_state \<Rightarrow> 'r metrics_state run" where
  "force_metric register m st =
     (if m \<in> forced st then Returns st
      else case register (metrics_registry st) (Metric m) of
             Inl _ \<Rightarrow> Panics
           | Inr r \<Rightarrow> Returns (st\<lparr>forced := insert m (forced st), metrics_registry := r\<rparr>))"

fun force_all :: "('r \<Rightarrow> collector \<Rightarrow> 'e + 'r) \<Rightarrow> metric list \<Rightarrow> 'r metrics_state \<Rightarrow> 'r metrics_state run" where
  "force_all register [] st = Returns st"
| "force_all register (m # ms) st = bind_run (force_metric register m st) (force_all register ms)"

definition init_metrics :: "metric list" where
  "init_metrics =
    [REQUEST_COUNT, REQUEST_LATENCY, IN_FLIGHT_REQUESTS, LOCK_TIME_SECONDS, TREE_MAP_ITEM_COUNT,
     TREE_MAP_SIZE_BYTES, REVISION_COUNT, COMPACTED_REVISION_COUNT, WATCHER_COUNT, RANGE_RESPONSE_BYTES,
     RANGE_RESPONSE_COUNT, WATCH_RESPONSE_BYTES, WATCH_RESPONSE_COUNT, WATCH_RESPONSE_PER_WATCHER_COUNT,
     WATCH_RESPONSE_BLOCKING_TIME_SECONDS, WATCH_RESPONSE_BLOCKING_COUNT, WATCH_RESPONSE_CLOSED_COUNT]"

definition metrics_init :: "('r \<Rightarrow> collector \<Rightarrow> 'e + 'r) \<Rightarrow> bool \<Rightarrow> 'r metrics_state \<Rightarrow> 'r metrics_state run" where
  "metrics_init register runtime_running st =
     bind_run (force_all register init_metrics st)
       (\<lambda>st. if runtime_running
             then (case register (metrics_registry st) Runtime_Collector of
                     Inl _ \<Rightarrow> Panics
                   | Inr r \<Rightarrow> Returns (st\<lparr>metrics_registry := r\<rparr>))
             else Returns st)"

text \<open>
  What the registry documents: names of metrics and labels follow the Prometheus data model, a
  metric needs a help text, its labels differ, the buckets of a histogram ascend; a name can be
  registered once. The collector of the runtime uses names of its own.
\<close>

definition name_start :: "char \<Rightarrow> bool" where
  "name_start c \<longleftrightarrow> c \<in> set ''abcdefghijklmnopqrstuvwxyzABCDEFGHIJKLMNOPQRSTUVWXYZ_:''"

definition name_char :: "char \<Rightarrow> bool" where
  "name_char c \<longleftrightarrow> name_start c \<or> c \<in> set ''0123456789''"

definition valid_metric_name :: "string \<Rightarrow> bool" where
  "valid_metric_name n \<longleftrightarrow> n \<noteq> [] \<and> name_start (hd n) \<and> list_all name_char n"

definition valid_label :: "string \<Rightarrow> bool" where
  "valid_label l \<longleftrightarrow> valid_metric_name l \<and> CHR '':'' \<notin> set l"

definition valid_metric :: "metric \<Rightarrow> bool" where
  "valid_metric m \<longleftrightarrow>
     valid_metric_name (metric_name m) \<and> metric_help m \<noteq> [] \<and> distinct (metric_labels m) \<and>
     list_all valid_label (metric_labels m) \<and>
     (case metric_type m of HistogramVec bs \<Rightarrow> sorted_wrt (<) bs \<and> ''le'' \<notin> set (metric_labels m) | _ \<Rightarrow> True)"

definition registry_laws :: "('r \<Rightarrow> collector \<Rightarrow> 'e + 'r) \<Rightarrow> ('r \<Rightarrow> string set) \<Rightarrow> ('r \<Rightarrow> bool) \<Rightarrow> bool" where
  "registry_laws register names runtime \<longleftrightarrow>
     (\<forall>r m. valid_metric m \<longrightarrow> metric_name m \<notin> names r \<longrightarrow>
        (\<exists>r'. register r (Metric m) = Inr r' \<and> names r' = insert (metric_name m) (names r) \<and> runtime r' = runtime r)) \<and>
     (\<forall>r. \<not> runtime r \<longrightarrow> (\<exists>r'. register r Runtime_Collector = Inr r' \<and> names r' = names r \<and> runtime r'))"

definition all_metrics :: "metric list" where
  "all_metrics = LOCK_COUNT # init_metrics"

lemma all_metrics_ok: "distinct (map metric_name all_metrics)" "list_all valid_metric all_metrics"
  by code_simp+

lemma force_all_registers:
  assumes "registry_laws register names runtime" "distinct (map metric_name ms)" "list_all valid_metric ms"
    "metric_name ` set ms \<inter> names (metrics_registry st) = {}" "forced st \<inter> set ms = {}"
  shows "\<exists>st'. force_all register ms st = Returns st' \<and> forced st' = forced st \<union> set ms \<and>
    names (metrics_registry st') = names (metrics_registry st) \<union> metric_name ` set ms \<and> runtime (metrics_registry st') = runtime (metrics_registry st)"
  using assms(2-5)
proof (induction ms arbitrary: st)
  case (Cons m ms)
  have "\<exists>r'. register (metrics_registry st) (Metric m) = Inr r' \<and> names r' = insert (metric_name m) (names (metrics_registry st)) \<and>
      runtime r' = runtime (metrics_registry st)"
    using assms(1) Cons.prems(2,3) unfolding registry_laws_def by auto
  then obtain r' where r': "register (metrics_registry st) (Metric m) = Inr r'"
    "names r' = insert (metric_name m) (names (metrics_registry st))" "runtime r' = runtime (metrics_registry st)" by blast
  let ?st = "st\<lparr>forced := insert m (forced st), metrics_registry := r'\<rparr>"
  have "m \<notin> set ms" using Cons.prems(1) by auto
  then have "\<exists>st'. force_all register ms ?st = Returns st' \<and> forced st' = forced ?st \<union> set ms \<and>
      names (metrics_registry st') = names (metrics_registry ?st) \<union> metric_name ` set ms \<and> runtime (metrics_registry st') = runtime (metrics_registry ?st)"
    using Cons.prems r'(2) by (intro Cons.IH) auto
  moreover have "force_metric register m st = Returns ?st" using r'(1) Cons.prems(4) by (simp add: force_metric_def)
  ultimately show ?case using r'(2,3) by auto
qed simp

section \<open>The metrics endpoint\<close>

text \<open>
  A scrape sets the three gauges that are read off the store; \<open>encode\<close> gathers and encodes the registry,
  and its failure, or text that is not UTF-8, panics the handler.
\<close>

record gauges =
  revision_count :: i64
  compacted_revision_count :: i64
  watcher_count_gauge :: i64

definition metrics_handler :: "(gauges \<Rightarrow> 'e + string) \<Rightarrow> Store \<Rightarrow> gauges \<Rightarrow> (gauges \<times> string) run" where
  "metrics_handler encode s g =
     (let g' = g\<lparr>revision_count := current_revision s, compacted_revision_count := compacted_revision s,
                 watcher_count_gauge := watcher_count s\<rparr>
      in case encode g' of Inl _ \<Rightarrow> Panics | Inr text \<Rightarrow> Returns (g', text))"

section \<open>The bytes of the values\<close>

text \<open>
  The buffers of the values by number: their lengths, how many \<open>Value\<close> objects and how many other
  handles (the value of a \<open>KeyValue\<close> in a response or in a channel) share each of them, and the gauge.
\<close>

record size_state =
  buffer_count :: nat
  buffer_len :: "nat \<Rightarrow> nat"
  value_owners :: "nat \<Rightarrow> nat"
  other_owners :: "nat \<Rightarrow> nat"
  size_gauge :: i64

definition size_init :: size_state where
  "size_init = \<lparr>buffer_count = 0, buffer_len = (\<lambda>_. 0), value_owners = (\<lambda>_. 0), other_owners = (\<lambda>_. 0), size_gauge = 0\<rparr>"

text \<open>A write stores a value in a buffer of its own and adds its length to the gauge.\<close>

definition value_new :: "nat \<Rightarrow> size_state \<Rightarrow> size_state" where
  "value_new n z =
     z\<lparr>buffer_count := buffer_count z + 1, buffer_len := (buffer_len z)(buffer_count z := n),
       value_owners := (value_owners z)(buffer_count z := 1), other_owners := (other_owners z)(buffer_count z := 0),
       size_gauge := size_gauge z + int n\<rparr>"

definition value_clone :: "nat \<Rightarrow> size_state \<Rightarrow> size_state" where
  "value_clone b z = z\<lparr>value_owners := (value_owners z)(b := value_owners z b + 1)\<rparr>"

text \<open>\<open>Drop for Value\<close>: the length is subtracted if this is the only handle of the buffer.\<close>

definition value_drop :: "nat \<Rightarrow> size_state \<Rightarrow> size_state" where
  "value_drop b z =
     z\<lparr>size_gauge := (if value_owners z b + other_owners z b = 1 then size_gauge z - int (buffer_len z b) else size_gauge z),
       value_owners := (value_owners z)(b := value_owners z b - 1)\<rparr>"

text \<open>\<open>as_mvcc_key_value\<close> clones the buffer into a \<open>KeyValue\<close>, which is dropped without accounting.\<close>

definition kv_clone :: "nat \<Rightarrow> size_state \<Rightarrow> size_state" where
  "kv_clone b z = z\<lparr>other_owners := (other_owners z)(b := other_owners z b + 1)\<rparr>"

definition kv_drop :: "nat \<Rightarrow> size_state \<Rightarrow> size_state" where
  "kv_drop b z = z\<lparr>other_owners := (other_owners z)(b := other_owners z b - 1)\<rparr>"

inductive size_step :: "size_state \<Rightarrow> size_state \<Rightarrow> bool" where
  new: "size_step z (value_new n z)"
| clone: "0 < value_owners z b \<Longrightarrow> size_step z (value_clone b z)"
| drop_value: "0 < value_owners z b \<Longrightarrow> size_step z (value_drop b z)"
| share: "0 < value_owners z b + other_owners z b \<Longrightarrow> size_step z (kv_clone b z)"
| unshare: "0 < other_owners z b \<Longrightarrow> size_step z (kv_drop b z)"

text \<open>The bytes that values hold.\<close>

definition live_bytes :: "size_state \<Rightarrow> nat" where
  "live_bytes z = (\<Sum>b<buffer_count z. if 0 < value_owners z b then buffer_len z b else 0)"

text \<open>Only buffers that were allocated have owners.\<close>

definition size_ok :: "size_state \<Rightarrow> bool" where
  "size_ok z \<longleftrightarrow> (\<forall>b. buffer_count z \<le> b \<longrightarrow> value_owners z b = 0 \<and> other_owners z b = 0)"

lemma live_bytes_new: "live_bytes (value_new n z) = live_bytes z + n"
proof -
  have "(\<Sum>b<buffer_count z. if 0 < value_owners (value_new n z) b then buffer_len (value_new n z) b else 0) = live_bytes z"
    unfolding live_bytes_def by (rule sum.cong) (auto simp: value_new_def)
  then show ?thesis by (simp add: live_bytes_def) (simp add: value_new_def)
qed

lemma live_bytes_drop:
  assumes "size_ok z" "0 < value_owners z b"
  shows "live_bytes z = live_bytes (value_drop b z) + (if value_owners z b = 1 then buffer_len z b else 0)"
proof -
  let ?f = "\<lambda>z b. if 0 < value_owners z b then buffer_len z b else (0::nat)"
  have b: "b \<in> {..<buffer_count z}" using assms unfolding size_ok_def by (metis lessThan_iff not_le neq0_conv)
  have "live_bytes z = ?f z b + (\<Sum>c\<in>{..<buffer_count z} - {b}. ?f z c)"
    unfolding live_bytes_def using b by (intro sum.remove) auto
  moreover have "live_bytes (value_drop b z) = ?f (value_drop b z) b + (\<Sum>c\<in>{..<buffer_count z} - {b}. ?f (value_drop b z) c)"
    unfolding live_bytes_def using b by (subst sum.remove[of _ b]) (auto simp: value_drop_def)
  moreover have "(\<Sum>c\<in>{..<buffer_count z} - {b}. ?f (value_drop b z) c) = (\<Sum>c\<in>{..<buffer_count z} - {b}. ?f z c)"
    by (rule sum.cong) (auto simp: value_drop_def)
  ultimately show ?thesis using assms(2) by (auto simp: value_drop_def)
qed

lemma live_bytes_clone: "0 < value_owners z b \<Longrightarrow> live_bytes (value_clone b z) = live_bytes z"
  unfolding live_bytes_def by (rule sum.cong) (auto simp: value_clone_def)

lemma live_bytes_shared: "live_bytes (kv_clone b z) = live_bytes z" "live_bytes (kv_drop b z) = live_bytes z"
  unfolding live_bytes_def by (auto intro!: sum.cong simp: kv_clone_def kv_drop_def)

lemma size_step_gauge:
  assumes "size_step z z'" "size_ok z"
  shows "size_ok z' \<and> size_gauge z - int (live_bytes z) \<le> size_gauge z' - int (live_bytes z') \<and>
    (size_gauge z - int (live_bytes z) = size_gauge z' - int (live_bytes z') \<or>
     (\<exists>b. value_owners z b = 1 \<and> 0 < other_owners z b \<and> 0 < buffer_len z b \<and> z' = value_drop b z))"
  using assms
proof (induction rule: size_step.induct)
  case (new z n)
  then show ?case using live_bytes_new[of n z] by (auto simp: size_ok_def value_new_def)
next
  case (clone z b)
  moreover have "b < buffer_count z" using clone by (metis size_ok_def not_le neq0_conv)
  ultimately show ?case using live_bytes_clone[OF clone(1)] by (auto simp: size_ok_def value_clone_def)
next
  case (drop_value z b)
  have "size_ok (value_drop b z)" using drop_value by (auto simp: size_ok_def value_drop_def)
  moreover have "size_gauge (value_drop b z) =
      (if value_owners z b + other_owners z b = 1 then size_gauge z - int (buffer_len z b) else size_gauge z)"
    by (simp add: value_drop_def)
  ultimately show ?case
    using live_bytes_drop[OF drop_value(2,1)] drop_value(1) by (auto split: if_splits)
next
  case (share z b)
  then have "b < buffer_count z" by (metis size_ok_def not_le neq0_conv add_0)
  with share show ?case unfolding live_bytes_shared by (auto simp: size_ok_def kv_clone_def)
next
  case (unshare z b)
  then show ?case unfolding live_bytes_shared by (auto simp: size_ok_def kv_drop_def)
qed

text \<open>A step that does not drop the last value of a buffer while something else holds it.\<close>

definition tidy_step :: "size_state \<Rightarrow> size_state \<Rightarrow> bool" where
  "tidy_step z z' \<longleftrightarrow> size_step z z' \<and> (\<nexists>b. value_owners z b = 1 \<and> 0 < other_owners z b \<and> z' = value_drop b z)"

lemma size_run_gauge:
  "size_step\<^sup>*\<^sup>* size_init z \<Longrightarrow> size_ok z \<and> int (live_bytes z) \<le> size_gauge z"
proof (induction rule: rtranclp_induct)
  case base
  then show ?case by (simp add: size_init_def size_ok_def live_bytes_def)
next
  case (step z z')
  with size_step_gauge[OF step(2)] show ?case by linarith
qed

lemma tidy_run_gauge:
  "tidy_step\<^sup>*\<^sup>* size_init z \<Longrightarrow> size_ok z \<and> size_gauge z = int (live_bytes z)"
proof (induction rule: rtranclp_induct)
  case base
  then show ?case by (simp add: size_init_def size_ok_def live_bytes_def)
next
  case (step z z')
  then have "size_step z z'" "\<nexists>b. value_owners z b = 1 \<and> 0 < other_owners z b \<and> z' = value_drop b z"
    by (auto simp: tidy_step_def)
  with size_step_gauge[of z z'] step(3) show ?case by auto
qed

definition drift :: "nat \<Rightarrow> size_state \<Rightarrow> size_state" where
  "drift n z = (let b = buffer_count z in kv_drop b (value_drop b (kv_clone b (value_new n z))))"

lemma drift_steps: "size_step\<^sup>*\<^sup>* z (drift n z)"
proof -
  let ?b = "buffer_count z" and ?z1 = "value_new n z"
  have "size_step z ?z1" by (rule size_step.new)
  moreover have "size_step ?z1 (kv_clone ?b ?z1)" by (rule size_step.share) (simp add: value_new_def)
  moreover have "size_step (kv_clone ?b ?z1) (value_drop ?b (kv_clone ?b ?z1))"
    by (rule size_step.drop_value) (simp add: value_new_def kv_clone_def)
  moreover have "size_step (value_drop ?b (kv_clone ?b ?z1)) (drift n z)"
    unfolding drift_def Let_def by (rule size_step.unshare) (simp add: value_new_def kv_clone_def value_drop_def)
  ultimately show ?thesis by (iprover intro: converse_rtranclp_into_rtranclp rtranclp.rtrancl_refl)
qed

lemma drift_gauge:
  "size_gauge (drift n z) = size_gauge z + int n"
  "value_owners (drift n z) (buffer_count z) = 0" "other_owners (drift n z) (buffer_count z) = 0"
  by (simp_all add: drift_def value_new_def kv_clone_def value_drop_def kv_drop_def Let_def)

lemma live_bytes_drift: "live_bytes (drift n z) = live_bytes z"
proof -
  have "(\<Sum>b<buffer_count z. if 0 < value_owners (drift n z) b then buffer_len (drift n z) b else 0) = live_bytes z"
    unfolding live_bytes_def
    by (rule sum.cong) (auto simp: drift_def value_new_def kv_clone_def value_drop_def kv_drop_def Let_def)
  moreover have "buffer_count (drift n z) = buffer_count z + 1"
    by (simp add: drift_def value_new_def kv_clone_def value_drop_def kv_drop_def Let_def)
  ultimately show ?thesis using drift_gauge(2)[of n z] by (simp add: live_bytes_def)
qed

section \<open>Properties\<close>

text \<open>
  Registration does not panic. On an empty registry that follows its documentation,
  \<open>Metrics::init\<close> returns, with and without a runtime, and has registered the statics it names, which
  are all but \<open>LOCK_COUNT\<close>; the first use of that one registers it without a panic. A second \<open>init\<close>
  without a runtime changes nothing.
\<close>

lemma metrics_registered:
  assumes "registry_laws register names runtime" "names r = {}" "\<not> runtime r"
  shows "\<exists>st st'. metrics_init register running \<lparr>forced = {}, metrics_registry = r\<rparr> = Returns st \<and>
    names (metrics_registry st) = metric_name ` set all_metrics - {metric_name LOCK_COUNT} \<and>
    force_metric register LOCK_COUNT st = Returns st' \<and> names (metrics_registry st') = metric_name ` set all_metrics \<and>
    metrics_init register False st = Returns st"
proof -
  let ?st0 = "\<lparr>forced = {}, metrics_registry = r\<rparr>"
  have ok: "distinct (map metric_name init_metrics)" "list_all valid_metric init_metrics"
    "metric_name LOCK_COUNT \<notin> metric_name ` set init_metrics" "valid_metric LOCK_COUNT"
    using all_metrics_ok by (auto simp: all_metrics_def)
  have "metric_name ` set init_metrics \<inter> names (metrics_registry ?st0) = {}" "forced ?st0 \<inter> set init_metrics = {}"
    using assms(2) by simp_all
  from force_all_registers[OF assms(1) ok(1,2) this] assms(2,3) obtain st1 where
    st1: "force_all register init_metrics ?st0 = Returns st1" "forced st1 = set init_metrics"
      "names (metrics_registry st1) = metric_name ` set init_metrics" "\<not> runtime (metrics_registry st1)" by auto
  then obtain st where st: "metrics_init register running ?st0 = Returns st" "forced st = set init_metrics"
    "names (metrics_registry st) = metric_name ` set init_metrics"
    using assms(1) by (cases running) (fastforce simp: metrics_init_def registry_laws_def)+
  have "LOCK_COUNT \<notin> forced st" using ok(3) st(2) by auto
  moreover obtain r' where "register (metrics_registry st) (Metric LOCK_COUNT) = Inr r'"
    "names r' = insert (metric_name LOCK_COUNT) (metric_name ` set init_metrics)"
    using assms(1) ok(3,4) st(3) unfolding registry_laws_def by metis
  ultimately have "force_metric register LOCK_COUNT st = Returns (st\<lparr>forced := insert LOCK_COUNT (forced st), metrics_registry := r'\<rparr>)"
    "names r' = metric_name ` set all_metrics"
    by (simp_all add: force_metric_def all_metrics_def)
  moreover have "force_all register ms st = Returns st" if "set ms \<subseteq> forced st" for ms
    using that by (induction ms) (simp_all add: force_metric_def)
  ultimately show ?thesis using st ok(3) by (auto simp: metrics_init_def all_metrics_def)
qed

text \<open>A registry of names, as a set with a flag for the collector.\<close>

definition name_registry :: "string set \<times> bool \<Rightarrow> collector \<Rightarrow> unit + string set \<times> bool" where
  "name_registry r c =
     (case c of
        Metric m \<Rightarrow> if metric_name m \<in> fst r then Inl () else Inr (insert (metric_name m) (fst r), snd r)
      | Runtime_Collector \<Rightarrow> if snd r then Inl () else Inr (fst r, True))"

lemma metrics_registered_witness:
  "\<exists>st st'. metrics_init name_registry True \<lparr>forced = {}, metrics_registry = ({}, False)\<rparr> = Returns st \<and>
    fst (metrics_registry st) = metric_name ` set all_metrics - {metric_name LOCK_COUNT} \<and>
    force_metric name_registry LOCK_COUNT st = Returns st' \<and> fst (metrics_registry st') = metric_name ` set all_metrics \<and>
    metrics_init name_registry False st = Returns st"
  by (rule metrics_registered[where runtime = snd]) (simp_all add: registry_laws_def name_registry_def)



text \<open>A scrape reports the revisions and the watchers of the store, whatever the gauges were.\<close>

lemma metrics_handler_reports:
  assumes "store_repr s h" "encode \<lparr>revision_count = int (length h), compacted_revision_count = compacted_revision s,
      watcher_count_gauge = int (length (watchers s))\<rparr> = Inr text"
  shows "metrics_handler encode s g = Returns (\<lparr>revision_count = int (length h),
      compacted_revision_count = compacted_revision s, watcher_count_gauge = int (length (watchers s))\<rparr>, text)"
  using assms store_reprD(6)[OF assms(1)] by (cases g) (simp add: metrics_handler_def watcher_count_def)

end
