(* ===== verification/Stress_Client.thy ===== *)
theory Stress_Client
  imports "HOL-Library.Multiset" Store_Runs Kv_Service Peer_List
begin

text \<open>
  The load generator (\<open>stress-client/src/main.rs\<close>) against a single node. The puts of a round run
  concurrently, so their order is an argument. Arithmetic on \<open>usize\<close> panics or wraps, depending on the
  build, which is an argument as well. A call whose handler fails or panics is an error for the client.
\<close>

section \<open>Arithmetic\<close>

definition usize_sub :: "bool \<Rightarrow> usize \<Rightarrow> usize \<Rightarrow> usize run" where
  "usize_sub checks a b = (if b \<le> a then Returns (a - b) else if checks then Panics else Returns (a + 2 ^ 64 - b))"

definition usize_mul :: "bool \<Rightarrow> usize \<Rightarrow> usize \<Rightarrow> usize run" where
  "usize_mul checks a b =
     (if a * b < 2 ^ 64 then Returns (a * b) else if checks then Panics else Returns (a * b mod 2 ^ 64))"

section \<open>Requests\<close>

record Args =
  arg_keys :: usize
  arg_iterations :: usize
  arg_threads :: usize
  arg_prompt :: bool

definition node_key :: "nat \<Rightarrow> byte_array" where
  "node_key i = bytes (''/registry/minions/node-'' @ decimal i)"

definition minions_end :: byte_array where
  "minions_end = bytes ''/registry/minions/z''"

definition stress_value :: byte_array where
  "stress_value = bytes ''hello'' @ replicate (4096 - 5) 0"

definition put_request :: "nat \<Rightarrow> PutRequest" where
  "put_request i = \<lparr>put_key = node_key i, put_value = stress_value, put_prev_kv = False, ignore_value = False\<rparr>"

definition range_request :: "bool \<Rightarrow> Args \<Rightarrow> nat \<Rightarrow> RangeRequest run" where
  "range_request checks args i =
     bind_run (usize_sub checks (arg_iterations args) 2)
       (\<lambda>d. bind_run (usize_mul checks d (arg_keys args))
          (\<lambda>r. Returns \<lparr>range_key = node_key i, range_end = minions_end, range_limit = 500,
                 range_revision = as_i64 r, count_only = False\<rparr>))"

section \<open>The client\<close>

text \<open>\<open>clients[i % clients.len()]\<close>: without clients the remainder panics.\<close>

definition pick_client :: "Args \<Rightarrow> nat \<Rightarrow> usize run" where
  "pick_client args i = (if arg_threads args = 0 then Panics else Returns (i mod arg_threads args))"

text \<open>A call over the network: the client sees the response, or an error.\<close>

definition call_rpc :: "('e KvService \<Rightarrow> 'q \<Rightarrow> ('e, 'a) rpc) \<Rightarrow> 'e KvService \<Rightarrow> 'q \<Rightarrow> 'e KvService \<times> 'a option" where
  "call_rpc handler sv req =
     (case handler sv req of
        Returns (sv', Inr x) \<Rightarrow> (sv', Some x)
      | Returns (sv', Inl _) \<Rightarrow> (sv', None)
      | Panics \<Rightarrow> (sv, None))"

fun put_keys :: "Args \<Rightarrow> nat list \<Rightarrow> 'e KvService \<Rightarrow> 'e KvService run" where
  "put_keys args [] sv = Returns sv"
| "put_keys args (i # is) sv =
     bind_run (pick_client args i) (\<lambda>_. put_keys args is (fst (call_rpc kv_put sv (put_request i))))"

fun put_rounds :: "bool \<Rightarrow> Args \<Rightarrow> nat \<Rightarrow> nat list list \<Rightarrow> 'e KvService \<Rightarrow> 'e KvService run" where
  "put_rounds checks args n [] sv = Returns sv"
| "put_rounds checks args n (is # orders) sv =
     bind_run (put_keys args is sv)
       (\<lambda>sv. bind_run (usize_mul checks (n + 1) (arg_keys args)) (\<lambda>_. put_rounds checks args (n + 1) orders sv))"

fun range_keys :: "bool \<Rightarrow> Args \<Rightarrow> nat list \<Rightarrow> 'e KvService \<Rightarrow> ('e KvService \<times> bool) run" where
  "range_keys checks args [] sv = Returns (sv, True)"
| "range_keys checks args (i # is) sv =
     bind_run (range_request checks args i)
       (\<lambda>req. bind_run (pick_client args i)
          (\<lambda>_. case call_rpc kv_range sv req of
                 (sv', Some _) \<Rightarrow> range_keys checks args is sv'
               | (sv', None) \<Rightarrow> Returns (sv', False)))"

definition range_starts :: "Args \<Rightarrow> nat list" where
  "range_starts args = map (\<lambda>j. 500 * j) [0..<(arg_keys args + 499) div 500]"

text \<open>
  The whole run: the flag tells whether \<open>main\<close> returns \<open>Ok\<close>. The average at the end divides by the
  number of requests, as a \<open>u32\<close>.
\<close>

definition stress_main :: "bool \<Rightarrow> Args \<Rightarrow> nat list list \<Rightarrow> 'e KvService \<Rightarrow> ('e KvService \<times> bool) run" where
  "stress_main checks args orders sv =
     bind_run (put_rounds checks args 0 orders sv)
       (\<lambda>sv. bind_run (usize_mul checks (arg_keys args) (arg_iterations args))
          (\<lambda>_. bind_run (range_keys checks args (range_starts args) sv)
             (\<lambda>(sv, ok).
                if ok \<and> (arg_keys args div 500) mod 2 ^ 32 = 0 then Panics else Returns (sv, ok))))"

section \<open>Lemmas\<close>

abbreviation minions :: byte_array where
  "minions \<equiv> bytes ''/registry/minions/''"

lemma minions_complete: "complete_prefix minions"
  by code_simp

lemma bytes_append: "bytes (a @ b) = bytes a @ bytes b"
  by (simp add: bytes_def)

lemma node_key_split: "node_key i = minions @ bytes (''node-'' @ decimal i)"
  using bytes_append[of "''/registry/minions/''" "''node-'' @ decimal i"] by (simp add: node_key_def)

lemma minions_end_split: "minions_end = minions @ bytes ''z''"
  using bytes_append[of "''/registry/minions/''" "''z''"] by (simp add: minions_end_def)

lemma node_range:
  "prefix_and_range_of_key (node_key i) minions_end =
     Inr (minions, Included (bytes (''node-'' @ decimal i)), Excluded (bytes ''z''))"
proof -
  have z: "bytes ''z'' = [122]" by code_simp
  have "minions_end \<noteq> []" "length minions_end \<noteq> 1" by code_simp+
  moreover have "prefix_split (node_key i) = (minions, bytes (''node-'' @ decimal i))"
    "prefix_split minions_end = (minions, bytes ''z'')"
    unfolding node_key_split minions_end_split by (rule prefix_split_complete[OF minions_complete])+
  ultimately show ?thesis by (simp add: prefix_and_range_of_key_def z)
qed

lemma node_range_proper: "\<not> inverted (Included (bytes (''node-'' @ decimal i))) (Excluded (bytes ''z''))"
  by (simp add: bytes_def)

text \<open>The writes of a round, newest first.\<close>

definition round_writes :: "nat list \<Rightarrow> history" where
  "round_writes is = rev (map (\<lambda>i. (node_key i, Some stress_value)) is)"

lemma length_round_writes [simp]: "length (round_writes is) = length is"
  by (simp add: round_writes_def)

definition serves :: "'e KvService \<Rightarrow> history \<Rightarrow> bool" where
  "serves sv h \<longleftrightarrow> store_repr (kv_store sv) h \<and> kv_raft sv = None \<and> compacted_revision (kv_store sv) = 0"

lemma serves_put:
  assumes "serves sv h"
  obtains sv' x where "call_rpc kv_put sv (put_request i) = (sv', Some x)" "serves sv' ((node_key i, Some stress_value) # h)"
proof -
  have sv: "store_repr (kv_store sv) h" "kv_raft sv = None" "compacted_revision (kv_store sv) = 0"
    using assms by (simp_all add: serves_def)
  have "admits (hist_live h (node_key i)) (Some stress_value) None" by (simp add: admits_unconditional)
  from store_set_admitted[OF sv(1) this] obtain s' w where
    s': "store_set (kv_store sv) (node_key i) (Some stress_value) None = Returns (s', Inr (int (length h) + 1), w)"
      "store_repr s' ((node_key i, Some stress_value) # h)" by blast
  let ?sv = "sv\<lparr>kv_store := s'\<rparr>"
  have "kv_put sv (put_request i) = Returns (?sv, Inr \<lparr>put_header = header (int (length h) + 1), put_prev = None\<rparr>)"
    using s'(1) sv(2) by (simp add: kv_put_def put_request_def put_revision_def)
  moreover have "serves ?sv ((node_key i, Some stress_value) # h)"
    using s'(2) sv store_set_compacted[OF s'(1) sv(1)] by (simp add: serves_def)
  ultimately show thesis using that by (auto simp: call_rpc_def)
qed

lemma put_keys_serves:
  assumes "0 < arg_threads args"
  shows "serves sv h \<Longrightarrow> \<exists>sv'. put_keys args is sv = Returns sv' \<and> serves sv' (round_writes is @ h)"
proof (induction "is" arbitrary: sv h)
  case Nil
  then show ?case by (simp add: round_writes_def)
next
  case (Cons i "is")
  from serves_put[OF Cons.prems, of i] obtain sv' x where
    sv': "call_rpc kv_put sv (put_request i) = (sv', Some x)" "serves sv' ((node_key i, Some stress_value) # h)" .
  from Cons.IH[OF sv'(2)] sv'(1) assms show ?case by (simp add: pick_client_def round_writes_def)
qed

text \<open>All rounds: the writes of the later rounds are the newer ones.\<close>

definition rounds_writes :: "nat list list \<Rightarrow> history" where
  "rounds_writes orders = concat (map round_writes (rev orders))"

lemma length_rounds_writes: "\<forall>is\<in>set orders. length is = n \<Longrightarrow> length (rounds_writes orders) = length orders * n"
  by (induction orders) (auto simp: rounds_writes_def)

lemma put_rounds_serves:
  assumes "0 < arg_threads args"
  shows "serves sv h \<Longrightarrow> (n + length orders) * arg_keys args < 2 ^ 64 \<Longrightarrow>
    \<exists>sv'. put_rounds checks args n orders sv = Returns sv' \<and> serves sv' (rounds_writes orders @ h)"
proof (induction orders arbitrary: n sv h)
  case Nil
  then show ?case by (simp add: rounds_writes_def)
next
  case (Cons "is" orders)
  from put_keys_serves[OF assms Cons.prems(1), of "is"] obtain sv1 where
    sv1: "put_keys args is sv = Returns sv1" "serves sv1 (round_writes is @ h)" by blast
  have "(n + 1) * arg_keys args \<le> (n + length (is # orders)) * arg_keys args" by (intro mult_le_mono1) simp
  then have "(n + 1) * arg_keys args < 2 ^ 64" using Cons.prems(2) by linarith
  then have "usize_mul checks (n + 1) (arg_keys args) = Returns ((n + 1) * arg_keys args)" by (simp add: usize_mul_def)
  with Cons.IH[OF sv1(2), of "n + 1"] Cons.prems(2) sv1(1) show ?case by (simp add: rounds_writes_def)
qed

text \<open>A range of the client at a revision that exists is answered.\<close>

lemma serves_range:
  assumes "serves sv h" "h \<noteq> []" "0 \<le> range_revision req" "range_revision req \<le> int (length h)"
    and "range_key req = node_key i" "range_end req = minions_end" "range_limit req = 500" "\<not> count_only req"
  shows "\<exists>x. call_rpc kv_range sv req = (sv, Some x)"
proof -
  have sv: "store_repr (kv_store sv) h" "compacted_revision (kv_store sv) = 0" using assms(1) by (simp_all add: serves_def)
  have "range_revision req = 0 \<or> compacted_revision (kv_store sv) < range_revision req" using sv(2) assms(3) by auto
  from store_range_answers[OF sv(1) node_range node_range_proper assms(3,4) this assms(2), where lim = "Some 500"]
  obtain res where "store_range (kv_store sv) (node_key i) minions_end (range_revision req) (Some 500) = Returns (Inr res)" by blast
  then have "\<exists>x. kv_range sv req = Returns (sv, Inr x)"
    using assms(5-8) by (simp add: kv_range_def rpc_range_def as_usize_def Let_def)
  then show ?thesis by (auto simp: call_rpc_def)
qed

lemma range_keys_answered:
  assumes "0 < arg_threads args" "serves sv h" "h \<noteq> []" "2 \<le> arg_iterations args"
    and "(arg_iterations args - 2) * arg_keys args \<le> length h" "(arg_iterations args - 2) * arg_keys args < 2 ^ 63"
  shows "range_keys checks args is sv = Returns (sv, True)"
proof (induction "is")
  case (Cons i "is")
  let ?r = "(arg_iterations args - 2) * arg_keys args"
  let ?req = "\<lparr>range_key = node_key i, range_end = minions_end, range_limit = 500, range_revision = int ?r, count_only = False\<rparr>"
  have "range_request checks args i = Returns ?req"
    using assms(4,6) as_i64_small[OF assms(6)] by (simp add: range_request_def usize_sub_def usize_mul_def)
  moreover have "\<exists>x. call_rpc kv_range sv ?req = (sv, Some x)"
    using assms(5) by (intro serves_range[OF assms(2,3)]) (simp_all only: RangeRequest.select_convs of_nat_0_le_iff of_nat_le_iff simp_thms)
  ultimately show ?case using Cons assms(1) by (auto simp: pick_client_def)
qed simp

lemma hist_live_puts:
  "\<forall>w\<in>set ws. snd w = Some b \<Longrightarrow> k \<in> fst ` set ws \<Longrightarrow> \<exists>v. hist_live (ws @ h) k = Some v \<and> val v = Some b"
proof (induction ws)
  case (Cons w ws)
  then show ?case by (cases w; cases "fst w = k") (auto simp: hist_live_def)
qed simp

lemma rounds_writes_live:
  assumes "is \<in> set orders" "i \<in> set is"
  shows "\<exists>v. hist_live (rounds_writes orders @ h) (node_key i) = Some v \<and> val v = Some stress_value"
proof (rule hist_live_puts)
  show "\<forall>w\<in>set (rounds_writes orders). snd w = Some stress_value"
    by (auto simp: rounds_writes_def round_writes_def)
  show "node_key i \<in> fst ` set (rounds_writes orders)"
    using assms by (force simp: rounds_writes_def round_writes_def)
qed

text \<open>Revisions below zero: what the wrapped product means as an \<open>i64\<close>.\<close>

lemma wrapped_revision:
  assumes "0 < k" "k < 2 ^ 63"
  shows "as_i64 ((2 ^ 64 - 1) * k mod 2 ^ 64) = - int k"
proof -
  have "int ((2 ^ 64 - 1) * k mod 2 ^ 64) = ((2 ^ 64 - 1) * int k) mod 2 ^ 64"
    by (simp add: zmod_int of_nat_diff)
  also have "\<dots> = (- int k) mod 2 ^ 64"
  proof -
    have "(2 ^ 64 - 1) * int k = - int k + int k * 2 ^ 64" by (simp add: algebra_simps)
    then show ?thesis by (metis mod_mult_self1)
  qed
  finally have "as_i64 ((2 ^ 64 - 1) * k mod 2 ^ 64) = ((- int k) mod 2 ^ 64 + 2 ^ 63) mod 2 ^ 64 - 2 ^ 63"
    by (simp only: as_i64_def)
  also have "\<dots> = (2 ^ 63 - int k) mod 2 ^ 64 - 2 ^ 63" by (simp add: mod_add_left_eq)
  also have "\<dots> = - int k" using assms by (subst mod_pos_pos_trivial) auto
  finally show ?thesis .
qed

lemma serves_range_negative:
  assumes "serves sv h" "hist_live h (node_key i) \<noteq> None" "range_revision req < 0"
    and "range_key req = node_key i" "range_end req = minions_end" "range_limit req = 500" "\<not> count_only req"
  shows "kv_range sv req = Panics"
proof -
  let ?s = "kv_store sv" and ?lo = "Included (bytes (''node-'' @ decimal i))" and ?hi = "Excluded (bytes ''z'')"
  have s: "store_repr ?s h" using assms(1) by (simp add: serves_def)
  have "hist_latest h (node_key i) \<noteq> None" using assms(2) hist_live_SomeD by fastforce
  then obtain r where r: "tree_map ?s (node_key i) = Some r"
    using s by (cases "tree_map ?s (node_key i)") (auto simp: store_repr_def)
  have split: "prefix_split (node_key i) = (minions, bytes (''node-'' @ decimal i))"
    unfolding node_key_split by (rule prefix_split_complete[OF minions_complete])
  from r split index_wf_lookup[OF store_reprD(1)[OF s], of "node_key i" r] obtain m where
    m: "prefix_map ?s minions = Some m" "btree_get m (bytes (''node-'' @ decimal i)) = Some r" by auto
  have bm: "btree_wf m" using index_wf_prefix_btree[OF store_reprD(1)[OF s] m(1)] .
  have "(bytes (''node-'' @ decimal i), r) \<in> set m" using bt.mem_entries_iff[OF bm] m(2) by blast
  moreover have "above ?lo (bytes (''node-'' @ decimal i))" "below ?hi (bytes (''node-'' @ decimal i))"
    by (simp_all add: bytes_def)
  ultimately have "filter (\<lambda>(k, _). above ?lo k \<and> below ?hi k) m \<noteq> []" by (auto simp: filter_empty_conv)
  moreover have "range_revision req \<le> current_revision ?s" using store_reprD(6)[OF s] assms(3) by simp
  ultimately have "store_range ?s (node_key i) minions_end (range_revision req) (Some 500) = Panics"
    using store_range_scan[OF _ _ node_range m(1), of "range_revision req" i "Some 500"] assms(3) range_loop_assert
    by simp
  then show ?thesis using assms(4-7) by (simp add: kv_range_def rpc_range_def as_usize_def Let_def)
qed

section \<open>Properties\<close>

text \<open>
  The load generator stays within the revisions of the server. With at least two rounds that fit
  into an \<open>i64\<close>, in every order of the puts of each round, no arithmetic wraps, every put and every range is
  answered, the revision that the ranges ask for exists, and all keys have been written. Only the average at
  the end divides by zero when there are fewer than 500 keys.
\<close>

lemma stress_client_bounds:
  assumes "serves sv h" "0 < arg_threads args" "2 \<le> arg_iterations args" "0 < arg_keys args"
    and "arg_keys args * arg_iterations args < 2 ^ 63"
    and "length orders = arg_iterations args" "\<forall>is\<in>set orders. mset is = mset [0..<arg_keys args]"
  shows "\<exists>sv' h'. serves sv' h' \<and> length h' = length h + arg_keys args * arg_iterations args \<and>
    (arg_iterations args - 2) * arg_keys args \<le> length h' \<and>
    (\<forall>i<arg_keys args. \<exists>v. hist_live h' (node_key i) = Some v \<and> val v = Some stress_value) \<and>
    stress_main checks args orders sv =
      (if (arg_keys args div 500) mod 2 ^ 32 = 0 then Panics else Returns (sv', True))"
proof -
  let ?k = "arg_keys args" and ?n = "arg_iterations args" and ?h = "rounds_writes orders @ h"
  have perm: "length is = ?k \<and> set is = {0..<?k}" if "is \<in> set orders" for "is"
    using assms(7) that mset_eq_length[of "is" "[0..<?k]"] mset_eq_setD[of "is" "[0..<?k]"] by auto
  then have len: "length ?h = length h + ?k * ?n"
    using length_rounds_writes[of orders ?k] assms(6) by simp
  have le: "(?n - 2) * ?k \<le> ?k * ?n" by (simp add: mult.commute diff_mult_distrib)
  have "(0 + length orders) * ?k < 2 ^ 64" using assms(5,6) by (simp add: mult.commute)
  from put_rounds_serves[OF assms(2,1) this, of checks] obtain sv' where
    sv': "put_rounds checks args 0 orders sv = Returns sv'" "serves sv' ?h" by blast
  have "orders \<noteq> []" using assms(3,6) by auto
  then have live: "\<forall>i<?k. \<exists>v. hist_live ?h (node_key i) = Some v \<and> val v = Some stress_value"
    using perm rounds_writes_live[of "hd orders" orders _ h] by simp
  have "0 < ?k * ?n" using assms(3,4) by simp
  then have "?h \<noteq> []" using len by (metis add_gr_0 length_greater_0_conv)
  then have "range_keys checks args (range_starts args) sv' = Returns (sv', True)"
    by (rule range_keys_answered[OF assms(2) sv'(2) _ assms(3)]) (use len le assms(5) in linarith)+
  moreover have "usize_mul checks ?k ?n = Returns (?k * ?n)" using assms(5) by (simp add: usize_mul_def)
  ultimately have "stress_main checks args orders sv = (if (?k div 500) mod 2 ^ 32 = 0 then Panics else Returns (sv', True))"
    using sv'(1) by (simp add: stress_main_def)
  moreover have "(?n - 2) * ?k \<le> length ?h" using len le by linarith
  ultimately show ?thesis using sv'(2) live len by blast
qed

definition small_load :: Args where
  "small_load = \<lparr>arg_keys = 2, arg_iterations = 3, arg_threads = 4, arg_prompt = False\<rparr>"

lemma example_serves: "serves (kv_new example_store) example_history"
  using example_repr example_facts by (simp add: serves_def kv_new_def)

lemma stress_client_bounds_witness:
  "stress_main True small_load [[0, 1], [1, 0], [0, 1]] (kv_new example_store :: unit KvService) = Panics"
proof -
  have "[0..<2] = [0, 1 :: nat]" by (simp add: upt_rec)
  then have "\<forall>is\<in>set [[0, 1], [1, 0], [0, 1 :: nat]]. mset is = mset [0..<2]" by (simp add: add_mset_commute)
  with stress_client_bounds[OF example_serves, of small_load "[[0, 1], [1, 0], [0, 1]]" True] show ?thesis
    by (auto simp: small_load_def)
qed

text \<open>
  With one round the revision is computed below zero. A build with overflow checks panics; a
  build without them asks for minus the number of keys, and the handler of the server panics on that
  request, which the client reports as an error.
\<close>

lemma stress_client_one_round:
  assumes "serves sv h" "0 < arg_threads args" "arg_iterations args = 1" "0 < arg_keys args" "arg_keys args < 2 ^ 63"
    and "mset is = mset [0..<arg_keys args]"
  shows "stress_main True args [is] sv = Panics \<and>
    (\<exists>sv' req. range_request False args 0 = Returns req \<and> range_revision req = - int (arg_keys args) \<and>
       kv_range sv' req = Panics \<and> stress_main False args [is] sv = Returns (sv', False))"
proof -
  let ?k = "arg_keys args" and ?h = "rounds_writes [is] @ h"
  let ?r = "(2 ^ 64 - 1) * ?k mod 2 ^ 64"
  let ?req = "\<lparr>range_key = node_key 0, range_end = minions_end, range_limit = 500, range_revision = as_i64 ?r, count_only = False\<rparr>"
  have rounds: "\<exists>sv'. put_rounds checks args 0 [is] sv = Returns sv' \<and> serves sv' ?h" for checks
    using put_rounds_serves[OF assms(2,1), of 0 "[is]" checks] assms(5) by simp
  have mul: "usize_mul checks ?k 1 = Returns ?k" for checks using assms(5) by (simp add: usize_mul_def)
  have starts: "\<exists>es. range_starts args = 0 # es"
  proof -
    have "0 < (?k + 499) div 500" using assms(4) by (simp add: div_greater_zero_iff)
    then show ?thesis unfolding range_starts_def by (subst upt_conv_Cons) auto
  qed
  have "0 \<in> set is" using mset_eq_setD[OF assms(6)] assms(4) by auto
  then have live: "hist_live ?h (node_key 0) \<noteq> None" using rounds_writes_live[of "is" "[is]" 0 h] by auto
  have rev: "as_i64 ?r = - int ?k" using wrapped_revision[OF assms(4,5)] .
  have "usize_mul False (2 ^ 64 - 1) ?k = Returns ?r" by (simp add: usize_mul_def)
  then have req: "range_request False args 0 = Returns ?req" "range_request True args 0 = Panics"
    using assms(3) by (simp_all add: range_request_def usize_sub_def)
  from rounds[of False] obtain sv' where sv': "put_rounds False args 0 [is] sv = Returns sv'" "serves sv' ?h" by blast
  have panic: "kv_range sv' ?req = Panics"
    using rev assms(4) by (intro serves_range_negative[OF sv'(2) live]) simp_all
  then have "call_rpc kv_range sv' ?req = (sv', None)" by (simp add: call_rpc_def)
  with sv'(1) req(1) starts mul assms(2,3) have "stress_main False args [is] sv = Returns (sv', False)"
    by (auto simp: stress_main_def pick_client_def)
  moreover have "stress_main True args [is] sv = Panics"
    using rounds[of True] req(2) starts mul assms(3) by (auto simp: stress_main_def)
  ultimately show ?thesis using req(1) panic rev by auto
qed

lemma stress_client_one_round_witness:
  "stress_main True (small_load\<lparr>arg_iterations := 1\<rparr>) [[1, 0]] (kv_new example_store :: unit KvService) = Panics \<and>
   (\<exists>sv' req. range_request False (small_load\<lparr>arg_iterations := 1\<rparr>) 0 = Returns req \<and> range_revision req = -2 \<and>
      kv_range sv' req = Panics \<and>
      stress_main False (small_load\<lparr>arg_iterations := 1\<rparr>) [[1, 0]] (kv_new example_store :: unit KvService) = Returns (sv', False))"
proof -
  have "mset [1, 0] = mset [0..<arg_keys (small_load\<lparr>arg_iterations := 1\<rparr>)]" by (simp add: small_load_def upt_rec add_mset_commute)
  from stress_client_one_round[OF example_serves _ _ _ _ this] show ?thesis by (simp add: small_load_def)
qed

end
