(* ===== verification/Tonic_Mock.thy ===== *)
theory Tonic_Mock
  imports Key_Prefix Wal_Record
begin

text \<open>
  \<open>extern/tonic-mock\<close>: the support of the tests for streaming calls. A list of messages becomes the body
  of a request, one frame per message; a stream of responses is handed to a function or collected into
  a vector. The encoding and decoding of messages (\<open>prost\<close>) and the reading of a body
  (\<open>Streaming\<close> of \<open>tonic\<close>) are parameters; what is used of the latter is the hypothesis \<open>reads_frames\<close>.
\<close>

section \<open>The body of a request\<close>

record MockBody =
  data :: "byte_array list"

text \<open>
  Five bytes are reserved, the message is encoded behind them, then they are overwritten with the flag
  and the length. An encoder that reports an error makes the call panic.
\<close>

definition mock_encode :: "('m \<Rightarrow> 'e + byte_array) \<Rightarrow> 'm \<Rightarrow> byte_array run" where
  "mock_encode enc msg =
     (case enc msg of
        Inl _ \<Rightarrow> Panics
      | Inr payload \<Rightarrow> (let len = 5 + length payload - 5 in Returns (0 # rev (to_le_bytes 4 (len mod 2 ^ 32)) @ payload)))"

fun mock_push :: "('m \<Rightarrow> 'e + byte_array) \<Rightarrow> 'm list \<Rightarrow> byte_array list \<Rightarrow> byte_array list run" where
  "mock_push enc [] queue = Returns queue"
| "mock_push enc (msg # msgs) queue = bind_run (mock_encode enc msg) (\<lambda>buf. mock_push enc msgs (queue @ [buf]))"

definition mock_body_new :: "('m \<Rightarrow> 'e + byte_array) \<Rightarrow> 'm list \<Rightarrow> MockBody run" where
  "mock_body_new enc msgs = bind_run (mock_push enc msgs []) (\<lambda>queue. Returns \<lparr>data = queue\<rparr>)"

definition mock_len :: "MockBody \<Rightarrow> usize" where
  "mock_len body = length (data body)"

definition mock_is_empty :: "MockBody \<Rightarrow> bool" where
  "mock_is_empty body \<longleftrightarrow> data body = []"

text \<open>\<open>poll_frame\<close> is always ready: the next frame, or the end.\<close>

definition poll_frame :: "MockBody \<Rightarrow> byte_array option \<times> MockBody" where
  "poll_frame body =
     (if \<not> mock_is_empty body then (Some (hd (data body)), body\<lparr>data := tl (data body)\<rparr>) else (None, body))"

section \<open>The decoder\<close>

text \<open>
  \<open>DecodeBuf\<close> as the chunks that are left: \<open>chunk()\<close> is the first one, \<open>advance\<close> drops bytes. An error
  of the message decoder returns before anything is consumed.
\<close>

fun chunk :: "byte_array list \<Rightarrow> byte_array" where
  "chunk [] = []"
| "chunk (c # cs) = c"

fun advance :: "usize \<Rightarrow> byte_array list \<Rightarrow> byte_array list" where
  "advance n [] = []"
| "advance n (c # cs) = (if length c \<le> n then advance (n - length c) cs else drop n c # cs)"

definition prost_decode :: "(byte_array \<Rightarrow> string + 'm) \<Rightarrow> byte_array list \<Rightarrow> (status + 'm option) \<times> byte_array list" where
  "prost_decode dec buf =
     (case dec (chunk buf) of
        Inl e \<Rightarrow> (Inl (Status Internal e []), buf)
      | Inr item \<Rightarrow> (Inr (Some item), advance (length (chunk buf)) buf))"

section \<open>Requests and responses\<close>

definition streaming_request ::
    "('m \<Rightarrow> 'e + byte_array) \<Rightarrow> (byte_array \<Rightarrow> string + 'm) \<Rightarrow>
     ((byte_array list \<Rightarrow> (status + 'm option) \<times> byte_array list) \<Rightarrow> MockBody \<Rightarrow> 'st) \<Rightarrow> 'm list \<Rightarrow> 'st run" where
  "streaming_request enc dec new_request msgs =
     bind_run (mock_body_new enc msgs) (\<lambda>body. Returns (new_request (prost_decode dec) body))"

text \<open>
  The loops over a stream, which may never end: \<open>None\<close> is a call that does not return. The function
  works on a world \<open>w\<close> and may panic.
\<close>

partial_function (option) process_loop ::
    "('st \<Rightarrow> ('a \<times> 'st) option) \<Rightarrow> ('a \<Rightarrow> usize \<Rightarrow> 'w \<Rightarrow> 'w run) \<Rightarrow> usize \<Rightarrow> 'st \<Rightarrow> 'w \<Rightarrow> 'w run option" where
  "process_loop next f i st w =
     (case next st of
        None \<Rightarrow> Some (Returns w)
      | Some (v, st') \<Rightarrow> (case f v i w of Panics \<Rightarrow> Some Panics | Returns w' \<Rightarrow> process_loop next f (i + 1) st' w'))"

definition process_streaming_response ::
    "('st \<Rightarrow> ('a \<times> 'st) option) \<Rightarrow> 'st \<Rightarrow> ('a \<Rightarrow> usize \<Rightarrow> 'w \<Rightarrow> 'w run) \<Rightarrow> 'w \<Rightarrow> 'w run option" where
  "process_streaming_response next st f w = process_loop next f 0 st w"

partial_function (option) vec_loop :: "('st \<Rightarrow> ('a \<times> 'st) option) \<Rightarrow> 'st \<Rightarrow> 'a list \<Rightarrow> 'a list option" where
  "vec_loop next st result =
     (case next st of None \<Rightarrow> Some result | Some (v, st') \<Rightarrow> vec_loop next st' (result @ [v]))"

definition stream_to_vec :: "('st \<Rightarrow> ('a \<times> 'st) option) \<Rightarrow> 'st \<Rightarrow> 'a list option" where
  "stream_to_vec next st = vec_loop next st []"

section \<open>Streams that end\<close>

inductive yields :: "('st \<Rightarrow> ('a \<times> 'st) option) \<Rightarrow> 'st \<Rightarrow> 'a list \<Rightarrow> bool" for nxt where
  yields_end: "nxt st = None \<Longrightarrow> yields nxt st []"
| yields_item: "nxt st = Some (v, st') \<Longrightarrow> yields nxt st' vs \<Longrightarrow> yields nxt st (v # vs)"

lemma vec_loop_yields: "yields nxt st vs \<Longrightarrow> vec_loop nxt st acc = Some (acc @ vs)"
proof (induction arbitrary: acc rule: yields.induct)
  case (yields_end st)
  then show ?case by (simp add: vec_loop.simps)
next
  case (yields_item st v st' vs)
  then show ?case by (subst vec_loop.simps) simp
qed

lemma vec_loop_returns: "vec_loop nxt st acc = Some r \<Longrightarrow> \<exists>vs. r = acc @ vs \<and> yields nxt st vs"
proof (erule vec_loop.raw_induct[rotated])
  fix loop nxt st acc r
  assume prems: "\<And>nxt st acc r. loop nxt st acc = Some r \<Longrightarrow> \<exists>vs. r = acc @ vs \<and> yields nxt st vs"
    "(case nxt st of None \<Rightarrow> Some acc | Some (v, st') \<Rightarrow> loop nxt st' (acc @ [v])) = Some r"
  show "\<exists>vs. r = acc @ vs \<and> yields nxt st vs"
  proof (cases "nxt st")
    case None
    with prems(2) show ?thesis by (auto intro: yields_end)
  next
    case (Some x)
    obtain v st' where x: "x = (v, st')" by fastforce
    with prems Some obtain vs where "r = (acc @ [v]) @ vs" "yields nxt st' vs" by fastforce
    with Some x show ?thesis by (auto intro: yields_item)
  qed
qed

text \<open>The calls of the function, one per item, with consecutive numbers, up to a panic.\<close>

fun calls_in_order :: "('a \<Rightarrow> usize \<Rightarrow> 'w \<Rightarrow> 'w run) \<Rightarrow> usize \<Rightarrow> 'a list \<Rightarrow> 'w \<Rightarrow> 'w run" where
  "calls_in_order f i [] w = Returns w"
| "calls_in_order f i (v # vs) w = bind_run (f v i w) (calls_in_order f (i + 1) vs)"

lemma process_loop_yields: "yields nxt st vs \<Longrightarrow> process_loop nxt f i st w = Some (calls_in_order f i vs w)"
proof (induction arbitrary: i w rule: yields.induct)
  case (yields_end st)
  then show ?case by (simp add: process_loop.simps)
next
  case (yields_item st v st' vs)
  then show ?case by (subst process_loop.simps) (simp add: bind_run_def split: run.split)
qed

section \<open>Frames\<close>

text \<open>What a body delivers, polled until it ends.\<close>

function polled :: "MockBody \<Rightarrow> byte_array list" where
  "polled body = (case poll_frame body of (None, _) \<Rightarrow> [] | (Some frame, body') \<Rightarrow> frame # polled body')"
  by pat_completeness auto
termination
  by (relation "measure (\<lambda>body. length (data body))") (auto simp: poll_frame_def mock_is_empty_def split: if_splits)

declare polled.simps [simp del]

lemma polled_data: "polled body = data body"
proof (induction body rule: polled.induct)
  case (1 body)
  show ?case
  proof (cases "data body")
    case Nil
    then show ?thesis by (simp add: polled.simps[of body] poll_frame_def mock_is_empty_def)
  next
    case (Cons frame rest)
    with 1[of "Some frame" "body\<lparr>data := rest\<rparr>" frame] show ?thesis
      by (simp add: polled.simps[of body] poll_frame_def mock_is_empty_def)
  qed
qed

text \<open>A message on the wire: no compression, the length in four bytes, the highest first, the message.\<close>

definition grpc_frame :: "byte_array \<Rightarrow> byte_array" where
  "grpc_frame payload = 0 # rev (to_le_bytes 4 (length payload)) @ payload"

lemma mock_encode_frame:
  assumes "enc msg = Inr payload" "length payload < 2 ^ 32"
  shows "mock_encode enc msg = Returns (grpc_frame payload)"
  using assms by (simp add: mock_encode_def grpc_frame_def Let_def)

lemma mock_push_frames:
  assumes "list_all2 (\<lambda>m p. enc m = Inr p \<and> length p < 2 ^ 32) msgs ps"
  shows "mock_push enc msgs queue = Returns (queue @ map grpc_frame ps)"
  using assms
proof (induction msgs ps arbitrary: queue rule: list_all2_induct)
  case (Cons m ms p ps)
  then show ?case by (simp add: mock_encode_frame[of enc m p])
qed simp

text \<open>
  Above four gigabytes the length wraps: the header then announces less than the frame holds.
\<close>

lemma mock_encode_wraps:
  assumes "enc msg = Inr payload"
  shows "\<exists>frame. mock_encode enc msg = Returns frame \<and> length frame = length payload + 5 \<and>
    from_le_bytes (rev (take 4 (drop 1 frame))) = length payload mod 2 ^ 32"
  using assms by (simp add: mock_encode_def Let_def from_to_le_bytes)

text \<open>
  What \<open>Streaming\<close> does with the frames of a body: it gives the decoder one message at a time, and
  ends after the first error. The default limit of a message is four mebibytes.
\<close>

fun decoded :: "(byte_array list \<Rightarrow> (status + 'm option) \<times> byte_array list) \<Rightarrow> byte_array list \<Rightarrow> (status + 'm) list" where
  "decoded decoder [] = []"
| "decoded decoder (p # ps) =
     (case fst (decoder [p]) of
        Inl e \<Rightarrow> [Inl e] | Inr None \<Rightarrow> decoded decoder ps | Inr (Some m) \<Rightarrow> Inr m # decoded decoder ps)"

definition reads_frames ::
    "((byte_array list \<Rightarrow> (status + 'm option) \<times> byte_array list) \<Rightarrow> MockBody \<Rightarrow> 'st) \<Rightarrow>
     ('st \<Rightarrow> ((status + 'm) \<times> 'st) option) \<Rightarrow> bool" where
  "reads_frames new_request nxt \<longleftrightarrow>
     (\<forall>decoder body ps. polled body = map grpc_frame ps \<longrightarrow> (\<forall>p\<in>set ps. length p \<le> 4 * 2 ^ 20) \<longrightarrow>
        yields nxt (new_request decoder body) (decoded decoder ps))"

lemma decoded_all:
  assumes "list_all2 (\<lambda>m p. dec p = Inr m) msgs ps"
  shows "decoded (prost_decode dec) ps = map Inr msgs"
  using assms by (induction rule: list_all2_induct) (simp_all add: prost_decode_def)

section \<open>Properties\<close>

text \<open>
  The messages of a mocked request arrive. For messages that the decoder of \<open>prost\<close> reads back and that
  are within the limit of \<open>tonic\<close>, \<open>streaming_request\<close> does not panic, and the stream it returns yields
  these messages in order, each once, and ends; collecting it gives them all, and a function that is
  called for each of them sees them numbered from zero.
\<close>

lemma streaming_request_roundtrip:
  assumes "reads_frames new_request nxt"
    and "\<forall>m\<in>set msgs. \<exists>p. enc m = Inr p \<and> dec p = Inr m \<and> length p \<le> 4 * 2 ^ 20"
  shows "\<exists>st. streaming_request enc dec new_request msgs = Returns st \<and> stream_to_vec nxt st = Some (map Inr msgs) \<and>
    (\<forall>f w. process_streaming_response nxt st f w = Some (calls_in_order f 0 (map Inr msgs) w))"
proof -
  define ps where "ps = map (\<lambda>m. projr (enc m)) msgs"
  have p: "enc m = Inr (projr (enc m)) \<and> dec (projr (enc m)) = Inr m \<and> length (projr (enc m)) \<le> 4 * 2 ^ 20"
    if "m \<in> set msgs" for m using assms(2) that by force
  then have enc: "list_all2 (\<lambda>m p. enc m = Inr p \<and> length p < 2 ^ 32) msgs ps"
    and dec: "list_all2 (\<lambda>m p. dec p = Inr m) msgs ps" and small: "\<forall>p\<in>set ps. length p \<le> 4 * 2 ^ 20"
    by (force simp: ps_def list_all2_map2 list_all2_same)+
  let ?body = "\<lparr>data = map grpc_frame ps\<rparr>" and ?st = "new_request (prost_decode dec) \<lparr>data = map grpc_frame ps\<rparr>"
  have "streaming_request enc dec new_request msgs = Returns ?st"
    using mock_push_frames[OF enc, of "[]"] by (simp add: streaming_request_def mock_body_new_def)
  moreover have y: "yields nxt ?st (map Inr msgs)"
    using assms(1)[unfolded reads_frames_def, rule_format, of ?body ps "prost_decode dec"] small polled_data[of ?body]
      decoded_all[OF dec] by simp
  ultimately show ?thesis
    by (simp add: stream_to_vec_def process_streaming_response_def vec_loop_yields[OF y] process_loop_yields[OF y])
qed

text \<open>A reader of bodies: it cuts the header off each frame; the stream is the list of its results.\<close>

definition plain_request ::
    "(byte_array list \<Rightarrow> (status + 'm option) \<times> byte_array list) \<Rightarrow> MockBody \<Rightarrow> (status + 'm) list" where
  "plain_request decoder body = decoded decoder (map (drop 5) (polled body))"

fun pop_item :: "'a list \<Rightarrow> ('a \<times> 'a list) option" where
  "pop_item [] = None"
| "pop_item (x # xs) = Some (x, xs)"

lemma yields_pop_item: "yields pop_item vs vs"
  by (induction vs) (auto intro: yields.intros)

lemma plain_request_reads: "reads_frames plain_request pop_item"
  by (simp add: reads_frames_def plain_request_def grpc_frame_def comp_def yields_pop_item)

lemma streaming_request_roundtrip_witness:
  "\<exists>st. streaming_request (\<lambda>m. (Inr m :: unit + byte_array)) Inr plain_request [[1], [], [2, 3]] = Returns st \<and>
    stream_to_vec pop_item st = Some [Inr [1], Inr [], Inr [2, 3]]"
  using streaming_request_roundtrip[OF plain_request_reads, of "[[1], [], [2, 3]]" "\<lambda>m. (Inr m :: unit + byte_array)" Inr] by auto

text \<open>
  Collecting a stream returns exactly if the stream ends.
\<close>

lemma stream_to_vec_iff: "stream_to_vec nxt st = Some vs \<longleftrightarrow> yields nxt st vs"
  using vec_loop_returns[of nxt st "[]" vs] vec_loop_yields[of nxt st vs "[]"] by (auto simp: stream_to_vec_def)

end
