(* ===== verification/Spec2Isabelle.thy ===== *)
theory Spec2Isabelle
  imports Repository_Tests Watch_System Watch_Threads Wal_Workers Deque_Races Server_Main Metrics Stress_Client
    Tonic_Mock
begin

text \<open>
  A verification library for \<open>mem_etcd\<close>, an in-memory server with the etcd API, a write-ahead log and
  optional replication by Raft.

  \<^bold>\<open>The program and its model.\<close> The sources are under \<open>src/src\<close>.

  \<^item> \<open>block_deque.rs\<close>, a log of values in fixed-size blocks behind an offset: \<open>Block_Deque\<close> models every
    operation and shows that any sequence of calls answers like a list behind an offset;
    \<open>Block_Deque_Threads\<close> interleaves the critical sections of concurrent pushes and removals;
    \<open>Deque_Races\<close> shows when a removal and a push collide, and what \<open>latest_revision\<close> can return meanwhile.
  \<^item> \<open>store.rs\<close>, the store: \<open>Key_Prefix\<close> (splitting keys, the ends of ranges), \<open>BTree_Map\<close> (the ordered
    maps), \<open>Store_State\<close> (the struct, its items and indexes), \<open>Store_Write\<close> (\<open>set\<close>, \<open>delete\<close>,
    \<open>set_for_replay\<close>, \<open>compact\<close>, the jobs for the notification thread), \<open>Store_Read\<close> (\<open>range\<close>),
    \<open>Store_Watch\<close> (\<open>watch\<close>, \<open>unwatch\<close>), \<open>Store_Snapshot\<close> (export and import), \<open>Store_Runs\<close> (all
    operations as one step relation). \<open>Utf8_Lossy\<close> is the lossy decoding of prefixes.
  \<^item> \<open>store.rs\<close>, \<open>set\<close>, \<open>range\<close> and \<open>watch\<close> as threads: \<open>Set_Threads\<close> cuts \<open>set\<close> into the sections between which
    other calls run, \<open>Set_Interleavings\<close> holds the invariant of all interleavings, \<open>Set_Runs\<close> its
    consequences; \<open>Range_Threads\<close> puts a range beside them and \<open>Watch_Threads\<close> the opening of a watch, both
    with one item per step.
  \<^item> \<open>store.rs\<close>, \<open>setup_notify_thread\<close>: \<open>Notify_Thread\<close>, with the spool of \<open>Min_Heap\<close>.
  \<^item> \<open>wal.rs\<close>: \<open>Wal_Record\<close> (the byte format), \<open>Wal_Manager\<close> (\<open>append\<close>, one run of a writer with every
    result of the system calls, merging the files at start), \<open>Wal_Workers\<close> (the writer threads as a
    step relation), \<open>Store_Recovery\<close> (\<open>Store::new\<close>).
  \<^item> \<open>kv_service.rs\<close>: \<open>Kv_Service\<close>; \<open>watch_service.rs\<close>: \<open>Watch_Service\<close>, and \<open>Watch_System\<close> for a stream
    beside the notification thread; \<open>lease_service.rs\<close> and \<open>maintenance_service.rs\<close>: \<open>Lease_Maintenance\<close>.
  \<^item> \<open>raft.rs\<close>: \<open>Raft_Log\<close> (\<open>MemLogStore\<close>), \<open>Raft_State_Machine\<close> (\<open>StateMachineStore\<close>), \<open>Peer_List\<close>
    (\<open>parse_peers\<close>), \<open>Raft_Network\<close> (both transports), \<open>Raft_Node\<close> (setting up a node).
  \<^item> \<open>main.rs\<close>: \<open>Server_Start\<close> (settings, store, dummy key), \<open>server_main\<close> of \<open>Raft_Node\<close> (the Raft node) and
    \<open>Server_Main\<close> (the whole of \<open>main\<close>: its tasks, ports, services and early errors); \<open>metrics.rs\<close>, the scrape of \<open>main.rs\<close> and the size accounting of values: \<open>Metrics\<close>.
  \<^item> \<open>stress-client/src/main.rs\<close>, the load generator: \<open>Stress_Client\<close>, against \<open>Kv_Service\<close>.
  \<^item> \<open>extern/tonic-mock\<close>, mocked streaming requests and responses: \<open>Tonic_Mock\<close>.

  \<^bold>\<open>State and effects.\<close> Structs are records, enums datatypes, each function a definition that passes the
  state explicitly. A panic is the value \<open>Panics\<close> of the type \<open>run\<close>, an error the left side of a sum.
  Shared objects behind \<open>Arc\<close> are references into the store's own maps (\<open>item_ref\<close>, \<open>channel_ref\<close>,
  \<open>notify_ref\<close>). Awaiting the log in fsync mode is the reference the call returns; a wait that is
  never answered is stated as such. Bytes are \<open>8 word\<close>s; \<open>i64\<close> is \<open>int\<close> and \<open>usize\<close> is \<open>nat\<close>, with the casts
  between them written out and the bounds stated where they matter (lengths in log records, the
  largest watcher id). The iteration order of hash maps is an argument.

  \<^bold>\<open>Specification.\<close> \<open>Mvcc_History\<close> defines the history of a store: the list of its admitted writes,
  newest first. \<open>store_repr s h\<close> says that a store represents a history, which fixes the answer of
  every operation; \<open>revision_log\<close>, \<open>ordered_map\<close> and \<open>min_queue\<close> are the contracts of the deque, the
  B-trees and the heap as locales, interpreted on their models.

  \<^bold>\<open>What is shown.\<close> Writes refine the history and ranges read it back, also after compaction; every
  reachable store is well-formed, no write or compaction panics on it, and history is append-only.
  Concurrent writes are linearizable in the order of their decisions under the item locks, with
  compactions at any moment, and never deadlock; a concurrent range is a snapshot, and a watch opened
  beside writes loses none of them, under conditions that are shown to be needed. Jobs are
  sent and logged in revision order for every order of arrival; workers keep the order of the log
  and forget no record; what is logged is recovered, from the bytes of the files to the history a
  restarted server serves. A watch stream delivers past and live changes without gaps in every
  interleaving with the notification thread. Replicas that apply the same log agree from their start
  on, and snapshots carry the live keys over. A transaction is a compare-and-swap on a single node.
  Calls between Raft nodes arrive as they were made. A server that comes up offers its services on one
  store. The theorems also pin down where the code fails:
  a write acknowledged before a range can see its key, a range after a compaction that misses a key
  overwritten meanwhile, a watch that loses an acknowledged write, notifications after a recovery or in a restart with fsync, progress responses that race with the
  notification thread, revisions after an installed snapshot, transactions behind Raft, log errors
  that are acknowledged as success, a size gauge that drifts, a load generator that asks for negative
  revisions.

  \<^bold>\<open>Validation.\<close> \<open>Repository_Tests\<close> states the repository's unit tests of the deque and of the key prefixes as
  runs of the model and evaluates them, and the calls of tests of the store with the expected answers.

  \<^bold>\<open>Bounds and fuel.\<close> There is no fuel: loops recurse on their data or have a termination proof; the
  loops of \<open>Tonic_Mock\<close> over a stream that may not end are partial functions, shown to return. The
  write loop of the log recurses on the list of the results of its system calls, and
  \<open>write_locked_returns\<close> states when that list is long enough. The block size is a field of the deque,
  so that the witnesses can use small blocks; the theorems hold for every positive size.

  \<^bold>\<open>Parameters.\<close> \<open>openraft\<close>, \<open>serde_json\<close>, \<open>tonic\<close> and the operating system are arguments of the
  definitions that use them; where a theorem relies on them it names the law (codecs that decode what
  they encode), and its witness has a concrete instance.

  \<^bold>\<open>Not modelled.\<close> The increments of counters and timers along the operations, and logging, which nothing
  else reads; the parser of the command line and the gRPC and HTTP servers, which are third-party code;
  generated protobuf code and the build script; the other tests. Failures to create the log directory, and memory exhaustion. The concurrent
  models take one access to shared state per step: \<open>set\<close>, \<open>range\<close>, \<open>watch\<close> and \<open>compact\<close> of the store, the pushes to
  the deque and removals, the writer threads of the log, the notification thread beside a watch
  stream. In the other theories an operation of the store is one step; \<open>unwatch\<close>, \<open>set_for_replay\<close> (which
  runs before anything is served) and the snapshot operations are only modelled that way. Waking by
  tokio and the fairness of locks are not modelled: liveness is that a call can always go on.
\<close>

section \<open>Properties that span the components\<close>

text \<open>
  C19: Replicas agree from their start on. Two servers started in Raft mode, with any log directories, WAL
  modes and block sizes, that apply the same entries answer every entry with the same revision and
  end with the same history, applied entry and membership.
\<close>

theorem replicas_agree_from_start:
  assumes "0 < bs" "0 < bs'" "raft_enabled cli" "raft_enabled cli'"
  shows "\<exists>s w s' w' x x' rs h. server_start bs cli = Returns (s, w) \<and> server_start bs' cli' = Returns (s', w') \<and>
    sm_apply (state_machine_new no_members s) es = Returns (x, rs) \<and>
    sm_apply (state_machine_new no_members s') es = Returns (x', rs) \<and>
    store_repr (sm_store x) h \<and> store_repr (sm_store x') h \<and> applied_state x = applied_state x'"
proof -
  let ?h = "[(dummy_key, Some [])]"
  have start: "\<exists>s w. server_start bs cli = Returns (s, w) \<and> store_repr s ?h" if "0 < bs" "raft_enabled cli" for bs cli
    by (rule server_start_set[OF that(1), of cli "[]"]) (use that(2) in \<open>auto simp: record_writes_def\<close>)
  obtain s w s' w' where s: "server_start bs cli = Returns (s, w)" "store_repr s ?h"
    "server_start bs' cli' = Returns (s', w')" "store_repr s' ?h"
    using start[OF assms(1,3)] start[OF assms(2,4)] by blast
  have "store_repr (sm_store (state_machine_new no_members s)) ?h" "store_repr (sm_store (state_machine_new no_members s')) ?h"
    using s(2,4) by (simp_all add: state_machine_new_def)
  from sm_apply_repr[OF this(1), of es] sm_apply_repr[OF this(2), of es] s(1,3) show ?thesis
    by (fastforce simp: state_machine_new_def)
qed

definition second_cli :: Cli where
  "second_cli = (fresh_cli CliBuffered)\<lparr>raft_enabled := True\<rparr>"

theorem replicas_agree_from_start_witness:
  "\<exists>s w s' w' x x' rs h. server_start 2 (second_cli\<lparr>cli_wal_default := CliFsync\<rparr>) = Returns (s, w) \<and>
    server_start 3 second_cli = Returns (s', w') \<and>
    sm_apply (state_machine_new [] s) [entry_at_index 1 (Normal (Set key_a [7]))] = Returns (x, rs) \<and>
    sm_apply (state_machine_new [] s') [entry_at_index 1 (Normal (Set key_a [7]))] = Returns (x', rs) \<and>
    store_repr (sm_store x) h \<and> store_repr (sm_store x') h \<and> applied_state x = applied_state x'"
  by (rule replicas_agree_from_start) (simp_all add: second_cli_def)


definition first_start :: Store where
  "first_start = fst (the (returned (server_start 2 (fresh_cli CliBuffered))))"

definition first_run :: Store where
  "first_run = the (returned (store_writes first_start [(dummy_key, Some [1])]))"

definition first_manager :: WalManager where
  "first_manager = the (nt_wal (nt_env (notify_run (notify_tx first_run)
     (notify_init (notify_env_new (Some (cli_wal_settings (fresh_cli CliBuffered))) no_channels)))))"

definition second_start :: Cli where
  "second_start = (fresh_cli CliBuffered)\<lparr>cli_wal_dir := dir_of (map (\<lambda>p. (p, wal_queue first_manager p)) [[]])\<rparr>"


end
